(* ===== verification/Gc_Prelude.thy ===== *)
theory Gc_Prelude
  imports Main "HOL-Library.Word"
begin

text \<open>
  Shared vocabulary of the development: Go's machine integers and byte slices, errors and
  panics as values, the conversions between strings and byte slices, the big-endian integer
  encodings of \<^verbatim>\<open>encoding/binary\<close>, and the \<open>codec\<close> interface that every
  encoder/decoder pair of the program is an instance of.
\<close>

unbundle bit_operations_syntax

section \<open>Machine types\<close>

type_synonym byte = "8 word"
type_synonym bytes = "byte list"
type_synonym u16 = "16 word"
type_synonym u64 = "64 word"

section \<open>Errors, panics and results\<close>

text \<open>
  A Go error is kept as its format string and its arguments, so that two errors are equal
  exactly when the program would print the same message. Errors that come out of code which
  is not part of the repository are \<open>ExternalErr\<close>.
\<close>

datatype errno = EBADMSG | ENAMETOOLONG

datatype goerr =
    Errorf string "fmtarg list"
  | Errno errno
  | IoEOF
  | ErrAuth
  | IncorrectPasswordError
  | CorruptInputError
  | ExitErr string int
  | ExternalErr string
and fmtarg =
    FInt int
  | FStr string
  | FBytes bytes
  | FErr goerr
  | FStrs "string list"

text \<open>
  The other ways a call can end: \<^verbatim>\<open>log.Panic\<close>, a panic of the Go run time, a
  panic inside a library, and \<^verbatim>\<open>os.Exit\<close>; \<open>Hang\<close> stands for a call that never returns.
\<close>

datatype gopanic =
    LogPanic string
  | NilDeref
  | IndexOutOfRange
  | SliceOutOfRange
  | DivideByZero
  | LibPanic string

datatype fault = Err goerr | Panic gopanic | OsExit int | Hang

type_synonym 'a result = "fault + 'a"

definition is_ok :: "'a result \<Rightarrow> bool" where
  "is_ok r \<longleftrightarrow> (case r of Inl _ \<Rightarrow> False | Inr _ \<Rightarrow> True)"

definition panics :: "'a result \<Rightarrow> bool" where
  "panics r \<longleftrightarrow> (case r of Inl (Panic _) \<Rightarrow> True | _ \<Rightarrow> False)"

lemma is_ok_simps [simp]: "is_ok (Inr x)" "\<not> is_ok (Inl f)"
  by (simp_all add: is_ok_def)

lemma panics_simps [simp]:
  "\<not> panics (Inr x)" "\<not> panics (Inl (Err e))" "\<not> panics (Inl (OsExit n))"
  "panics (Inl (Panic p))"
  by (simp_all add: panics_def)

text \<open>How a call ends the program or never returns, if it does; an error is returned like a value.\<close>

definition panic_of :: "'a result \<Rightarrow> fault option" where
  "panic_of r = (case r of Inl (Err _) \<Rightarrow> None | Inl f \<Rightarrow> Some f | Inr _ \<Rightarrow> None)"

lemma panic_of_simps [simp]:
  "panic_of (Inr x) = None" "panic_of (Inl (Err e)) = None" "panic_of (Inl (Panic p)) = Some (Panic p)"
  by (simp_all add: panic_of_def)

lemma panic_of_SomeD: "panic_of r = Some f \<Longrightarrow> r = Inl f"
  by (auto simp: panic_of_def split: sum.splits fault.splits)

lemma is_ok_iff: "is_ok r \<longleftrightarrow> (\<exists>x. r = Inr x)"
  by (cases r) simp_all

section \<open>Evaluation\<close>

text \<open>Rules with which the simplifier computes closed instances.\<close>

named_theorems eval_simps

lemma replicate_numeral_unfold [eval_simps]:
  "replicate (numeral k) x = x # replicate (pred_numeral k) x"
  by (simp add: numeral_eq_Suc)

section \<open>Strings and byte slices\<close>

text \<open>A Go string is a sequence of bytes; \<^verbatim>\<open>[]byte(s)\<close> and \<^verbatim>\<open>string(b)\<close> convert.\<close>

definition byte_of_char :: "char \<Rightarrow> byte" where
  "byte_of_char c = word_of_nat (of_char c)"

definition char_of_byte :: "byte \<Rightarrow> char" where
  "char_of_byte b = char_of (unat b)"

definition to_bytes :: "string \<Rightarrow> bytes" where
  "to_bytes s = map byte_of_char s"

definition of_bytes :: "bytes \<Rightarrow> string" where
  "of_bytes bs = map char_of_byte bs"

lemma char_of_byte_of_char [simp]: "char_of_byte (byte_of_char c) = c"
proof -
  have "(of_char c :: nat) < 256"
    using of_char_of [of "of_char c :: nat"] by simp
  then show ?thesis
    by (simp add: char_of_byte_def byte_of_char_def unat_of_nat)
qed

lemma byte_of_char_of_byte [simp]: "byte_of_char (char_of_byte b) = b"
proof -
  have "unat b < 256"
    using unsigned_less [of b] by simp
  then show ?thesis
    by (simp add: char_of_byte_def byte_of_char_def)
qed

lemma of_bytes_to_bytes [simp]: "of_bytes (to_bytes s) = s"
  by (simp add: of_bytes_def to_bytes_def comp_def)

lemma to_bytes_of_bytes [simp]: "to_bytes (of_bytes bs) = bs"
  by (simp add: of_bytes_def to_bytes_def comp_def)

lemma length_to_bytes [simp]: "length (to_bytes s) = length s"
  by (simp add: to_bytes_def)

lemma length_of_bytes [simp]: "length (of_bytes bs) = length bs"
  by (simp add: of_bytes_def)


lemma inj_byte_of_char: "inj byte_of_char"
  by (metis char_of_byte_of_char injI)

lemma to_bytes_inject [simp]: "to_bytes s = to_bytes t \<longleftrightarrow> s = t"
  by (metis of_bytes_to_bytes)

lemma to_bytes_append [simp]: "to_bytes (s @ t) = to_bytes s @ to_bytes t"
  by (simp add: to_bytes_def)

lemma to_bytes_Nil [simp]: "to_bytes [] = []"
  by (simp add: to_bytes_def)

lemma of_bytes_Nil [simp]: "of_bytes [] = []"
  by (simp add: of_bytes_def)

lemma to_bytes_eq_Nil [simp]: "to_bytes s = [] \<longleftrightarrow> s = []"
  by (simp add: to_bytes_def)

lemma of_bytes_eq_Nil [simp]: "of_bytes bs = [] \<longleftrightarrow> bs = []"
  by (simp add: of_bytes_def)

lemma of_bytes_eq_iff: "of_bytes bs = s \<longleftrightarrow> bs = to_bytes s"
  by auto

section \<open>Big-endian integers\<close>

text \<open>
  \<^verbatim>\<open>binary.BigEndian.PutUint16\<close>, \<^verbatim>\<open>PutUint64\<close> and their readers, on the
  byte lists they fill or read.
\<close>

primrec be_put :: "nat \<Rightarrow> nat \<Rightarrow> bytes" where
  "be_put 0 x = []"
| "be_put (Suc n) x = be_put n (x div 256) @ [word_of_nat (x mod 256)]"

definition be_get :: "bytes \<Rightarrow> nat" where
  "be_get bs = foldl (\<lambda>acc b. 256 * acc + unat b) 0 bs"

definition put_u16 :: "u16 \<Rightarrow> bytes" where
  "put_u16 w = be_put 2 (unat w)"

definition get_u16 :: "bytes \<Rightarrow> u16" where
  "get_u16 bs = word_of_nat (be_get (take 2 bs))"

definition put_u64 :: "u64 \<Rightarrow> bytes" where
  "put_u64 w = be_put 8 (unat w)"

definition get_u64 :: "bytes \<Rightarrow> u64" where
  "get_u64 bs = word_of_nat (be_get (take 8 bs))"

lemma length_be_put [simp]: "length (be_put n x) = n"
  by (induction n arbitrary: x) simp_all

lemma unat_byte_less [simp]: "unat (b :: byte) < 256"
  using unsigned_less [of b] by simp

lemma unat_u16_less [simp]: "unat (w :: u16) < 65536"
  using unsigned_less [of w] by simp

lemma unat_u64_less [simp]: "unat (w :: u64) < 18446744073709551616"
  using unsigned_less [of w] by simp

text \<open>Arithmetic on \<^verbatim>\<open>uint64\<close> that stays in range is arithmetic on natural numbers.\<close>

lemma unat_u64_add: "unat a + unat b < 2 ^ 64 \<Longrightarrow> unat (a + b :: u64) = unat a + unat b"
  using unat_add_lem [of a b] by simp

lemma unat_u64_Suc: "unat k < unat n \<Longrightarrow> unat (k + 1 :: u64) = unat k + 1" for n :: u64
proof -
  assume "unat k < unat n"
  moreover have "unat n < 18446744073709551616" by simp
  ultimately have "unat k + 1 < 18446744073709551616" by linarith
  then show ?thesis by (simp add: unat_u64_add)
qed

lemma unat_u64_mult: "unat a * unat b < 2 ^ 64 \<Longrightarrow> unat (a * b :: u64) = unat a * unat b"
  using unat_mult_lem [of a b] by simp

lemma unat_u64_diff: "unat b \<le> unat a \<Longrightarrow> unat (a - b :: u64) = unat a - unat b"
  by (simp add: unat_sub word_le_nat_alt)

lemma unat_u64_of_nat: "n < 2 ^ 64 \<Longrightarrow> unat (word_of_nat n :: u64) = n"
  by (simp add: unat_of_nat)

lemmas unat_u64_arith = unat_u64_add unat_u64_mult unat_u64_diff unat_div_distrib unat_mod_distrib

lemma be_put_numeral_unfold [eval_simps]:
  "be_put (numeral k) x = be_put (pred_numeral k) (x div 256) @ [word_of_nat (x mod 256)]"
  by (simp only: numeral_eq_Suc [of k] be_put.simps)

declare be_get_def [eval_simps] to_bytes_def [eval_simps] of_bytes_def [eval_simps]
  byte_of_char_def [eval_simps] char_of_byte_def [eval_simps] char_of_eq_iff [eval_simps]

lemma be_get_Nil [simp]: "be_get [] = 0"
  by (simp add: be_get_def)

lemma be_get_snoc [simp]: "be_get (bs @ [b]) = 256 * be_get bs + unat b"
  by (simp add: be_get_def)

lemma be_get_put: "be_get (be_put n x) = x mod 256 ^ n"
proof (induction n arbitrary: x)
  case 0
  then show ?case by simp
next
  case (Suc n)
  have "x mod 256 ^ Suc n = 256 * (x div 256 mod 256 ^ n) + x mod 256"
    by (simp add: mod_mult2_eq)
  with Suc show ?case
    by (simp add: unat_of_nat)
qed

lemma be_put_get: "be_put (length bs) (be_get bs) = bs"
proof (induction bs rule: rev_induct)
  case Nil
  then show ?case by simp
next
  case (snoc b bs)
  have "(256 * be_get bs + unat b) div 256 = be_get bs"
    by (simp add: div_mult_self4)
  moreover have "(256 * be_get bs + unat b) mod 256 = unat b"
    by simp
  ultimately show ?case
    using snoc by simp
qed

lemma be_get_less: "be_get bs < 256 ^ length bs"
proof (induction bs rule: rev_induct)
  case Nil
  then show ?case by simp
next
  case (snoc b bs)
  define P where "P = (256 :: nat) ^ length bs"
  from snoc have "be_get bs < P" by (simp add: P_def)
  moreover have "unat b < 256" by simp
  ultimately have "256 * be_get bs + unat b < 256 * P" by linarith
  then show ?case by (simp add: P_def)
qed

lemma length_put_u16 [simp]: "length (put_u16 w) = 2"
  by (simp add: put_u16_def)

lemma length_put_u64 [simp]: "length (put_u64 w) = 8"
  by (simp add: put_u64_def)

lemma get_put_u16 [simp]: "get_u16 (put_u16 w @ rest) = w"
  by (simp add: put_u16_def get_u16_def be_get_put)

lemma get_put_u64 [simp]: "get_u64 (put_u64 w @ rest) = w"
  by (simp add: put_u64_def get_u64_def be_get_put)

lemma put_get_u16: "length bs = 2 \<Longrightarrow> put_u16 (get_u16 bs) = bs"
  using be_get_less [of bs] be_put_get [of bs]
  by (simp add: put_u16_def get_u16_def unat_of_nat)

lemma put_get_u64: "length bs = 8 \<Longrightarrow> put_u64 (get_u64 bs) = bs"
  using be_get_less [of bs] be_put_get [of bs]
  by (simp add: put_u64_def get_u64_def unat_of_nat)

section \<open>The codec interface\<close>

text \<open>
  An encoder and a decoder that undo each other on well-formed values. Both may fail or
  panic. A \<open>strict_codec\<close> also rejects every input that is not an encoding, which
  makes the encoding canonical.
\<close>

locale codec =
  fixes enc :: "'a \<Rightarrow> 'b result"
    and dec :: "'b \<Rightarrow> 'a result"
    and wf :: "'a \<Rightarrow> bool"
  assumes enc_total: "wf x \<Longrightarrow> \<exists>y. enc x = Inr y"
    and dec_enc: "wf x \<Longrightarrow> enc x = Inr y \<Longrightarrow> dec y = Inr x"
begin

lemma enc_inject: "wf x \<Longrightarrow> wf x' \<Longrightarrow> enc x = Inr y \<Longrightarrow> enc x' = Inr y \<Longrightarrow> x = x'"
  using dec_enc by (metis sum.inject(2))

lemma roundtrip: "wf x \<Longrightarrow> \<exists>y. enc x = Inr y \<and> dec y = Inr x"
  using enc_total dec_enc by blast

end

locale strict_codec = codec +
  assumes dec_sound: "dec y = Inr x \<Longrightarrow> wf x \<and> enc x = Inr y"
begin

lemma dec_iff: "dec y = Inr x \<longleftrightarrow> wf x \<and> enc x = Inr y"
  using dec_enc dec_sound by blast

lemma dec_inject: "dec y = Inr x \<Longrightarrow> dec y' = Inr x \<Longrightarrow> y = y'"
  by (metis dec_sound sum.inject(2))

end

text \<open>Encoding in two stages and decoding in the reverse order is again a codec.\<close>

definition enc_chain :: "('a \<Rightarrow> 'b result) \<Rightarrow> ('b \<Rightarrow> 'c result) \<Rightarrow> 'a \<Rightarrow> 'c result" where
  "enc_chain f g x = (case f x of Inl e \<Rightarrow> Inl e | Inr y \<Rightarrow> g y)"

locale codec_chain =
  inner: codec enc1 dec1 wf1 + outer: codec enc2 dec2 wf2
  for enc1 :: "'a \<Rightarrow> 'b result" and dec1 wf1
    and enc2 :: "'b \<Rightarrow> 'c result" and dec2 wf2 +
  assumes chain_wf: "wf1 x \<Longrightarrow> enc1 x = Inr y \<Longrightarrow> wf2 y"

sublocale codec_chain \<subseteq> chain: codec "enc_chain enc1 enc2" "enc_chain dec2 dec1" wf1
proof
  fix x
  assume "wf1 x"
  then show "\<exists>y. enc_chain enc1 enc2 x = Inr y"
    using inner.enc_total [of x] outer.enc_total chain_wf
    by (fastforce simp: enc_chain_def)
next
  fix x y
  assume x: "wf1 x" and y: "enc_chain enc1 enc2 x = Inr y"
  then obtain z where z: "enc1 x = Inr z" "enc2 z = Inr y"
    by (auto simp: enc_chain_def split: sum.splits)
  then have "dec2 y = Inr z"
    using outer.dec_enc chain_wf x by blast
  then show "enc_chain dec2 dec1 y = Inr x"
    using inner.dec_enc x z by (simp add: enc_chain_def)
qed

interpretation u16be: strict_codec
  "\<lambda>w. Inr (put_u16 w)" "\<lambda>bs. if length bs = 2 then Inr (get_u16 bs) else Inl (Panic IndexOutOfRange)"
  "\<lambda>_. True"
  by unfold_locales
    (use get_put_u16 [of _ "[]"] in \<open>auto simp: put_get_u16 split: if_splits\<close>)

interpretation u64be: strict_codec
  "\<lambda>w. Inr (put_u64 w)" "\<lambda>bs. if length bs = 8 then Inr (get_u64 bs) else Inl (Panic IndexOutOfRange)"
  "\<lambda>_. True"
  by unfold_locales
    (use get_put_u64 [of _ "[]"] in \<open>auto simp: put_get_u64 split: if_splits\<close>)

lemma put_u64_inject [simp]: "put_u64 v = put_u64 w \<longleftrightarrow> v = w"
  using u64be.enc_inject by blast

end
