(* ===== verification/Pad16.thy ===== *)
theory Pad16
  imports Gc_Prelude
begin

text \<open>
  \<^verbatim>\<open>gocrypt/nametransform/pad16.go\<close>: PKCS#7 padding of names to the AES block size.
  Lengths are natural numbers (a Go slice length never overflows an \<^verbatim>\<open>int\<close>); the
  padding byte is a byte. The two functions form a strict codec on non-empty byte slices:
  unpadding accepts exactly the padded slices.
\<close>

definition aes_BlockSize :: nat where
  "aes_BlockSize = 16"

definition pad16 :: "bytes \<Rightarrow> bytes result" where
  "pad16 orig =
     (let oldLen = length orig in
      if oldLen = 0 then Inl (Panic (LogPanic ''Padding zero-length string makes no sense''))
      else
        let padLen0 = aes_BlockSize - oldLen mod aes_BlockSize;
            padLen = (if padLen0 = 0 then aes_BlockSize else padLen0);
            padByte = word_of_nat padLen
        in Inr (orig @ replicate padLen padByte))"

text \<open>The loop over the padding bytes, from index \<open>i\<close> up to the end of the slice.\<close>

function pad_check :: "bytes \<Rightarrow> byte \<Rightarrow> nat \<Rightarrow> unit result" where
  "pad_check padded padByte i =
     (if i < length padded
      then if padded ! i \<noteq> padByte
           then Inl (Err (Errorf ''Padding byte at i=%d is invalid'' [FInt (int i)]))
           else pad_check padded padByte (Suc i)
      else Inr ())"
  by pat_completeness auto
termination
  by (relation "measure (\<lambda>(padded, _, i). length padded - i)") auto

declare pad_check.simps [simp del]

definition unPad16 :: "bytes \<Rightarrow> bytes result" where
  "unPad16 padded =
     (let oldLen = length padded in
      if oldLen = 0 then Inl (Err (Errorf ''Empty input'' []))
      else if oldLen mod aes_BlockSize \<noteq> 0 then Inl (Err (Errorf ''Unaligned size'' []))
      else
        let padByte = padded ! (oldLen - 1);
            padLen = unat padByte
        in
        if padLen = 0 then Inl (Err (Errorf ''Padding cannot be zero-length'' []))
        else if padLen > aes_BlockSize
        then Inl (Err (Errorf ''Padding too long, padLen=%d > 16'' [FInt (int padLen)]))
        else if padLen \<ge> oldLen
        then Inl (Err (Errorf ''Padding too long, oldLen=%d >= padLen=%d''
               [FInt (int oldLen), FInt (int padLen)]))
        else case pad_check padded padByte (oldLen - padLen) of
            Inl f \<Rightarrow> Inl f
          | Inr _ \<Rightarrow> Inr (take (oldLen - padLen) padded))"

section \<open>What the padding loop checks\<close>

lemma pad_check_ok:
  "pad_check padded b i = Inr () \<longleftrightarrow> (\<forall>j. i \<le> j \<and> j < length padded \<longrightarrow> padded ! j = b)"
proof (induction padded b i rule: pad_check.induct)
  case (1 padded b i)
  have split: "(\<forall>j. i \<le> j \<and> j < length padded \<longrightarrow> padded ! j = b) \<longleftrightarrow>
      (i < length padded \<longrightarrow> padded ! i = b) \<and>
      (\<forall>j. Suc i \<le> j \<and> j < length padded \<longrightarrow> padded ! j = b)"
    by (metis Suc_le_eq le_eq_less_or_eq order_refl less_imp_le)
  show ?case
  proof (cases "i < length padded \<and> padded ! i = b")
    case True
    then show ?thesis
      using 1 split by (simp add: pad_check.simps [of padded b i])
  next
    case False
    then show ?thesis
      by (auto simp: pad_check.simps [of padded b i])
  qed
qed

lemma pad_check_drop:
  "pad_check padded b i = Inr () \<longleftrightarrow> drop i padded = replicate (length padded - i) b"
  by (auto simp: pad_check_ok list_eq_iff_nth_eq)
    (metis add_diff_cancel_left' diff_less_mono le_add_diff_inverse)

lemma pad_check_Inl: "pad_check padded b i = Inl f \<Longrightarrow> \<exists>e. f = Err e"
proof (induction padded b i rule: pad_check.induct)
  case (1 padded b i)
  then show ?case
    by (auto simp: pad_check.simps [of padded b i] split: if_splits)
qed

section \<open>Padding\<close>

lemma pad16_ok:
  assumes "orig \<noteq> []"
  shows "pad16 orig =
    Inr (orig @ replicate (16 - length orig mod 16) (word_of_nat (16 - length orig mod 16)))"
  using assms by (simp add: pad16_def aes_BlockSize_def Let_def)

lemma pad16_length:
  assumes "pad16 orig = Inr padded"
  shows "length padded mod 16 = 0" "length orig < length padded" "length padded \<le> length orig + 16"
proof -
  from assms have "orig \<noteq> []"
    by (auto simp: pad16_def Let_def)
  with assms have l: "length padded = length orig + (16 - length orig mod 16)"
    by (auto simp: pad16_ok)
  obtain q r where qr: "length orig = 16 * q + r" "r < 16" "length orig mod 16 = r"
    by (metis mod_less_divisor mult_div_mod_eq zero_less_numeral)
  with l have "length padded = 16 * (q + 1)"
    by simp
  then show "length padded mod 16 = 0"
    by simp
  show "length orig < length padded" "length padded \<le> length orig + 16"
    using l qr(2,3) by simp_all
qed

section \<open>Unpadding\<close>

lemma pad_len_unique: "0 < k \<Longrightarrow> k \<le> 16 \<Longrightarrow> (l + k) mod 16 = 0 \<Longrightarrow> 16 - l mod 16 = (k :: nat)"
proof -
  assume k: "0 < k" "k \<le> 16" and "(l + k) mod 16 = 0"
  then have "(l mod 16 + k) mod 16 = 0"
    by (simp add: mod_add_left_eq)
  then obtain q where q: "l mod 16 + k = 16 * q"
    by (auto simp: mod_eq_0_iff_dvd elim: dvdE)
  moreover have "l mod 16 < 16"
    by simp
  ultimately have "q = 1"
    using k by linarith
  with q show ?thesis
    by simp
qed

lemma unPad16_okE:
  assumes "unPad16 padded = Inr orig"
  obtains k where "0 < k" "k \<le> 16" "orig \<noteq> []" "(length orig + k) mod 16 = 0"
    "padded = orig @ replicate k (word_of_nat k)"
proof -
  define n where "n = length padded"
  define b where "b = padded ! (n - 1)"
  have k: "n \<noteq> 0" "n mod 16 = 0" "0 < unat b" "unat b \<le> 16" "unat b < n"
    and c: "pad_check padded b (n - unat b) = Inr ()"
    and o: "orig = take (n - unat b) padded"
    using assms unfolding n_def b_def
    by (simp_all add: unPad16_def Let_def aes_BlockSize_def split: if_splits sum.splits)
  have "drop (n - unat b) padded = replicate (unat b) b"
    using c k(5) by (simp add: pad_check_drop n_def)
  then have "padded = orig @ replicate (unat b) (word_of_nat (unat b))"
    by (simp add: o) (metis append_take_drop_id)
  moreover have "length orig + unat b = n"
    using k(5) by (simp add: o n_def)
  moreover have "orig \<noteq> []"
    using k(5) by (auto simp: o n_def)
  ultimately show thesis
    using that [of "unat b"] k(2,3,4) by simp
qed

lemma unPad16_replicate:
  assumes k: "0 < k" "k \<le> 16" and o: "orig \<noteq> []" and l: "(length orig + k) mod 16 = 0"
  shows "unPad16 (orig @ replicate k (word_of_nat k)) = Inr orig"
proof -
  let ?p = "orig @ replicate k (word_of_nat k :: byte)"
  have "?p \<noteq> []" and "last ?p = word_of_nat k"
    using k by simp_all
  then have last: "?p ! (length ?p - 1) = word_of_nat k"
    using last_conv_nth [of ?p] by simp
  have b: "unat (word_of_nat k :: byte) = k"
    using k by (simp add: unat_of_nat)
  have "pad_check ?p (word_of_nat k) (length ?p - k) = Inr ()"
    by (simp add: pad_check_drop)
  with last b k o l show ?thesis
    by (simp add: unPad16_def Let_def aes_BlockSize_def)
qed

interpretation pad16: strict_codec pad16 unPad16 "\<lambda>bs. bs \<noteq> []"
proof
  fix x y :: bytes
  show "\<exists>y. pad16 x = Inr y" if "x \<noteq> []"
    using that by (simp add: pad16_ok)
  show "unPad16 y = Inr x" if "x \<noteq> []" "pad16 x = Inr y"
  proof -
    have y: "y = x @ replicate (16 - length x mod 16) (word_of_nat (16 - length x mod 16))"
      using that by (simp add: pad16_ok)
    then have "(length x + (16 - length x mod 16)) mod 16 = 0"
      using pad16_length(1) [OF that(2)] by simp
    then show ?thesis
      unfolding y by (intro unPad16_replicate) (simp_all add: that)
  qed
  show "x \<noteq> [] \<and> pad16 x = Inr y" if "unPad16 y = Inr x"
    using that
  proof (rule unPad16_okE)
    fix k
    assume k: "0 < k" "k \<le> 16" "x \<noteq> []" "(length x + k) mod 16 = 0"
      and y: "y = x @ replicate k (word_of_nat k)"
    then show ?thesis
      using pad_len_unique [of k "length x"] by (simp add: pad16_ok)
  qed
qed

lemma unPad16_no_panic: "\<not> panics (unPad16 padded)"
  by (auto simp: unPad16_def Let_def dest: pad_check_Inl split: sum.splits)

end
