(* ===== verification/Base64url.thy ===== *)
theory Base64url
  imports Gc_Prelude
begin

text \<open>
  The part of Go's \<^verbatim>\<open>encoding/base64\<close> that \<^verbatim>\<open>gocrypt/nametransform\<close> uses:
  \<^verbatim>\<open>URLEncoding\<close> (padded with \<^verbatim>\<open>=\<close>) and \<^verbatim>\<open>RawURLEncoding\<close> (no padding),
  over the alphabet \<^verbatim>\<open>A-Za-z0-9-_\<close>. As in the library, the decoder skips carriage
  returns and newlines, wants exact padding in the padded variant, refuses padding in the raw
  variant, and ignores the unused low bits of the last digit. Both variants are shown to be
  codecs.
\<close>

datatype b64_encoding = URLEncoding | RawURLEncoding

definition b64_char :: "nat \<Rightarrow> char" where
  "b64_char n =
     (if n < 26 then char_of (65 + n)
      else if n < 52 then char_of (71 + n)
      else if n < 62 then char_of (n - 4)
      else if n = 62 then char_of (45 :: nat) else char_of (95 :: nat))"

definition b64_value :: "char \<Rightarrow> nat option" where
  "b64_value c =
     (let n = of_char c in
      if 65 \<le> n \<and> n \<le> 90 then Some (n - 65)
      else if 97 \<le> n \<and> n \<le> 122 then Some (n - 71)
      else if 48 \<le> n \<and> n \<le> 57 then Some (n + 4)
      else if n = 45 then Some 62
      else if n = 95 then Some 63 else None)"

text \<open>The four 6-bit digits of a 24-bit group, most significant first, and back.\<close>

definition sextets :: "nat \<Rightarrow> nat list" where
  "sextets v = [v div 64 div 64 div 64 mod 64, v div 64 div 64 mod 64, v div 64 mod 64, v mod 64]"

definition group :: "nat list \<Rightarrow> nat" where
  "group ds = foldl (\<lambda>acc d. 64 * acc + d) 0 ds"

definition pad_with :: "b64_encoding \<Rightarrow> nat \<Rightarrow> string" where
  "pad_with e n = (case e of URLEncoding \<Rightarrow> replicate n (CHR ''='') | RawURLEncoding \<Rightarrow> [])"

fun b64_encode :: "b64_encoding \<Rightarrow> bytes \<Rightarrow> string" where
  "b64_encode e [] = []"
| "b64_encode e [a] = map b64_char (take 2 (sextets (be_get [a, 0, 0]))) @ pad_with e 2"
| "b64_encode e [a, b] = map b64_char (take 3 (sextets (be_get [a, b, 0]))) @ pad_with e 1"
| "b64_encode e (a # b # c # rest) =
     map b64_char (sextets (be_get [a, b, c])) @ b64_encode e rest"

definition b64_newline :: "char \<Rightarrow> bool" where
  "b64_newline c \<longleftrightarrow> c = CHR 0x0A \<or> c = CHR 0x0D"

definition b64_corrupt :: "bytes result" where
  "b64_corrupt = Inl (Err CorruptInputError)"

fun b64_quanta :: "b64_encoding \<Rightarrow> string \<Rightarrow> bytes result" where
  "b64_quanta e [] = Inr []"
| "b64_quanta e [c0] = b64_corrupt"
| "b64_quanta e [c0, c1] =
     (case (e, b64_value c0, b64_value c1) of
        (RawURLEncoding, Some v0, Some v1) \<Rightarrow> Inr (take 1 (be_put 3 (group [v0, v1, 0, 0])))
      | _ \<Rightarrow> b64_corrupt)"
| "b64_quanta e [c0, c1, c2] =
     (case (e, b64_value c0, b64_value c1, b64_value c2) of
        (RawURLEncoding, Some v0, Some v1, Some v2) \<Rightarrow>
          Inr (take 2 (be_put 3 (group [v0, v1, v2, 0])))
      | _ \<Rightarrow> b64_corrupt)"
| "b64_quanta e (c0 # c1 # c2 # c3 # rest) =
     (case (b64_value c0, b64_value c1, b64_value c2, b64_value c3) of
        (Some v0, Some v1, Some v2, Some v3) \<Rightarrow>
          (case b64_quanta e rest of
             Inl f \<Rightarrow> Inl f
           | Inr bs \<Rightarrow> Inr (be_put 3 (group [v0, v1, v2, v3]) @ bs))
      | (Some v0, Some v1, Some v2, None) \<Rightarrow>
          if e = URLEncoding \<and> c3 = CHR ''='' \<and> rest = []
          then Inr (take 2 (be_put 3 (group [v0, v1, v2, 0])))
          else b64_corrupt
      | (Some v0, Some v1, None, _) \<Rightarrow>
          if e = URLEncoding \<and> c2 = CHR ''='' \<and> c3 = CHR ''='' \<and> rest = []
          then Inr (take 1 (be_put 3 (group [v0, v1, 0, 0])))
          else b64_corrupt
      | _ \<Rightarrow> b64_corrupt)"

definition b64_decode :: "b64_encoding \<Rightarrow> string \<Rightarrow> bytes result" where
  "b64_decode e s = b64_quanta e (filter (\<lambda>c. \<not> b64_newline c) s)"

lemmas b64_eval [eval_simps] =
  b64_decode_def b64_newline_def b64_value_def b64_char_def sextets_def group_def pad_with_def Let_def

section \<open>Digits\<close>

lemma of_char_b64_char:
  "n < 64 \<Longrightarrow> of_char (b64_char n) =
     (if n < 26 then 65 + n else if n < 52 then 71 + n else if n < 62 then n - 4
      else if n = 62 then 45 else 95 :: nat)"
  by (simp add: b64_char_def)

lemma b64_value_char [simp]: "n < 64 \<Longrightarrow> b64_value (b64_char n) = Some n"
  by (simp add: b64_value_def of_char_b64_char Let_def) arith

lemma b64_value_pad [simp]: "b64_value (CHR ''='') = None"
  by (simp add: b64_value_def Let_def)

definition b64_alphabet :: "char set" where
  "b64_alphabet = b64_char ` {..<64}"

lemma b64_alphabet_no_special:
  assumes "c \<in> b64_alphabet"
  shows "c \<noteq> CHR ''.''" "c \<noteq> CHR ''/''" "c \<noteq> CHR ''=''" "\<not> b64_newline c"
proof -
  from assms obtain n where n: "n < 64" "c = b64_char n"
    by (auto simp: b64_alphabet_def)
  have "of_char c \<notin> {46, 47, 61, 10, 13 :: nat}"
    using n by (simp add: of_char_b64_char) linarith
  then show "c \<noteq> CHR ''.''" "c \<noteq> CHR ''/''" "c \<noteq> CHR ''=''" "\<not> b64_newline c"
    by (auto simp: b64_newline_def)
qed

lemma sextets_less: "d \<in> set (sextets v) \<Longrightarrow> d < 64"
  by (auto simp: sextets_def)

lemma length_sextets [simp]: "length (sextets v) = 4"
  by (simp add: sextets_def)

lemma group_sextets:
  assumes "v < 16777216"
  shows "group (sextets v) = v"
proof -
  have "v div 64 div 64 div 64 < 64"
    using assms by (simp add: div_mult2_eq [symmetric] less_mult_imp_div_less)
  then show ?thesis
    by (simp add: sextets_def group_def)
qed

lemma be_get3_less: "be_get [a, b, c] < 16777216"
  using be_get_less [of "[a, b, c]"] by simp

lemma be_put3_get3: "be_put 3 (be_get [a, b, c]) = [a, b, c]"
  using be_put_get [of "[a, b, c]"] by (simp add: numeral_3_eq_3 del: be_put.simps)

text \<open>A partial group has zero low digits, which the encoder leaves out.\<close>

lemma sextets_two: "sextets (be_get [a, 0, 0]) ! 2 = 0" "sextets (be_get [a, 0, 0]) ! 3 = 0"
proof -
  have "be_get [a, 0, 0] = 64 * (64 * (16 * unat a))"
    by (simp add: be_get_def)
  then show "sextets (be_get [a, 0, 0]) ! 2 = 0" "sextets (be_get [a, 0, 0]) ! 3 = 0"
    by (simp_all add: sextets_def)
qed

lemma sextets_three: "sextets (be_get [a, b, 0]) ! 3 = 0"
proof -
  have "be_get [a, b, 0] = 64 * (4 * (256 * unat a + unat b))"
    by (simp add: be_get_def)
  then show ?thesis
    by (simp add: sextets_def)
qed

lemma sextetsE:
  obtains v0 v1 v2 v3 where "sextets v = [v0, v1, v2, v3]" "v0 < 64" "v1 < 64" "v2 < 64" "v3 < 64"
  by (simp add: sextets_def)

section \<open>Alphabet and length of encodings\<close>

lemma b64_char_in [simp]: "d < 64 \<Longrightarrow> b64_char d \<in> b64_alphabet"
  by (simp add: b64_alphabet_def)

lemma b64_encode_chars: "set (b64_encode e bs) \<subseteq> insert (CHR ''='') b64_alphabet"
proof (induction e bs rule: b64_encode.induct)
  case (4 e a b c rest)
  then show ?case
    by (auto simp: dest: sextets_less)
qed (auto simp: pad_with_def dest!: in_set_takeD sextets_less split: b64_encoding.splits)

lemma b64_encode_no_special:
  assumes "c \<in> set (b64_encode e bs)"
  shows "c \<noteq> CHR ''.''" "c \<noteq> CHR ''/''" "\<not> b64_newline c"
  using assms b64_encode_chars [of e bs] b64_alphabet_no_special [of c]
  by (auto simp: b64_newline_def)

lemma b64_encode_filter [simp]:
  "filter (\<lambda>c. \<not> b64_newline c) (b64_encode e bs) = b64_encode e bs"
  using b64_encode_no_special(3) by (simp add: filter_id_conv)

text \<open>A dot never decodes.\<close>

lemma b64_value_dot [simp]: "b64_value (CHR ''.'') = None"
  by (simp add: b64_value_def Let_def)

lemma b64_quanta_no_dot: "b64_quanta e s = Inr bs \<Longrightarrow> CHR ''.'' \<notin> set s"
proof (induction e s arbitrary: bs rule: b64_quanta.induct)
  case (5 e c0 c1 c2 c3 rest)
  then show ?case
    by (auto simp: b64_corrupt_def split: option.splits sum.splits if_splits)
qed (auto simp: b64_corrupt_def split: option.splits b64_encoding.splits)

lemma b64_decode_no_dot:
  assumes "b64_decode e s = Inr bs"
  shows "CHR ''.'' \<notin> set s"
proof -
  have "\<not> b64_newline (CHR ''.'')"
    by (simp add: b64_newline_def)
  then show ?thesis
    using b64_quanta_no_dot [OF assms [unfolded b64_decode_def]] by simp
qed

lemma length_b64_encode:
  "length (b64_encode e bs) =
     (case e of URLEncoding \<Rightarrow> 4 * ((length bs + 2) div 3)
              | RawURLEncoding \<Rightarrow> (8 * length bs + 5) div 6)"
proof (induction e bs rule: b64_encode.induct)
  case (4 e a b c rest)
  have "(length rest + 2 + 3) div 3 = Suc ((length rest + 2) div 3)"
    by simp
  moreover have "(8 * length rest + 5 + 4 * 6) div 6 = 4 + (8 * length rest + 5) div 6"
    by (rule div_mult_self1) simp
  ultimately show ?case
    using 4 by (cases e) simp_all
qed (simp_all add: pad_with_def split: b64_encoding.splits)

section \<open>Round trip\<close>

lemma b64_quanta_encode: "b64_quanta e (b64_encode e bs) = Inr bs"
proof (induction e bs rule: b64_encode.induct)
  case (1 e)
  then show ?case by simp
next
  case (2 e a)
  obtain v0 v1 where v: "sextets (be_get [a, 0, 0]) = [v0, v1, 0, 0]" "v0 < 64" "v1 < 64"
    using sextetsE [of "be_get [a, 0, 0]"] sextets_two [of a]
    by (metis nth_Cons_0 nth_Cons_Suc numeral_2_eq_2 numeral_3_eq_3)
  then have "be_put 3 (group [v0, v1, 0, 0]) = [a, 0, 0]"
    using group_sextets [OF be_get3_less, of a 0 0] be_put3_get3 [of a 0 0] by simp
  with v show ?case
    by (simp add: pad_with_def numeral_2_eq_2 split: b64_encoding.splits)
next
  case (3 e a b)
  obtain v0 v1 v2 where v: "sextets (be_get [a, b, 0]) = [v0, v1, v2, 0]" "v0 < 64" "v1 < 64" "v2 < 64"
    using sextetsE [of "be_get [a, b, 0]"] sextets_three [of a b]
    by (metis nth_Cons_0 nth_Cons_Suc numeral_3_eq_3)
  then have "be_put 3 (group [v0, v1, v2, 0]) = [a, b, 0]"
    using group_sextets [OF be_get3_less, of a b 0] be_put3_get3 [of a b 0] by simp
  with v show ?case
    by (simp add: pad_with_def numeral_2_eq_2 split: b64_encoding.splits)
next
  case (4 e a b c rest)
  obtain v0 v1 v2 v3 where v: "sextets (be_get [a, b, c]) = [v0, v1, v2, v3]"
      "v0 < 64" "v1 < 64" "v2 < 64" "v3 < 64"
    by (rule sextetsE)
  then have "be_put 3 (group [v0, v1, v2, v3]) = [a, b, c]"
    using group_sextets [OF be_get3_less, of a b c] be_put3_get3 [of a b c] by simp
  with v 4 show ?case by simp
qed

lemma b64_decode_encode [simp]: "b64_decode e (b64_encode e bs) = Inr bs"
  by (simp add: b64_decode_def b64_quanta_encode)

interpretation b64_padded: codec "\<lambda>bs. Inr (b64_encode URLEncoding bs)" "b64_decode URLEncoding" "\<lambda>_. True"
  by unfold_locales auto

interpretation b64_raw: codec "\<lambda>bs. Inr (b64_encode RawURLEncoding bs)" "b64_decode RawURLEncoding" "\<lambda>_. True"
  by unfold_locales auto

end
