(* ===== verification/NameTransform.thy ===== *)
theory NameTransform
  imports Pad16 Base64url "HOL-Library.Sublist"
begin

text \<open>
  \<^verbatim>\<open>gocrypt/nametransform\<close>: encryption and decryption of file names (\<^verbatim>\<open>names.go\<close>),
  hashed long names (\<^verbatim>\<open>longnames.go\<close>) and the directory-IV file (\<^verbatim>\<open>diriv.go\<close>).
  The EME cipher of \<^verbatim>\<open>github.com/rfjakob/eme\<close> and SHA-256 are parameters: the cipher is
  a field of the transformer, as in the Go struct, and SHA-256 is an argument of the hashing
  functions. Logging to \<^verbatim>\<open>tlog\<close> has no effect on the results and is left out.
\<close>

section \<open>State\<close>

text \<open>
  \<^verbatim>\<open>eme.EMECipher\<close>: \<^verbatim>\<open>Encrypt(iv, data)\<close> and \<^verbatim>\<open>Decrypt(iv, data)\<close>, which panic on
  inputs of the wrong size.
\<close>

record eme =
  eme_Encrypt :: "bytes \<Rightarrow> bytes \<Rightarrow> bytes result"
  eme_Decrypt :: "bytes \<Rightarrow> bytes \<Rightarrow> bytes result"

record NameTransform =
  emeCipher :: eme
  longNames :: bool
  B64 :: b64_encoding

definition NameTransform_New :: "eme \<Rightarrow> bool \<Rightarrow> bool \<Rightarrow> NameTransform" where
  "NameTransform_New e long raw64 =
     \<lparr>emeCipher = e, longNames = long,
      B64 = (if raw64 then RawURLEncoding else URLEncoding)\<rparr>"

definition NameMax :: nat where
  "NameMax = 255"

section \<open>Names\<close>

definition DecryptName :: "NameTransform \<Rightarrow> string \<Rightarrow> bytes \<Rightarrow> string result" where
  "DecryptName n cipherName iv =
     (case b64_decode (B64 n) cipherName of
        Inl f \<Rightarrow> Inl f
      | Inr bin \<Rightarrow>
          if length bin = 0 then Inl (Err (Errno EBADMSG))
          else if length bin mod aes_BlockSize \<noteq> 0 then Inl (Err (Errno EBADMSG))
          else case eme_Decrypt (emeCipher n) iv bin of
              Inl f \<Rightarrow> Inl f
            | Inr dec \<Rightarrow>
                (case unPad16 dec of
                   Inl (Err e) \<Rightarrow> Inl (Err (Errno EBADMSG))
                 | Inl f \<Rightarrow> Inl f
                 | Inr plain \<Rightarrow>
                     if 0 \<in> set plain \<or> byte_of_char (CHR ''/'') \<in> set plain
                     then Inl (Err (Errno EBADMSG))
                     else if plain = to_bytes ''.'' \<or> plain = to_bytes ''..''
                     then Inl (Err (Errno EBADMSG))
                     else Inr (of_bytes plain)))"

definition EncryptName :: "NameTransform \<Rightarrow> string \<Rightarrow> bytes \<Rightarrow> string result" where
  "EncryptName n plainName iv =
     (case pad16 (to_bytes plainName) of
        Inl f \<Rightarrow> Inl f
      | Inr bin \<Rightarrow>
          (case eme_Encrypt (emeCipher n) iv bin of
             Inl f \<Rightarrow> Inl f
           | Inr enc \<Rightarrow> Inr (b64_encode (B64 n) enc)))"

definition B64EncodeToString :: "NameTransform \<Rightarrow> bytes \<Rightarrow> string" where
  "B64EncodeToString n src = b64_encode (B64 n) src"

definition B64DecodeString :: "NameTransform \<Rightarrow> string \<Rightarrow> bytes result" where
  "B64DecodeString n s = b64_decode (B64 n) s"

section \<open>Long names\<close>

definition LongNameSuffix :: string where
  "LongNameSuffix = ''.name''"

definition longNamePrefix :: string where
  "longNamePrefix = ''gocryptfs.longname.''"

definition HashLongName :: "(bytes \<Rightarrow> bytes) \<Rightarrow> NameTransform \<Rightarrow> string \<Rightarrow> string" where
  "HashLongName sha256 n name = longNamePrefix @ b64_encode (B64 n) (sha256 (to_bytes name))"

definition LongNameContent :: int where "LongNameContent = 0"
definition LongNameFilename :: int where "LongNameFilename = 1"
definition LongNameNone :: int where "LongNameNone = 2"

definition NameType :: "string \<Rightarrow> int" where
  "NameType cName =
     (if \<not> prefix longNamePrefix cName then LongNameNone
      else if suffix LongNameSuffix cName then LongNameFilename
      else LongNameContent)"

definition IsLongContent :: "string \<Rightarrow> bool" where
  "IsLongContent cName \<longleftrightarrow> NameType cName = LongNameContent"

definition RemoveLongNameSuffix :: "string \<Rightarrow> string result" where
  "RemoveLongNameSuffix cName =
     (if length cName < length LongNameSuffix then Inl (Panic SliceOutOfRange)
      else Inr (take (length cName - length LongNameSuffix) cName))"

definition EncryptAndHashName ::
    "(bytes \<Rightarrow> bytes) \<Rightarrow> NameTransform \<Rightarrow> string \<Rightarrow> bytes \<Rightarrow> string result" where
  "EncryptAndHashName sha256 n name iv =
     (if length name > NameMax then Inl (Err (Errno ENAMETOOLONG))
      else case EncryptName n name iv of
          Inl f \<Rightarrow> Inl f
        | Inr cName \<Rightarrow>
            if longNames n \<and> length cName > NameMax then Inr (HashLongName sha256 n cName)
            else Inr cName)"

text \<open>The operations on directory file descriptors were removed from this port of gocryptfs.\<close>

definition ReadLongNameAt :: "int \<Rightarrow> string \<Rightarrow> string result" where
  "ReadLongNameAt dirfd cName = Inl (Err (Errorf ''not implemented'' []))"

definition DeleteLongNameAt :: "int \<Rightarrow> string \<Rightarrow> unit result" where
  "DeleteLongNameAt dirfd hashName = Inl (Err (Errorf ''not implemented'' []))"

definition WriteLongNameAt :: "NameTransform \<Rightarrow> int \<Rightarrow> string \<Rightarrow> string \<Rightarrow> unit result" where
  "WriteLongNameAt n dirfd hashName plainName = Inl (Err (Errorf ''not implemented'' []))"

definition ReadDirIVAt :: "int \<Rightarrow> bytes result" where
  "ReadDirIVAt dirfd = Inl (Err (Errorf ''not implemented'' []))"

definition WriteDirIVAt :: "int \<Rightarrow> unit result" where
  "WriteDirIVAt dirfd = Inl (Err (Errorf ''not implemented'' []))"

definition DirIVLen :: nat where
  "DirIVLen = 16"

definition DirIVFilename :: string where
  "DirIVFilename = ''gocryptfs.diriv''"

section \<open>What the code relies on of EME\<close>

text \<open>
  The documented contract of the EME package for one IV: data of 1 to 128 AES blocks is
  encrypted to data of the same length, and decryption undoes it.
\<close>

definition eme_block_data :: "bytes \<Rightarrow> bool" where
  "eme_block_data d \<longleftrightarrow> d \<noteq> [] \<and> length d mod 16 = 0 \<and> length d \<le> 2048"

definition eme_ok :: "eme \<Rightarrow> bytes \<Rightarrow> bool" where
  "eme_ok E iv \<longleftrightarrow>
     (\<forall>d. eme_block_data d \<longrightarrow>
        (\<exists>c. eme_Encrypt E iv d = Inr c \<and> length c = length d \<and> eme_Decrypt E iv c = Inr d))"

text \<open>The library panics only on a tweak or on data of the wrong size.\<close>

definition eme_documented :: "eme \<Rightarrow> bool" where
  "eme_documented E \<longleftrightarrow> (\<forall>iv d f. eme_Decrypt E iv d = Inl f \<longrightarrow> length iv \<noteq> 16 \<or> \<not> eme_block_data d)"

lemma b64_quanta_Inl: "b64_quanta e cs = Inl f \<Longrightarrow> \<exists>x. f = Err x"
  by (induction e cs rule: b64_quanta.induct)
    (auto simp: b64_corrupt_def split: b64_encoding.splits option.splits sum.splits if_splits)

lemma DecryptName_panics:
  assumes "panic_of (DecryptName n c iv) = Some f"
  obtains bin where "b64_decode (B64 n) c = Inr bin" "bin \<noteq> []" "length bin mod 16 = 0" "eme_Decrypt (emeCipher n) iv bin = Inl f"
proof -
  have stop: "DecryptName n c iv = Inl f" "\<And>e. f \<noteq> Err e"
    using assms by (auto simp: panic_of_def split: sum.splits fault.splits)
  obtain bin where bin: "b64_decode (B64 n) c = Inr bin"
    using stop b64_quanta_Inl [of "B64 n"]
    by (cases "b64_decode (B64 n) c") (auto simp: DecryptName_def b64_decode_def)
  then have size: "bin \<noteq> []" "length bin mod 16 = 0"
    using stop by (auto simp: DecryptName_def aes_BlockSize_def split: if_splits)
  have "eme_Decrypt (emeCipher n) iv bin = Inl f"
  proof (cases "eme_Decrypt (emeCipher n) iv bin")
    case (Inl g)
    then show ?thesis
      using stop bin size by (simp add: DecryptName_def aes_BlockSize_def)
  next
    case (Inr dec)
    have "\<exists>e. f = Err e"
    proof (cases "unPad16 dec")
      case (Inl g)
      then have "\<exists>e. g = Err e"
        by (auto simp: unPad16_def Let_def dest: pad_check_Inl split: if_splits sum.splits)
      then show ?thesis
        using stop(1) bin size Inr Inl by (auto simp: DecryptName_def aes_BlockSize_def)
    next
      case plain: (Inr plain)
      have "(length bin = 0) = False" "(length bin mod 16 \<noteq> 0) = False"
        using size by simp_all
      note run = stop(1) [unfolded DecryptName_def aes_BlockSize_def bin sum.case this if_False Inr plain]
      have "(if a then Inl (Err x) else if b then Inl (Err y) else Inr z) = Inl f \<Longrightarrow> \<exists>e. f = Err e" for a b x y and z :: string
        by (auto split: if_splits)
      from this [OF run] show ?thesis .
    qed
    then show ?thesis
      using stop(2) by blast
  qed
  from that [OF bin size this] show thesis .
qed

lemma eme_codec: "eme_ok E iv \<Longrightarrow> codec (eme_Encrypt E iv) (eme_Decrypt E iv) eme_block_data"
  by unfold_locales (fastforce simp: eme_ok_def)+

section \<open>Names that a directory may hold\<close>

definition valid_name :: "string \<Rightarrow> bool" where
  "valid_name s \<longleftrightarrow>
     s \<noteq> [] \<and> CHR 0x00 \<notin> set s \<and> CHR ''/'' \<notin> set s \<and> s \<noteq> ''.'' \<and> s \<noteq> ''..''"

lemma byte_in_to_bytes [simp]: "byte_of_char c \<in> set (to_bytes s) \<longleftrightarrow> c \<in> set s"
  using inj_byte_of_char by (auto simp: to_bytes_def inj_image_mem_iff)

lemma zero_in_to_bytes [simp]: "0 \<in> set (to_bytes s) \<longleftrightarrow> CHR 0x00 \<in> set s"
proof -
  have "(0 :: byte) = byte_of_char (CHR 0x00)"
    by (simp add: byte_of_char_def)
  then show ?thesis by (metis byte_in_to_bytes)
qed

section \<open>Encrypting and decrypting names\<close>

text \<open>
  The three stages of \<^verbatim>\<open>EncryptName\<close> (padding, EME, base64) are codecs, and so is their
  chain; \<open>name_stages\<close> holds the conditions under which they fit together.
\<close>

lemma codec_restrict: "codec e d w \<Longrightarrow> (\<And>x. w' x \<Longrightarrow> w x) \<Longrightarrow> codec e d w'"
  by (simp add: codec_def)

definition short_bytes :: "bytes \<Rightarrow> bool" where
  "short_bytes bs \<longleftrightarrow> bs \<noteq> [] \<and> length bs \<le> 2032"

lemma pad16_block_data: "short_bytes bs \<Longrightarrow> pad16 bs = Inr p \<Longrightarrow> eme_block_data p"
  using pad16_length [of bs p] by (auto simp: short_bytes_def eme_block_data_def)

lemma name_stages:
  assumes "eme_ok E iv"
  shows "codec_chain pad16 unPad16 short_bytes (eme_Encrypt E iv) (eme_Decrypt E iv) eme_block_data"
proof (intro codec_chain.intro codec_chain_axioms.intro)
  show "codec pad16 unPad16 short_bytes"
    by (rule codec_restrict [OF pad16.codec_axioms]) (simp add: short_bytes_def)
  show "codec (eme_Encrypt E iv) (eme_Decrypt E iv) eme_block_data"
    using assms by (rule eme_codec)
qed (rule pad16_block_data)

lemma EncryptName_stages:
  "EncryptName n s iv =
     (case enc_chain pad16 (eme_Encrypt (emeCipher n) iv) (to_bytes s) of
        Inl f \<Rightarrow> Inl f
      | Inr enc \<Rightarrow> Inr (b64_encode (B64 n) enc))"
  by (simp add: EncryptName_def enc_chain_def split: sum.splits)

lemma EncryptName_block_data:
  assumes "eme_ok (emeCipher n) iv" "short_bytes (to_bytes s)"
  obtains enc where "EncryptName n s iv = Inr (b64_encode (B64 n) enc)"
    "enc_chain (eme_Decrypt (emeCipher n) iv) unPad16 enc = Inr (to_bytes s)"
    "eme_block_data enc" "length enc \<le> length s + 16"
proof -
  obtain p where p: "pad16 (to_bytes s) = Inr p"
    using assms(2) by (auto simp: short_bytes_def pad16_ok)
  have bd: "eme_block_data p" "length p \<le> length s + 16"
    using p pad16_block_data [OF assms(2)] pad16_length(3) [of "to_bytes s" p] by auto
  then obtain enc where enc: "eme_Encrypt (emeCipher n) iv p = Inr enc" "length enc = length p"
    using assms(1) unfolding eme_ok_def by blast
  have "enc_chain (eme_Decrypt (emeCipher n) iv) unPad16 enc = Inr (to_bytes s)"
    using codec.dec_enc [OF codec_chain.axioms(1) [OF name_stages [OF assms(1)]]]
      codec.dec_enc [OF eme_codec [OF assms(1)] bd(1) enc(1)] assms(2) p
    by (simp add: enc_chain_def)
  moreover have "EncryptName n s iv = Inr (b64_encode (B64 n) enc)"
    using p enc by (simp add: EncryptName_def)
  moreover have "eme_block_data enc" "length enc \<le> length s + 16"
    using bd enc by (auto simp: eme_block_data_def)
  ultimately show thesis
    using that by blast
qed

lemma DecryptName_b64_encode:
  assumes "eme_block_data enc"
    and "enc_chain (eme_Decrypt (emeCipher n) iv) unPad16 enc = Inr (to_bytes s)"
    and "valid_name s"
  shows "DecryptName n (b64_encode (B64 n) enc) iv = Inr s"
  using assms
  by (auto simp: DecryptName_def eme_block_data_def enc_chain_def aes_BlockSize_def valid_name_def
      split: sum.splits)

text \<open>
  C14: encrypting a file name and decrypting the result with the same directory IV gives the
  name back, for every name a directory can hold (not empty, no NUL, no slash, not a dot name)
  that fits into the EME cipher, in both base64 variants.
\<close>

theorem EncryptName_DecryptName:
  assumes "eme_ok (emeCipher n) iv" and "valid_name s" and "length s \<le> 2032"
  shows "\<exists>c. EncryptName n s iv = Inr c \<and> DecryptName n c iv = Inr s"
proof -
  have "short_bytes (to_bytes s)"
    using assms by (simp add: short_bytes_def valid_name_def)
  then obtain enc where "EncryptName n s iv = Inr (b64_encode (B64 n) enc)"
    "enc_chain (eme_Decrypt (emeCipher n) iv) unPad16 enc = Inr (to_bytes s)" "eme_block_data enc"
    using EncryptName_block_data [OF assms(1)] by metis
  then show ?thesis
    using DecryptName_b64_encode assms(2) by blast
qed

definition demo_eme :: eme where
  "demo_eme = \<lparr>eme_Encrypt = (\<lambda>iv d. Inr (rev d)), eme_Decrypt = (\<lambda>iv d. Inr (rev d))\<rparr>"

lemma demo_eme_ok [simp]: "eme_ok demo_eme iv"
  by (simp add: eme_ok_def demo_eme_def)

theorem EncryptName_DecryptName_witness:
  "\<exists>c. EncryptName (NameTransform_New demo_eme True True) ''notes.txt'' (replicate 16 7) = Inr c \<and>
       DecryptName (NameTransform_New demo_eme True True) c (replicate 16 7) = Inr ''notes.txt''"
  by (rule EncryptName_DecryptName) (simp_all add: NameTransform_New_def valid_name_def)

lemma DecryptName_plain:
  assumes "DecryptName n c iv = Inr s"
  shows "valid_name s"
proof -
  from assms obtain dec plain where u: "unPad16 dec = Inr plain" and s: "s = of_bytes plain"
    and no: "0 \<notin> set plain" "byte_of_char (CHR ''/'') \<notin> set plain"
      "plain \<noteq> to_bytes ''.''" "plain \<noteq> to_bytes ''..''"
    by (auto simp: DecryptName_def split: sum.splits fault.splits if_splits)
  have "plain = to_bytes s"
    by (simp add: s)
  moreover have "plain \<noteq> []"
    using u pad16.dec_sound by blast
  ultimately show ?thesis
    using no by (auto simp: valid_name_def)
qed

text \<open>
  C27: whatever the server stores, a name that \<^verbatim>\<open>DecryptName\<close> returns is one a directory
  can hold: not empty, without NUL and slash, and not \<^verbatim>\<open>.\<close> or \<^verbatim>\<open>..\<close>. So a
  corrupted or hostile listing cannot make a path component that climbs or descends.
\<close>

theorem DecryptName_valid:
  assumes "DecryptName n c iv = Inr s"
  shows "valid_name s"
  using assms by (rule DecryptName_plain)

theorem DecryptName_valid_witness:
  "DecryptName (NameTransform_New demo_eme True True) ''Dw8PDw8PDw8PDw8PDw8PYQ'' [] = Inr ''a'' \<and>
   valid_name ''a''"
proof -
  have "b64_decode RawURLEncoding ''Dw8PDw8PDw8PDw8PDw8PYQ'' =
      Inr [15, 15, 15, 15, 15, 15, 15, 15, 15, 15, 15, 15, 15, 15, 15, 97]"
    by (simp add: eval_simps)
  moreover have "unPad16 [97, 15, 15, 15, 15, 15, 15, 15, 15, 15, 15, 15, 15, 15, 15, 15] = Inr [97]"
    by (rule pad16.dec_enc) (simp_all add: pad16_ok eval_simps)
  ultimately have
    "DecryptName (NameTransform_New demo_eme True True) ''Dw8PDw8PDw8PDw8PDw8PYQ'' [] = Inr ''a''"
    by (simp add: DecryptName_def NameTransform_New_def demo_eme_def aes_BlockSize_def eval_simps)
  then show ?thesis
    using DecryptName_valid by blast
qed

section \<open>Reserved names\<close>

lemma EncryptName_no_dot:
  assumes "EncryptName n s iv = Inr c"
  shows "CHR ''.'' \<notin> set c" "CHR ''/'' \<notin> set c"
  using assms b64_encode_no_special by (fastforce simp: EncryptName_def split: sum.splits)+

lemma DecryptName_no_dot: "DecryptName n c iv = Inr s \<Longrightarrow> CHR ''.'' \<notin> set c"
  using b64_decode_no_dot by (auto simp: DecryptName_def split: sum.splits)

lemma dot_in_prefix: "prefix longNamePrefix c \<Longrightarrow> CHR ''.'' \<in> set c"
  by (auto simp: prefix_def longNamePrefix_def)

text \<open>
  C31: an encrypted name never clashes with a name gocryptfs uses for itself: it holds no dot
  and no slash, so it is neither \<^verbatim>\<open>gocryptfs.conf\<close> nor \<^verbatim>\<open>gocryptfs.diriv\<close>, and
  \<^verbatim>\<open>NameType\<close> never takes it for a long-name file.
\<close>

theorem EncryptName_not_reserved:
  assumes "EncryptName n s iv = Inr c"
  shows "c \<noteq> ''gocryptfs.conf'' \<and> c \<noteq> DirIVFilename \<and> CHR ''/'' \<notin> set c \<and>
    NameType c = LongNameNone \<and> \<not> IsLongContent c"
  using EncryptName_no_dot [OF assms] dot_in_prefix [of c]
  by (auto simp: DirIVFilename_def NameType_def IsLongContent_def LongNameNone_def LongNameContent_def)

theorem EncryptName_not_reserved_witness:
  "\<exists>c. EncryptName (NameTransform_New demo_eme True True) ''a'' [] = Inr c \<and> NameType c = LongNameNone"
proof -
  have "EncryptName (NameTransform_New demo_eme True True) ''a'' [] =
      Inr (b64_encode RawURLEncoding (replicate 15 15 @ [97]))"
    by (simp add: EncryptName_def NameTransform_New_def demo_eme_def pad16_ok eval_simps)
  then show ?thesis
    using EncryptName_not_reserved by blast
qed

lemma suffix_append_length:
  "suffix xs (ys @ zs) \<Longrightarrow> length xs \<le> length zs \<Longrightarrow> suffix xs zs"
  by (auto simp: suffix_def append_eq_append_conv2)

lemma HashLongName_type:
  assumes "\<And>x. length (sha256 x) = 32"
  shows "NameType (HashLongName sha256 n name) = LongNameContent"
    "length (HashLongName sha256 n name) \<le> 63"
proof -
  define h where "h = b64_encode (B64 n) (sha256 (to_bytes name))"
  have l: "43 \<le> length h" "length h \<le> 44"
    using assms by (auto simp: h_def length_b64_encode split: b64_encoding.splits)
  have "\<not> suffix LongNameSuffix h"
    using b64_encode_no_special(1) [of "CHR ''.''" "B64 n" "sha256 (to_bytes name)"]
    by (auto simp: h_def LongNameSuffix_def suffix_def)
  then have "\<not> suffix LongNameSuffix (longNamePrefix @ h)"
    using suffix_append_length [of LongNameSuffix longNamePrefix h] l
    by (auto simp: LongNameSuffix_def)
  then show "NameType (HashLongName sha256 n name) = LongNameContent"
    by (simp add: NameType_def HashLongName_def h_def)
  show "length (HashLongName sha256 n name) \<le> 63"
    using l by (simp add: HashLongName_def h_def longNamePrefix_def)
qed

text \<open>
  C32: with the long-name feature on, every name of at most 255 bytes is stored under a name of
  at most 255 bytes, and the stored name is either the encrypted name itself (type
  \<^verbatim>\<open>LongNameNone\<close>) or a hashed one that \<^verbatim>\<open>NameType\<close> recognises as long-name content.
  Longer names are refused with \<^verbatim>\<open>ENAMETOOLONG\<close>.
\<close>

theorem EncryptAndHashName_fits:
  assumes "eme_ok (emeCipher n) iv" and "\<And>x. length (sha256 x) = 32"
    and "longNames n" and "s \<noteq> []"
  shows "if length s > NameMax then EncryptAndHashName sha256 n s iv = Inl (Err (Errno ENAMETOOLONG))
    else \<exists>c. EncryptAndHashName sha256 n s iv = Inr c \<and> length c \<le> NameMax \<and>
      (EncryptName n s iv = Inr c \<and> NameType c = LongNameNone \<or> NameType c = LongNameContent)"
proof (cases "length s > NameMax")
  case False
  then have "short_bytes (to_bytes s)"
    using assms(4) by (simp add: short_bytes_def NameMax_def)
  then obtain c where c: "EncryptName n s iv = Inr c"
    using EncryptName_block_data [OF assms(1)] by metis
  then have "NameType c = LongNameNone"
    using EncryptName_no_dot(1) [OF c] dot_in_prefix [of c] by (auto simp: NameType_def)
  with c False show ?thesis
    using assms(3) HashLongName_type [of sha256 n c] assms(2)
    by (auto simp: EncryptAndHashName_def NameMax_def)
qed (simp add: EncryptAndHashName_def)

theorem EncryptAndHashName_fits_witness:
  "\<exists>c. EncryptAndHashName (\<lambda>_. replicate 32 1) (NameTransform_New demo_eme True False)
        (replicate 200 (CHR ''x'')) (replicate 16 7) = Inr c \<and> length c \<le> 255"
proof -
  let ?n = "NameTransform_New demo_eme True False"
  have "eme_ok (emeCipher ?n) (replicate 16 7)" "longNames ?n"
    by (simp_all add: NameTransform_New_def)
  from EncryptAndHashName_fits [OF this(1) _ this(2),
      of "\<lambda>_. replicate 32 1" "replicate 200 (CHR ''x'')"]
  show ?thesis
    by (auto simp: NameMax_def)
qed

text \<open>Removing the suffix of a long-name file gives the name of its content file.\<close>

lemma RemoveLongNameSuffix_append [simp]: "RemoveLongNameSuffix (c @ LongNameSuffix) = Inr c"
  by (simp add: RemoveLongNameSuffix_def)

lemma NameType_filename:
  "prefix longNamePrefix c \<Longrightarrow> NameType (c @ LongNameSuffix) = LongNameFilename"
  by (simp add: NameType_def suffix_def)

end
