(* ===== verification/Exitcodes.thy ===== *)
theory Exitcodes
  imports Gc_Prelude
begin

text \<open>
  \<^verbatim>\<open>gocrypt/exitcodes\<close>: the exit codes of gocryptfs, the error type that carries one, and
  \<^verbatim>\<open>Exit\<close>, which ends the process with it.
\<close>

datatype exitcode = ExitUsage | ExitCipherDir | ExitInit | ExitLoadConf | ExitReadPassword |
  ExitMountPoint | ExitOther | ExitPasswordIncorrect | ExitScryptParams | ExitMasterKey |
  ExitSigInt | ExitPanicLogNotEmpty | ExitForkChild | ExitOpenSSL | ExitFuseNewServer |
  ExitCtlSock | ExitPasswordEmpty | ExitOpenConf | ExitWriteConf | ExitProfiler | ExitFsckErrors
  | ExitDeprecatedFS | ExitTrezorError | ExitExcludeError | ExitDevNull

fun exit_code :: "exitcode \<Rightarrow> int" where
  "exit_code ExitUsage = 1"
| "exit_code ExitCipherDir = 6"
| "exit_code ExitInit = 7"
| "exit_code ExitLoadConf = 8"
| "exit_code ExitReadPassword = 9"
| "exit_code ExitMountPoint = 10"
| "exit_code ExitOther = 11"
| "exit_code ExitPasswordIncorrect = 12"
| "exit_code ExitScryptParams = 13"
| "exit_code ExitMasterKey = 14"
| "exit_code ExitSigInt = 15"
| "exit_code ExitPanicLogNotEmpty = 16"
| "exit_code ExitForkChild = 17"
| "exit_code ExitOpenSSL = 18"
| "exit_code ExitFuseNewServer = 19"
| "exit_code ExitCtlSock = 20"
| "exit_code ExitPasswordEmpty = 22"
| "exit_code ExitOpenConf = 23"
| "exit_code ExitWriteConf = 24"
| "exit_code ExitProfiler = 25"
| "exit_code ExitFsckErrors = 26"
| "exit_code ExitDeprecatedFS = 27"
| "exit_code ExitTrezorError = 28"
| "exit_code ExitExcludeError = 29"
| "exit_code ExitDevNull = 30"

text \<open>No two conditions share a code, and none uses success or one of the reserved codes.\<close>

lemma exit_code_inject: "exit_code a = exit_code b \<longleftrightarrow> a = b"
  by (cases a; cases b; simp)

lemma exit_code_not_reserved: "exit_code a \<notin> {0, 2, 3, 21}"
  by (cases a; simp)

definition NewErr :: "string \<Rightarrow> int \<Rightarrow> goerr" where
  "NewErr msg code = ExitErr msg code"

definition Exitcodes_Exit :: "goerr \<Rightarrow> 'a result" where
  "Exitcodes_Exit e = (case e of ExitErr _ code \<Rightarrow> Inl (OsExit code) | _ \<Rightarrow> Inl (OsExit (exit_code ExitOther)))"

lemma Exitcodes_Exit_NewErr [simp]: "Exitcodes_Exit (NewErr msg code) = Inl (OsExit code)"
  by (simp add: Exitcodes_Exit_def NewErr_def)

end
