(* ===== verification/CryptoCore.thy ===== *)
theory CryptoCore
  imports NameTransform Exitcodes
begin

text \<open>
  \<^verbatim>\<open>gocrypt/cryptocore\<close>, \<^verbatim>\<open>gocrypt/siv_aead\<close> and \<^verbatim>\<open>gocrypt/stupidgcm\<close>: the
  construction of the ciphers from a key, the AES-SIV wrapper, the stub of the OpenSSL
  backend, and the source of nonces with its prefetch buffer. The algorithms themselves
  (AES-GCM, AES-SIV, EME, HKDF, SHA-512, scrypt) are not in the repository and are the
  fields of \<open>prims\<close>, an argument of every function that reaches one of them.
\<close>

section \<open>Primitives\<close>

text \<open>
  \<^verbatim>\<open>cipher.AEAD\<close> as the Go library makes it for AES-GCM: sealing and opening take the
  nonce, the text and the associated data, and yield the bytes that get appended to the
  destination slice.
\<close>

record gcm =
  gcm_Seal :: "bytes \<Rightarrow> bytes \<Rightarrow> bytes \<Rightarrow> bytes result"
  gcm_Open :: "bytes \<Rightarrow> bytes \<Rightarrow> bytes \<Rightarrow> bytes result"

record prims =
  aes_gcm :: "bytes \<Rightarrow> nat \<Rightarrow> gcm result"
  aes_eme :: "bytes \<Rightarrow> eme result"
  siv_Encrypt :: "bytes \<Rightarrow> bytes \<Rightarrow> bytes list \<Rightarrow> bytes result"
  siv_Decrypt :: "bytes \<Rightarrow> bytes \<Rightarrow> bytes list \<Rightarrow> bytes result"
  hkdf_read :: "bytes \<Rightarrow> string \<Rightarrow> nat \<Rightarrow> bytes result"
  sha512_Sum :: "bytes \<Rightarrow> bytes"
  scrypt_Key :: "bytes \<Rightarrow> bytes \<Rightarrow> int \<Rightarrow> int \<Rightarrow> int \<Rightarrow> int \<Rightarrow> bytes result"

definition KeyLen :: nat where "KeyLen = 32"
definition AuthTagLen :: nat where "AuthTagLen = 16"

section \<open>AES-SIV wrapper\<close>

record sivAead =
  siv_key :: bytes

definition siv_KeyLen :: nat where "siv_KeyLen = 64"

definition siv_new2 :: "bytes \<Rightarrow> sivAead" where
  "siv_new2 keyIn = \<lparr>siv_key = keyIn\<rparr>"

definition siv_New :: "bytes \<Rightarrow> sivAead result" where
  "siv_New key =
     (if length key \<noteq> siv_KeyLen then Inl (Panic (LogPanic ''Key must be %d byte long (you passed %d)''))
      else Inr (siv_new2 key))"

definition siv_NonceSize :: "sivAead \<Rightarrow> int" where "siv_NonceSize s = 16"
definition siv_Overhead :: "sivAead \<Rightarrow> int" where "siv_Overhead s = 16"

definition siv_Seal :: "prims \<Rightarrow> sivAead \<Rightarrow> bytes \<Rightarrow> bytes \<Rightarrow> bytes \<Rightarrow> bytes result" where
  "siv_Seal P s nonce plaintext authData =
     (if length nonce \<noteq> 16 then Inl (Panic (LogPanic ''nonce must be 16 bytes long''))
      else if length (siv_key s) = 0 then Inl (Panic (LogPanic ''Key has been wiped?''))
      else case siv_Encrypt P (siv_key s) plaintext [authData, nonce] of
          Inl (Err e) \<Rightarrow> Inl (Panic (LogPanic ''siv.Encrypt''))
        | Inl f \<Rightarrow> Inl f
        | Inr out \<Rightarrow> Inr out)"

definition siv_Open :: "prims \<Rightarrow> sivAead \<Rightarrow> bytes \<Rightarrow> bytes \<Rightarrow> bytes \<Rightarrow> bytes result" where
  "siv_Open P s nonce ciphertext authData =
     (if length nonce \<noteq> 16 then Inl (Panic (LogPanic ''nonce must be 16 bytes long''))
      else if length (siv_key s) = 0 then Inl (Panic (LogPanic ''Key has been wiped?''))
      else siv_Decrypt P (siv_key s) ciphertext [authData, nonce])"

definition siv_Wipe :: "sivAead \<Rightarrow> sivAead" where
  "siv_Wipe s = s\<lparr>siv_key := []\<rparr>"

section \<open>OpenSSL stub\<close>

text \<open>This build has no OpenSSL: every operation of \<^verbatim>\<open>StupidGCM\<close> ends the process.\<close>

definition stupidgcm_errExit :: "'a result" where
  "stupidgcm_errExit = Inl (OsExit (exit_code ExitOpenSSL))"

definition stupidgcm_New :: "bytes \<Rightarrow> bool \<Rightarrow> unit result" where
  "stupidgcm_New key forceDecode = stupidgcm_errExit"

definition stupidgcm_NonceSize :: "int result" where
  "stupidgcm_NonceSize = stupidgcm_errExit"

definition stupidgcm_Overhead :: "int result" where
  "stupidgcm_Overhead = stupidgcm_errExit"

definition stupidgcm_Seal :: "bytes \<Rightarrow> bytes \<Rightarrow> bytes \<Rightarrow> bytes result" where
  "stupidgcm_Seal nonce plaintext aData = stupidgcm_errExit"

definition stupidgcm_Open :: "bytes \<Rightarrow> bytes \<Rightarrow> bytes \<Rightarrow> bytes result" where
  "stupidgcm_Open nonce ciphertext aData = stupidgcm_errExit"

definition stupidgcm_Wipe :: "'a result" where
  "stupidgcm_Wipe = stupidgcm_errExit"

section \<open>The AEAD interface value\<close>

datatype AEAD = NilAEAD | GoGCM gcm | SivAead sivAead | StupidGCM

definition AEAD_Seal :: "prims \<Rightarrow> AEAD \<Rightarrow> bytes \<Rightarrow> bytes \<Rightarrow> bytes \<Rightarrow> bytes result" where
  "AEAD_Seal P a nonce plaintext aData =
     (case a of
        NilAEAD \<Rightarrow> Inl (Panic NilDeref)
      | GoGCM g \<Rightarrow> gcm_Seal g nonce plaintext aData
      | SivAead s \<Rightarrow> siv_Seal P s nonce plaintext aData
      | StupidGCM \<Rightarrow> stupidgcm_Seal nonce plaintext aData)"

definition AEAD_Open :: "prims \<Rightarrow> AEAD \<Rightarrow> bytes \<Rightarrow> bytes \<Rightarrow> bytes \<Rightarrow> bytes result" where
  "AEAD_Open P a nonce ciphertext aData =
     (case a of
        NilAEAD \<Rightarrow> Inl (Panic NilDeref)
      | GoGCM g \<Rightarrow> gcm_Open g nonce ciphertext aData
      | SivAead s \<Rightarrow> siv_Open P s nonce ciphertext aData
      | StupidGCM \<Rightarrow> stupidgcm_Open nonce ciphertext aData)"

lemma AEAD_GoGCM: "AEAD_Seal P (GoGCM g) = gcm_Seal g" "AEAD_Open P (GoGCM g) = gcm_Open g"
  by (simp_all add: AEAD_Seal_def AEAD_Open_def fun_eq_iff)

section \<open>Key derivation\<close>

definition hkdfInfoEMENames :: string where
  "hkdfInfoEMENames = ''EME filename encryption''"
definition hkdfInfoGCMContent :: string where
  "hkdfInfoGCMContent = ''AES-GCM file content encryption''"
definition hkdfInfoSIVContent :: string where
  "hkdfInfoSIVContent = ''AES-SIV file content encryption''"

definition hkdfDerive :: "prims \<Rightarrow> bytes \<Rightarrow> string \<Rightarrow> nat \<Rightarrow> bytes result" where
  "hkdfDerive P masterkey info outLen =
     (case hkdf_read P masterkey info outLen of
        Inl _ \<Rightarrow> Inl (Panic (LogPanic ''hkdfDerive: hkdf read failed''))
      | Inr out \<Rightarrow>
          if length out \<noteq> outLen then Inl (Panic (LogPanic ''hkdfDerive: hkdf read failed''))
          else Inr out)"

section \<open>CryptoCore\<close>

datatype AEADTypeEnum = BackendOpenSSL | BackendGoGCM | BackendAESSIV | BackendUnknown int

record nonceGenerator =
  nonceLen :: nat

record CryptoCore =
  EMECipher :: "eme option"
  AEADCipher :: AEAD
  AEADBackend :: AEADTypeEnum
  IVGenerator :: nonceGenerator
  IVLen :: nat

text \<open>A library error while a cipher is set up ends in \<^verbatim>\<open>log.Panic(err)\<close>.\<close>

definition panic_on_err :: "'a result \<Rightarrow> 'a result" where
  "panic_on_err r = (case r of Inl (Err e) \<Rightarrow> Inl (Panic (LogPanic ''cipher setup'')) | _ \<Rightarrow> r)"

definition New_eme :: "prims \<Rightarrow> bytes \<Rightarrow> bool \<Rightarrow> eme result" where
  "New_eme P key useHKDF =
     (if useHKDF
      then case hkdfDerive P key hkdfInfoEMENames KeyLen of
          Inl f \<Rightarrow> Inl f
        | Inr emeKey \<Rightarrow> panic_on_err (aes_eme P emeKey)
      else panic_on_err (aes_eme P key))"

definition New_gcm_key :: "prims \<Rightarrow> bytes \<Rightarrow> bool \<Rightarrow> bytes result" where
  "New_gcm_key P key useHKDF =
     (if useHKDF then hkdfDerive P key hkdfInfoGCMContent KeyLen else Inr key)"

definition New_siv_key :: "prims \<Rightarrow> bytes \<Rightarrow> bool \<Rightarrow> bytes result" where
  "New_siv_key P key useHKDF =
     (if useHKDF then hkdfDerive P key hkdfInfoSIVContent siv_KeyLen else Inr (sha512_Sum P key))"

definition New_aead :: "prims \<Rightarrow> bytes \<Rightarrow> AEADTypeEnum \<Rightarrow> nat \<Rightarrow> bool \<Rightarrow> bool \<Rightarrow> AEAD result" where
  "New_aead P key aeadType ivLen useHKDF fDecode =
     (case aeadType of
        BackendOpenSSL \<Rightarrow>
          (case New_gcm_key P key useHKDF of
             Inl f \<Rightarrow> Inl f
           | Inr gcmKey \<Rightarrow>
               if ivLen \<noteq> 16 then Inl (Panic (LogPanic ''stupidgcm only supports 128-bit IVs''))
               else case stupidgcm_New gcmKey fDecode of Inl f \<Rightarrow> Inl f | Inr _ \<Rightarrow> Inr StupidGCM)
      | BackendGoGCM \<Rightarrow>
          (case New_gcm_key P key useHKDF of
             Inl f \<Rightarrow> Inl f
           | Inr gcmKey \<Rightarrow>
               (case panic_on_err (aes_gcm P gcmKey ivLen) of
                  Inl f \<Rightarrow> Inl f
                | Inr g \<Rightarrow> Inr (GoGCM g)))
      | BackendAESSIV \<Rightarrow>
          (if ivLen \<noteq> 16 then Inl (Panic (LogPanic ''AES-SIV must use 16-byte nonces''))
          else case New_siv_key P key useHKDF of
              Inl f \<Rightarrow> Inl f
            | Inr key64 \<Rightarrow>
                (case siv_New key64 of Inl f \<Rightarrow> Inl f | Inr s \<Rightarrow> Inr (SivAead s)))
      | BackendUnknown _ \<Rightarrow> Inl (Panic (LogPanic ''unknown backend cipher'')))"

definition CryptoCore_New ::
    "prims \<Rightarrow> bytes \<Rightarrow> AEADTypeEnum \<Rightarrow> nat \<Rightarrow> bool \<Rightarrow> bool \<Rightarrow> CryptoCore result" where
  "CryptoCore_New P key aeadType IVBitLen useHKDF fDecode =
     (if length key \<noteq> KeyLen then Inl (Panic (LogPanic ''Unsupported key length %d''))
      else
        let ivLen = IVBitLen div 8 in
        case New_eme P key useHKDF of
          Inl f \<Rightarrow> Inl f
        | Inr e \<Rightarrow>
            (case New_aead P key aeadType ivLen useHKDF fDecode of
               Inl f \<Rightarrow> Inl f
             | Inr aeadCipher \<Rightarrow>
                 Inr \<lparr>EMECipher = Some e, AEADCipher = aeadCipher, AEADBackend = aeadType,
                      IVGenerator = \<lparr>nonceLen = ivLen\<rparr>, IVLen = ivLen\<rparr>))"

text \<open>
  \<^verbatim>\<open>Wipe\<close> clears the key inside the cipher object and drops both references. The result
  is the new core and the state the old cipher object is left in.
\<close>

definition CryptoCore_Wipe :: "CryptoCore \<Rightarrow> (CryptoCore \<times> AEAD) result" where
  "CryptoCore_Wipe c =
     (let nil = c\<lparr>AEADCipher := NilAEAD, EMECipher := None\<rparr> in
      if AEADBackend c = BackendOpenSSL \<or> AEADBackend c = BackendAESSIV
      then case AEADCipher c of
          SivAead s \<Rightarrow> Inr (nil, SivAead (siv_Wipe s))
        | StupidGCM \<Rightarrow> stupidgcm_Wipe
        | _ \<Rightarrow> Inl (Panic (LibPanic ''interface conversion''))
      else Inr (nil, AEADCipher c))"

section \<open>Random bytes and nonces\<close>

text \<open>
  \<^verbatim>\<open>randPrefetcher\<close>: a buffer of random bytes and the channel that the refill worker
  feeds with fresh chunks. \<open>refill i\<close> is the chunk the worker sends as its \<open>i\<close>-th, and
  \<open>refills\<close> counts the chunks received so far.
\<close>

definition prefetchN :: nat where "prefetchN = 512"

record randPrefetcherT =
  pf_buf :: bytes
  refill :: "nat \<Rightarrow> bytes"
  refills :: nat

definition RandBytes :: "(nat \<Rightarrow> bytes result) \<Rightarrow> nat \<Rightarrow> bytes result" where
  "RandBytes rand_Read n =
     (case rand_Read n of
        Inl (Err e) \<Rightarrow> Inl (Panic (LogPanic ''Failed to read random bytes: ''))
      | r \<Rightarrow> r)"

definition RandUint64 :: "(nat \<Rightarrow> bytes result) \<Rightarrow> u64 result" where
  "RandUint64 rand_Read =
     (case RandBytes rand_Read 8 of Inl f \<Rightarrow> Inl f | Inr b \<Rightarrow> Inr (get_u64 b))"

text \<open>\<^verbatim>\<open>bytes.Buffer.Read\<close> into a slice of length \<open>want\<close>: what was read, the rest, the error.\<close>

definition buffer_Read :: "bytes \<Rightarrow> nat \<Rightarrow> bytes \<times> bytes \<times> goerr option" where
  "buffer_Read b want =
     (if b = [] then ([], [], if want = 0 then None else Some IoEOF)
      else (take want b, drop want b, None))"

definition prefetch_read :: "randPrefetcherT \<Rightarrow> nat \<Rightarrow> (bytes \<times> randPrefetcherT) result" where
  "prefetch_read r want =
     (case buffer_Read (pf_buf r) want of (out, rest, err) \<Rightarrow>
        if length out = want \<and> err = None then Inr (out, r\<lparr>pf_buf := rest\<rparr>)
        else
          let fresh = refill r (refills r) in
          if length fresh \<noteq> prefetchN
          then Inl (Panic (LogPanic ''randPrefetcher: refill: got %d bytes instead of %d''))
          else case buffer_Read fresh want of (out, rest, err) \<Rightarrow>
            if length out \<noteq> want \<or> err \<noteq> None
            then Inl (Panic (LogPanic ''randPrefetcher could not satisfy read: have=%d want=%d err=%v''))
            else Inr (out, r\<lparr>pf_buf := rest, refills := Suc (refills r)\<rparr>))"

definition nonceGenerator_Get ::
    "nonceGenerator \<Rightarrow> randPrefetcherT \<Rightarrow> (bytes \<times> randPrefetcherT) result" where
  "nonceGenerator_Get n r = prefetch_read r (nonceLen n)"

text \<open>A sequence of nonce requests, as the program makes them one after the other.\<close>

fun prefetch_reads :: "randPrefetcherT \<Rightarrow> nat list \<Rightarrow> (bytes list \<times> randPrefetcherT) result" where
  "prefetch_reads r [] = Inr ([], r)"
| "prefetch_reads r (w # ws) =
     (case prefetch_read r w of
        Inl f \<Rightarrow> Inl f
      | Inr (out, r') \<Rightarrow>
          (case prefetch_reads r' ws of
             Inl f \<Rightarrow> Inl f
           | Inr (outs, r'') \<Rightarrow> Inr (out # outs, r'')))"

definition good_supply :: "randPrefetcherT \<Rightarrow> bool" where
  "good_supply r \<longleftrightarrow> (\<forall>i. length (refill r i) = prefetchN)"

text \<open>
  The worker, in its \<open>i\<close>-th round, and the prefetcher when the program starts. The random source is
  documented to fill the slice or to fail; if it never fails the supply is good.
\<close>

definition refillWorker :: "(nat \<Rightarrow> nat \<Rightarrow> bytes result) \<Rightarrow> nat \<Rightarrow> bytes result" where
  "refillWorker rand_Read i = RandBytes (rand_Read i) prefetchN"

definition randPrefetcher_init :: "(nat \<Rightarrow> bytes) \<Rightarrow> randPrefetcherT" where
  "randPrefetcher_init chunks = \<lparr>pf_buf = [], refill = chunks, refills = 0\<rparr>"

lemma init_good_supply:
  assumes "\<And>i n b. rand_Read i n = Inr b \<Longrightarrow> length b = n" "\<And>i. refillWorker rand_Read i = Inr (chunks i)"
  shows "good_supply (randPrefetcher_init chunks)"
proof -
  have "length (chunks i) = prefetchN" for i
    using assms(2) [of i] assms(1) by (auto simp: refillWorker_def RandBytes_def split: sum.splits fault.splits)
  then show ?thesis
    by (simp add: good_supply_def randPrefetcher_init_def)
qed

definition chunks :: "randPrefetcherT \<Rightarrow> nat \<Rightarrow> nat \<Rightarrow> bytes" where
  "chunks r i j = concat (map (refill r) [i..<j])"

lemma chunks_append: "i \<le> j \<Longrightarrow> j \<le> k \<Longrightarrow> chunks r i j @ chunks r j k = chunks r i k"
  using upt_add_eq_append [of i j "k - j"] by (simp add: chunks_def flip: concat_append map_append)

lemma buffer_Read_enough: "want \<le> length b \<Longrightarrow> buffer_Read b want = (take want b, drop want b, None)"
  by (auto simp: buffer_Read_def)

lemma buffer_Read_short:
  "length b < want \<Longrightarrow> buffer_Read b want = (out, rest, err) \<Longrightarrow> \<not> (length out = want \<and> err = None)"
  by (auto simp: buffer_Read_def split: if_splits)

lemma prefetch_read_cases:
  assumes "good_supply r" "want \<le> prefetchN"
  shows "prefetch_read r want =
    (if want \<le> length (pf_buf r) then Inr (take want (pf_buf r), r\<lparr>pf_buf := drop want (pf_buf r)\<rparr>)
     else let fresh = refill r (refills r) in
       Inr (take want fresh, r\<lparr>pf_buf := drop want fresh, refills := Suc (refills r)\<rparr>))"
proof (cases "want \<le> length (pf_buf r)")
  case True
  then show ?thesis
    by (simp add: prefetch_read_def buffer_Read_enough)
next
  case False
  have "length (refill r (refills r)) = prefetchN"
    using assms by (simp add: good_supply_def)
  with False assms show ?thesis
    using buffer_Read_short [of "pf_buf r" want]
    by (auto simp: prefetch_read_def buffer_Read_enough Let_def split: prod.splits)
qed

lemma prefetch_read_step:
  assumes "good_supply r" "want \<le> prefetchN"
  obtains out r' where "prefetch_read r want = Inr (out, r')" "length out = want"
    "good_supply r'" "refill r' = refill r" "refills r \<le> refills r'"
    "subseq (out @ pf_buf r') (pf_buf r @ chunks r (refills r) (refills r'))"
proof (cases "want \<le> length (pf_buf r)")
  case True
  with assms that show thesis
    by (simp add: prefetch_read_cases good_supply_def chunks_def)
next
  case False
  have "length (refill r (refills r)) = prefetchN"
    using assms by (simp add: good_supply_def)
  with assms False that show thesis
    by (simp add: prefetch_read_cases good_supply_def chunks_def Let_def list_emb_append2)
qed

text \<open>
  C33: the nonce source never repeats itself. Every read of at most 512 bytes succeeds with
  exactly the bytes asked for, and all the bytes handed out by a sequence of reads, followed by
  what is left in the buffer, form a subsequence of the random bytes that went in: no random
  byte is used twice, and none is invented.
\<close>

theorem prefetch_reads_fresh:
  assumes "good_supply r" and "\<forall>w \<in> set ws. w \<le> prefetchN"
  shows "\<exists>outs r'. prefetch_reads r ws = Inr (outs, r') \<and> map length outs = ws \<and>
    refills r \<le> refills r' \<and>
    subseq (concat outs @ pf_buf r') (pf_buf r @ chunks r (refills r) (refills r'))"
  using assms
proof (induction ws arbitrary: r)
  case Nil
  then show ?case by (simp add: chunks_def)
next
  case (Cons w ws)
  obtain out r1 where 1: "prefetch_read r w = Inr (out, r1)" "length out = w" "good_supply r1"
      "refill r1 = refill r" "refills r \<le> refills r1"
      "subseq (out @ pf_buf r1) (pf_buf r @ chunks r (refills r) (refills r1))"
    using prefetch_read_step [of r w] Cons.prems by auto
  obtain outs r2 where 2: "prefetch_reads r1 ws = Inr (outs, r2)" "map length outs = ws"
      "refills r1 \<le> refills r2"
      "subseq (concat outs @ pf_buf r2) (pf_buf r1 @ chunks r1 (refills r1) (refills r2))"
    using Cons.IH [OF 1(3)] Cons.prems by auto
  have "chunks r1 i j = chunks r i j" for i j
    by (simp add: chunks_def 1(4))
  then have "subseq (out @ concat outs @ pf_buf r2) ((out @ pf_buf r1) @ chunks r (refills r1) (refills r2))"
    using 2(4) by (simp add: list_emb_append_mono)
  also have "subseq \<dots> ((pf_buf r @ chunks r (refills r) (refills r1)) @ chunks r (refills r1) (refills r2))"
    by (rule list_emb_append_mono [OF 1(6)]) simp
  finally show ?case
    using 1 2 chunks_append [of "refills r" "refills r1" "refills r2" r] by auto
qed

theorem prefetch_reads_fresh_witness:
  "\<exists>outs r'. prefetch_reads \<lparr>pf_buf = [], refill = (\<lambda>i. replicate 512 (word_of_nat i)), refills = 0\<rparr>
      [16, 12, 16] = Inr (outs, r') \<and> map length outs = [16, 12, 16]"
proof -
  let ?r = "\<lparr>pf_buf = [], refill = (\<lambda>i. replicate 512 (word_of_nat i)), refills = 0\<rparr>"
  have "good_supply ?r" "\<forall>w \<in> set [16, 12, 16]. w \<le> prefetchN"
    by (simp_all add: good_supply_def prefetchN_def)
  then obtain outs r' where "prefetch_reads ?r [16, 12, 16] = Inr (outs, r') \<and> map length outs = [16, 12, 16]"
    using prefetch_reads_fresh [of ?r "[16, 12, 16]"] by auto
  then show ?thesis
    by (intro exI)
qed

section \<open>What a cipher promises\<close>

text \<open>
  The contract of \<^verbatim>\<open>cipher.AEAD\<close> with a 16-byte tag: sealing appends a tag and opening
  undoes it for the same nonce and associated data; opening anything else yields a plaintext
  that is shorter by the tag, or an error, never a panic.
\<close>

locale aead =
  fixes seal unseal :: "bytes \<Rightarrow> bytes \<Rightarrow> bytes \<Rightarrow> bytes result" and nlen :: nat
  assumes seal_ok: "length nonce = nlen \<Longrightarrow> length pt \<le> 2 ^ 30 \<Longrightarrow>
      \<exists>ct. seal nonce pt ad = Inr ct \<and> length ct = length pt + AuthTagLen \<and> unseal nonce ct ad = Inr pt"
    and open_ok: "length nonce = nlen \<Longrightarrow>
      (\<exists>pt. unseal nonce ct ad = Inr pt \<and> length ct = length pt + AuthTagLen) \<or>
      (\<exists>e. unseal nonce ct ad = Inl (Err e))"
begin

lemma sealE:
  assumes "length nonce = nlen" "length pt \<le> 2 ^ 30"
  obtains ct where "seal nonce pt ad = Inr ct" "length ct = length pt + AuthTagLen" "unseal nonce ct ad = Inr pt"
  using seal_ok [OF assms] by blast

lemma openE:
  assumes "length nonce = nlen"
  obtains (ok) pt where "unseal nonce ct ad = Inr pt" "length ct = length pt + AuthTagLen"
    | (err) e where "unseal nonce ct ad = Inl (Err e)"
  using open_ok [OF assms] by blast

text \<open>Different plaintexts never seal to the same bytes under one nonce.\<close>

lemma seal_inject:
  assumes "length nonce = nlen" "length pt \<le> 2 ^ 30" "length pt' \<le> 2 ^ 30"
    and "seal nonce pt ad = seal nonce pt' ad"
  shows "pt = pt'"
  using assms by (metis sealE sum.inject(2))

end

text \<open>
  The SIV library keeps the same contract for any 64-byte key and any associated data; the
  wrapper in \<^verbatim>\<open>siv_aead.go\<close> then keeps the contract of an AEAD.
\<close>

locale siv_lib =
  fixes P :: prims
  assumes siv_encrypt_ok: "length key = siv_KeyLen \<Longrightarrow> length pt \<le> 2 ^ 30 \<Longrightarrow>
      \<exists>ct. siv_Encrypt P key pt ads = Inr ct \<and> length ct = length pt + AuthTagLen \<and>
           siv_Decrypt P key ct ads = Inr pt"
    and siv_decrypt_ok: "length key = siv_KeyLen \<Longrightarrow>
      (\<exists>pt. siv_Decrypt P key ct ads = Inr pt \<and> length ct = length pt + AuthTagLen) \<or>
      (\<exists>e. siv_Decrypt P key ct ads = Inl (Err e))"
begin

lemma siv_wrapper_aead:
  assumes "length (siv_key s) = siv_KeyLen"
  shows "aead (AEAD_Seal P (SivAead s)) (AEAD_Open P (SivAead s)) 16"
proof
  fix nonce pt ad :: bytes
  assume n: "length nonce = 16"
  have k: "length (siv_key s) \<noteq> 0"
    using assms by (simp add: siv_KeyLen_def)
  show "\<exists>ct. AEAD_Seal P (SivAead s) nonce pt ad = Inr ct \<and> length ct = length pt + AuthTagLen \<and>
      AEAD_Open P (SivAead s) nonce ct ad = Inr pt" if "length pt \<le> 2 ^ 30"
    using siv_encrypt_ok [OF assms that, of "[ad, nonce]"] n k
    by (auto simp: AEAD_Seal_def AEAD_Open_def siv_Seal_def siv_Open_def)
  show "(\<exists>p. AEAD_Open P (SivAead s) nonce pt ad = Inr p \<and> length pt = length p + AuthTagLen) \<or>
      (\<exists>e. AEAD_Open P (SivAead s) nonce pt ad = Inl (Err e))"
    using siv_decrypt_ok [OF assms, of pt "[ad, nonce]"] n k
    by (simp add: AEAD_Open_def siv_Open_def)
qed

end

text \<open>
  What the rest of the program relies on of the Go libraries: AES-256 in GCM mode with 12- and
  16-byte nonces keeps the contract of an AEAD, EME accepts the keys in use and decrypts what it encrypted
  under the same 16-byte vector, HKDF accepts the lengths in use, and scrypt returns a key of the length asked for when its cost is a power of two in the
  range it supports.
\<close>

locale crypto_lib =
  fixes P :: prims
  assumes gcm_ok: "length key = KeyLen \<Longrightarrow> n = 12 \<or> n = 16 \<Longrightarrow>
      \<exists>g. aes_gcm P key n = Inr g \<and> aead (gcm_Seal g) (gcm_Open g) n"
    and eme_ok': "length key = KeyLen \<Longrightarrow> \<exists>e. aes_eme P key = Inr e \<and> (\<forall>iv. length iv = 16 \<longrightarrow> eme_ok e iv)"
    and hkdf_ok: "n \<le> 64 \<Longrightarrow> \<exists>out. hkdf_read P key info n = Inr out \<and> length out = n"
    and scrypt_ok: "10 \<le> k \<Longrightarrow> k \<le> 40 \<Longrightarrow> 32 \<le> length salt \<Longrightarrow>
      \<exists>out. scrypt_Key P pw salt (2 ^ k) 8 1 (int KeyLen) = Inr out \<and> length out = KeyLen"
begin

lemma hkdfDerive_ok: "n \<le> 64 \<Longrightarrow> \<exists>out. hkdfDerive P key info n = Inr out \<and> length out = n"
  using hkdf_ok [of n key info] by (auto simp: hkdfDerive_def)

lemma New_eme_ok: "length key = KeyLen \<Longrightarrow> \<exists>e. New_eme P key useHKDF = Inr e"
  using hkdfDerive_ok [of KeyLen key hkdfInfoEMENames] eme_ok'
  by (fastforce simp: New_eme_def panic_on_err_def KeyLen_def)

lemma New_eme_names: "length key = KeyLen \<Longrightarrow> New_eme P key useHKDF = Inr e \<Longrightarrow> length iv = 16 \<Longrightarrow> eme_ok e iv"
  using hkdfDerive_ok [of KeyLen key hkdfInfoEMENames] eme_ok'
  by (fastforce simp: New_eme_def panic_on_err_def KeyLen_def split: if_splits sum.splits fault.splits)

lemma New_gcm_key_ok: "length key = KeyLen \<Longrightarrow> \<exists>k. New_gcm_key P key useHKDF = Inr k \<and> length k = KeyLen"
  using hkdfDerive_ok [of KeyLen key hkdfInfoGCMContent] by (auto simp: New_gcm_key_def KeyLen_def)

text \<open>With a 32-byte key and a legal nonce size the Go backend is always set up.\<close>

lemma CryptoCore_New_gcm:
  assumes "length key = KeyLen" "bits = 96 \<or> bits = 128"
  obtains cc where "CryptoCore_New P key BackendGoGCM bits useHKDF fd = Inr cc"
    "IVLen cc = bits div 8" "nonceLen (IVGenerator cc) = bits div 8" "AEADBackend cc = BackendGoGCM"
    "aead (AEAD_Seal P (AEADCipher cc)) (AEAD_Open P (AEADCipher cc)) (IVLen cc)" "EMECipher cc \<noteq> None"
proof -
  obtain e where e: "New_eme P key useHKDF = Inr e"
    using New_eme_ok [OF assms(1)] by blast
  obtain k where k: "New_gcm_key P key useHKDF = Inr k" "length k = KeyLen"
    using New_gcm_key_ok [OF assms(1)] by blast
  obtain g where g: "aes_gcm P k (bits div 8) = Inr g" "aead (gcm_Seal g) (gcm_Open g) (bits div 8)"
    using gcm_ok [OF k(2), of "bits div 8"] assms(2) by auto
  let ?cc = "\<lparr>EMECipher = Some e, AEADCipher = GoGCM g, AEADBackend = BackendGoGCM,
      IVGenerator = \<lparr>nonceLen = bits div 8\<rparr>, IVLen = bits div 8\<rparr>"
  have "CryptoCore_New P key BackendGoGCM bits useHKDF fd = Inr ?cc"
    using e k g assms(1) by (simp add: CryptoCore_New_def New_aead_def panic_on_err_def Let_def)
  then show thesis
    by (rule that) (simp_all add: AEAD_GoGCM g(2))
qed

end

text \<open>
  Concrete primitives with which the hypotheses about the ciphers are shown to be satisfiable:
  sealing appends a fixed tag. They are used in examples only.
\<close>

definition demo_seal :: "bytes \<Rightarrow> bytes" where
  "demo_seal pt = pt @ replicate 16 7"

definition demo_open :: "bytes \<Rightarrow> bytes result" where
  "demo_open ct =
     (if length ct < 16 \<or> drop (length ct - 16) ct \<noteq> replicate 16 7
      then Inl (Err (ExternalErr ''message authentication failed''))
      else Inr (take (length ct - 16) ct))"

definition demo_gcm :: gcm where
  "demo_gcm = \<lparr>gcm_Seal = (\<lambda>nonce pt ad. Inr (demo_seal pt)),
               gcm_Open = (\<lambda>nonce ct ad. demo_open ct)\<rparr>"

definition demo_prims :: prims where
  "demo_prims = \<lparr>aes_gcm = (\<lambda>key n. Inr demo_gcm), aes_eme = (\<lambda>key. Inr demo_eme),
     siv_Encrypt = (\<lambda>key pt ads. Inr (demo_seal pt)), siv_Decrypt = (\<lambda>key ct ads. demo_open ct),
     hkdf_read = (\<lambda>key info n. Inr (take n (key @ replicate n 1))),
     sha512_Sum = (\<lambda>bs. take 64 (bs @ replicate 64 1)),
     scrypt_Key = (\<lambda>pw salt n r p l. Inr (take (nat l) (pw @ replicate (nat l) 1)))\<rparr>"

lemma demo_open_seal: "demo_open (demo_seal pt) = Inr pt"
  by (simp add: demo_open_def demo_seal_def)

lemma demo_open_cases:
  "(\<exists>pt. demo_open ct = Inr pt \<and> length ct = length pt + AuthTagLen) \<or> (\<exists>e. demo_open ct = Inl (Err e))"
  by (auto simp: demo_open_def AuthTagLen_def)

interpretation demo_aead: aead "AEAD_Seal P (GoGCM demo_gcm)" "AEAD_Open P (GoGCM demo_gcm)" n
  by unfold_locales
    (simp_all add: AEAD_Seal_def AEAD_Open_def demo_gcm_def demo_open_seal demo_open_cases,
     simp add: demo_seal_def AuthTagLen_def)

interpretation demo_siv: siv_lib demo_prims
  by unfold_locales
    (simp_all add: demo_prims_def demo_open_seal demo_open_cases, simp add: demo_seal_def AuthTagLen_def)

interpretation demo_lib: crypto_lib demo_prims
proof
  show "\<exists>g. aes_gcm demo_prims key n = Inr g \<and> aead (gcm_Seal g) (gcm_Open g) n" for key n
    using demo_aead.aead_axioms [of demo_prims n]
    by (simp only: AEAD_GoGCM) (simp add: demo_prims_def)
qed (simp_all add: demo_prims_def KeyLen_def)

end
