(* ===== verification/ByteSlices.thy ===== *)
theory ByteSlices
  imports Gc_Prelude
begin

text \<open>
  Go byte slices where their capacity matters, and the slice pools of
  \<^verbatim>\<open>gocrypt/contentenc/bpool.go\<close>. A slice is its contents and its capacity. A pooled slice
  is never read before it is truncated and overwritten, so a pool keeps only the lengths of
  the slices it holds; \<^verbatim>\<open>sync.Pool\<close> may also forget slices, which only empties the list.
\<close>

record gslice =
  sdata :: bytes
  scap :: nat

definition nil_slice :: gslice where
  "nil_slice = \<lparr>sdata = [], scap = 0\<rparr>"

definition make_slice :: "nat \<Rightarrow> gslice" where
  "make_slice n = \<lparr>sdata = replicate n 0, scap = n\<rparr>"

text \<open>Appending stays in place while the capacity suffices and moves to a new array otherwise.\<close>

definition slice_append :: "gslice \<Rightarrow> bytes \<Rightarrow> gslice" where
  "slice_append s bs =
     (if length (sdata s) + length bs \<le> scap s then s\<lparr>sdata := sdata s @ bs\<rparr>
      else \<lparr>sdata = sdata s @ bs, scap = length (sdata s) + length bs\<rparr>)"

text \<open>
  \<^verbatim>\<open>bytes.Buffer.Write\<close> on a buffer that is only written to: it grows to twice its capacity
  plus the bytes to be written.
\<close>

definition buffer_Write :: "gslice \<Rightarrow> bytes \<Rightarrow> gslice" where
  "buffer_Write b bs =
     (if length (sdata b) + length bs \<le> scap b then b\<lparr>sdata := sdata b @ bs\<rparr>
      else \<lparr>sdata = sdata b @ bs, scap = 2 * scap b + length bs\<rparr>)"

lemma sdata_slice_append [simp]: "sdata (slice_append s bs) = sdata s @ bs"
  by (simp add: slice_append_def)

lemma scap_slice_append: "length (sdata s) + length bs \<le> scap s \<Longrightarrow> scap (slice_append s bs) = scap s"
  by (simp add: slice_append_def)

lemma sdata_buffer_Write [simp]: "sdata (buffer_Write b bs) = sdata b @ bs"
  by (simp add: buffer_Write_def)

section \<open>Slice pools\<close>

record bPool =
  sliceLen :: nat
  pooled :: "nat list"

definition newBPool :: "nat \<Rightarrow> bPool" where
  "newBPool n = \<lparr>sliceLen = n, pooled = []\<rparr>"

definition bPool_Put :: "bPool \<Rightarrow> gslice \<Rightarrow> bPool result" where
  "bPool_Put b s =
     (if scap s \<noteq> sliceLen b then Inl (Panic (LogPanic ''wrong len=%d, want=%d''))
      else Inr (b\<lparr>pooled := scap s # pooled b\<rparr>))"

text \<open>The length of the slice that comes out of the pool, and the pool afterwards.\<close>

definition bPool_Get :: "bPool \<Rightarrow> (nat \<times> bPool) result" where
  "bPool_Get b =
     (case (case pooled b of [] \<Rightarrow> (sliceLen b, b) | n # ns \<Rightarrow> (n, b\<lparr>pooled := ns\<rparr>)) of
        (n, b') \<Rightarrow> if n \<noteq> sliceLen b then Inl (Panic (LogPanic ''wrong len=%d, want=%d''))
               else Inr (n, b'))"

definition pool_inv :: "bPool \<Rightarrow> bool" where
  "pool_inv b \<longleftrightarrow> (\<forall>n \<in> set (pooled b). n = sliceLen b)"

lemma pool_inv_new [simp]: "pool_inv (newBPool n)"
  by (simp add: pool_inv_def newBPool_def)

text \<open>
  What the users of a pool rely on: a slice from the pool has the pool's size, and giving back
  a slice of that capacity succeeds.
\<close>

locale slice_pool =
  fixes get :: "'p \<Rightarrow> (nat \<times> 'p) result"
    and put :: "'p \<Rightarrow> gslice \<Rightarrow> 'p result"
    and size :: "'p \<Rightarrow> nat"
    and inv :: "'p \<Rightarrow> bool"
  assumes get_ok: "inv p \<Longrightarrow> \<exists>p'. get p = Inr (size p, p') \<and> inv p' \<and> size p' = size p"
    and put_ok: "inv p \<Longrightarrow> scap s = size p \<Longrightarrow> \<exists>p'. put p s = Inr p' \<and> inv p' \<and> size p' = size p"
begin

lemma getE:
  assumes "inv p"
  obtains p' where "get p = Inr (size p, p')" "inv p'" "size p' = size p"
  using get_ok [OF assms] by blast

lemma putE:
  assumes "inv p" "scap s = size p"
  obtains p' where "put p s = Inr p'" "inv p'" "size p' = size p"
  using put_ok [OF assms] by blast

text \<open>A slice that was filled within its capacity can go back into the pool it came from.\<close>

lemma get_append_put:
  assumes "inv p" "length bs \<le> size p"
  shows "\<exists>p' p''. get p = Inr (size p, p') \<and>
    put p' (slice_append \<lparr>sdata = [], scap = size p\<rparr> bs) = Inr p'' \<and> inv p''"
proof -
  from assms(1) obtain p' where p': "get p = Inr (size p, p')" "inv p'" "size p' = size p"
    by (rule getE)
  have "scap (slice_append \<lparr>sdata = [], scap = size p\<rparr> bs) = size p'"
    using assms(2) p'(3) by (simp add: scap_slice_append)
  with p' show ?thesis
    using put_ok by blast
qed

end

lemma bPool_Get_pooled:
  "pool_inv b \<Longrightarrow> bPool_Get b = Inr (sliceLen b, b\<lparr>pooled := tl (pooled b)\<rparr>)"
  by (cases "pooled b") (simp_all add: bPool_Get_def pool_inv_def)

interpretation bpool: slice_pool bPool_Get bPool_Put sliceLen pool_inv
proof
  fix b :: bPool and s :: gslice
  assume inv: "pool_inv b"
  then have "pool_inv (b\<lparr>pooled := tl (pooled b)\<rparr>)"
    by (cases "pooled b") (simp_all add: pool_inv_def)
  with inv show "\<exists>b'. bPool_Get b = Inr (sliceLen b, b') \<and> pool_inv b' \<and> sliceLen b' = sliceLen b"
    by (simp add: bPool_Get_pooled)
  show "scap s = sliceLen b \<Longrightarrow> \<exists>b'. bPool_Put b s = Inr b' \<and> pool_inv b' \<and> sliceLen b' = sliceLen b"
    using inv by (simp add: bPool_Put_def pool_inv_def)
qed

end
