(* ===== verification/FileHeader.thy ===== *)
theory FileHeader
  imports Gc_Prelude
begin

text \<open>
  \<^verbatim>\<open>gocrypt/contentenc/file_header.go\<close>: the 18-byte header of every non-empty file, a
  big-endian version and a 16-byte file ID. Packing and parsing form a strict codec on headers
  of the current version with a file ID that is not all zero.
\<close>

definition CurrentVersion :: u16 where "CurrentVersion = 2"
definition headerVersionLen :: nat where "headerVersionLen = 2"
definition headerIDLen :: nat where "headerIDLen = 16"
definition HeaderLen :: nat where "HeaderLen = headerVersionLen + headerIDLen"

record FileHeader =
  hVersion :: u16
  hID :: bytes

definition Pack :: "FileHeader \<Rightarrow> bytes result" where
  "Pack h =
     (if length (hID h) \<noteq> headerIDLen \<or> hVersion h \<noteq> CurrentVersion
      then Inl (Panic (LogPanic ''FileHeader object not properly initialized''))
      else Inr (put_u16 (hVersion h) @ hID h))"

definition allZeroFileID :: bytes where
  "allZeroFileID = replicate headerIDLen 0"

definition ParseHeader :: "bytes \<Rightarrow> FileHeader result" where
  "ParseHeader buf =
     (if length buf \<noteq> HeaderLen
      then Inl (Err (Errorf ''ParseHeader: invalid length, want=%d have=%d''
             [FInt (int HeaderLen), FInt (int (length buf))]))
      else
        let version = get_u16 (take headerVersionLen buf) in
        if version \<noteq> CurrentVersion
        then Inl (Err (Errorf ''ParseHeader: invalid version, want=%d have=%d. Hexdump: %s''
               [FInt (uint CurrentVersion), FInt (uint version), FBytes buf]))
        else
          let ident = drop headerVersionLen buf in
          if ident = allZeroFileID
          then Inl (Err (Errorf ''ParseHeader: file id is all-zero. Hexdump: %s'' [FBytes buf]))
          else Inr \<lparr>hVersion = version, hID = ident\<rparr>)"

text \<open>\<^verbatim>\<open>RandomHeader\<close> takes its file ID from \<^verbatim>\<open>cryptocore.RandBytes\<close>.\<close>

definition RandomHeader :: "(nat \<Rightarrow> bytes result) \<Rightarrow> FileHeader result" where
  "RandomHeader randBytes =
     (case randBytes headerIDLen of
        Inl f \<Rightarrow> Inl f
      | Inr ident \<Rightarrow> Inr \<lparr>hVersion = CurrentVersion, hID = ident\<rparr>)"

lemmas header_len_defs = HeaderLen_def headerVersionLen_def headerIDLen_def

lemma HeaderLen_18 [simp]: "HeaderLen = 18"
  by (simp add: header_len_defs)

definition header_wf :: "FileHeader \<Rightarrow> bool" where
  "header_wf h \<longleftrightarrow> hVersion h = CurrentVersion \<and> length (hID h) = headerIDLen \<and> hID h \<noteq> allZeroFileID"

lemma Pack_length: "Pack h = Inr buf \<Longrightarrow> length buf = HeaderLen"
  by (auto simp: Pack_def header_len_defs split: if_splits)

interpretation file_header: strict_codec Pack ParseHeader header_wf
proof
  fix h :: FileHeader and buf :: bytes
  show "\<exists>y. Pack h = Inr y" if "header_wf h"
    using that by (simp add: header_wf_def Pack_def)
  show "ParseHeader buf = Inr h" if "header_wf h" "Pack h = Inr buf"
  proof -
    have "buf = put_u16 CurrentVersion @ hID h" "length (hID h) = 16" "hID h \<noteq> allZeroFileID"
      using that by (auto simp: header_wf_def Pack_def headerIDLen_def)
    then show ?thesis
      using that(1) get_put_u16 [of CurrentVersion "[]"]
      by (simp add: ParseHeader_def headerVersionLen_def header_wf_def)
  qed
  show "header_wf h \<and> Pack h = Inr buf" if "ParseHeader buf = Inr h"
  proof -
    have l: "length buf = 18" and h: "h = \<lparr>hVersion = get_u16 (take 2 buf), hID = drop 2 buf\<rparr>"
      and v: "get_u16 (take 2 buf) = CurrentVersion" "drop 2 buf \<noteq> allZeroFileID"
      using that by (auto simp: ParseHeader_def Let_def headerVersionLen_def split: if_splits)
    have "put_u16 CurrentVersion = take 2 buf"
      using put_get_u16 [of "take 2 buf"] l v by simp
    then show ?thesis
      using l v by (simp add: h header_wf_def Pack_def headerIDLen_def)
  qed
qed

text \<open>
  The file header is a canonical encoding: a header object of the current version with a
  16-byte, non-zero ID packs to 18 bytes that parse back to it, and a buffer that parses is
  exactly the packed form of the header it parses to.
\<close>

lemma ParseHeader_iff_Pack:
  "ParseHeader buf = Inr h \<longleftrightarrow>
     hVersion h = CurrentVersion \<and> length (hID h) = headerIDLen \<and> hID h \<noteq> allZeroFileID \<and>
     Pack h = Inr buf \<and> length buf = HeaderLen"
  using file_header.dec_iff [of buf h] Pack_length [of h buf] by (auto simp: header_wf_def)

lemma ParseHeader_no_panic: "\<not> panics (ParseHeader buf)"
  by (simp add: ParseHeader_def Let_def)

lemma ParseHeader_faults: "(\<exists>h. ParseHeader buf = Inr h) \<or> (\<exists>e. ParseHeader buf = Inl (Err e))"
  by (simp add: ParseHeader_def Let_def)

end
