(* ===== verification/ContentEnc.thy ===== *)
theory ContentEnc
  imports CryptoCore ByteSlices FileHeader
begin

text \<open>
  \<^verbatim>\<open>gocrypt/contentenc\<close>: the content encrypter's state (\<^verbatim>\<open>content.go\<close>), the
  translations between plaintext and ciphertext offsets and sizes (\<^verbatim>\<open>offsets.go\<close>) and
  the partial blocks of a byte range (\<^verbatim>\<open>intrablock.go\<close>). Offsets and sizes are 64-bit
  words, so sums and products wrap as in Go; a division by a zero block size panics.
\<close>

section \<open>State\<close>

definition DefaultBS :: u64 where "DefaultBS = 4096"
definition DefaultIVBits :: nat where "DefaultIVBits = 128"
definition MAX_KERNEL_WRITE :: u64 where "MAX_KERNEL_WRITE = 128 * 1024"

record ContentEnc =
  cryptoCore :: "CryptoCore option"
  plainBS :: u64
  cipherBS :: u64
  allZeroBlock :: bytes
  allZeroNonce :: bytes
  forceDecode :: bool
  cBlockPool :: bPool
  pBlockPool :: bPool
  CReqPool :: bPool
  PReqPool :: bPool

definition ContentEnc_New :: "CryptoCore \<Rightarrow> u64 \<Rightarrow> bool \<Rightarrow> ContentEnc result" where
  "ContentEnc_New cc pBS fDecode =
     (if pBS = 0 then Inl (Panic DivideByZero)
      else if MAX_KERNEL_WRITE mod pBS \<noteq> 0 then Inl (Panic (LogPanic ''unaligned MAX_KERNEL_WRITE=%d''))
      else
        let cBS = pBS + word_of_nat (IVLen cc) + word_of_nat AuthTagLen;
            cReqSize = unat (MAX_KERNEL_WRITE div pBS * cBS) + unat cBS;
            pReqSize = unat MAX_KERNEL_WRITE + unat pBS
        in Inr \<lparr>cryptoCore = Some cc, plainBS = pBS, cipherBS = cBS,
                allZeroBlock = replicate (unat cBS) 0, allZeroNonce = replicate (IVLen cc) 0,
                forceDecode = fDecode,
                cBlockPool = newBPool (unat cBS), pBlockPool = newBPool (unat pBS),
                CReqPool = newBPool cReqSize, PReqPool = newBPool pReqSize\<rparr>)"

definition PlainBS :: "ContentEnc \<Rightarrow> u64" where "PlainBS be = plainBS be"
definition CipherBS :: "ContentEnc \<Rightarrow> u64" where "CipherBS be = cipherBS be"

section \<open>Offsets and sizes\<close>

abbreviation HeaderLen64 :: u64 where
  "HeaderLen64 \<equiv> word_of_nat HeaderLen"

definition PlainOffToBlockNo :: "ContentEnc \<Rightarrow> u64 \<Rightarrow> u64 result" where
  "PlainOffToBlockNo be plainOffset =
     (if plainBS be = 0 then Inl (Panic DivideByZero) else Inr (plainOffset div plainBS be))"

definition CipherOffToBlockNo :: "ContentEnc \<Rightarrow> u64 \<Rightarrow> u64 result" where
  "CipherOffToBlockNo be cipherOffset =
     (if cipherOffset < HeaderLen64
      then Inl (Panic (LogPanic ''BUG: offset %d is inside the file header''))
      else if cipherBS be = 0 then Inl (Panic DivideByZero)
      else Inr ((cipherOffset - HeaderLen64) div cipherBS be))"

definition BlockNoToCipherOff :: "ContentEnc \<Rightarrow> u64 \<Rightarrow> u64" where
  "BlockNoToCipherOff be blockNo = HeaderLen64 + blockNo * cipherBS be"

definition BlockNoToPlainOff :: "ContentEnc \<Rightarrow> u64 \<Rightarrow> u64" where
  "BlockNoToPlainOff be blockNo = blockNo * plainBS be"

definition BlockOverhead :: "ContentEnc \<Rightarrow> u64" where
  "BlockOverhead be = cipherBS be - plainBS be"

definition CipherSizeToPlainSize :: "ContentEnc \<Rightarrow> u64 \<Rightarrow> u64 result" where
  "CipherSizeToPlainSize be cipherSize =
     (if cipherSize = 0 then Inr 0
      else if cipherSize = HeaderLen64 then Inr 0
      else if cipherSize < HeaderLen64 then Inr 0
      else case CipherOffToBlockNo be (cipherSize - 1) of
          Inl f \<Rightarrow> Inl f
        | Inr blockNo \<Rightarrow>
            let blockCount = blockNo + 1;
                overhead = BlockOverhead be * blockCount + HeaderLen64
            in if overhead > cipherSize then Inr 0 else Inr (cipherSize - overhead))"

definition PlainSizeToCipherSize :: "ContentEnc \<Rightarrow> u64 \<Rightarrow> u64 result" where
  "PlainSizeToCipherSize be plainSize =
     (if plainSize = 0 then Inr 0
      else case PlainOffToBlockNo be (plainSize - 1) of
          Inl f \<Rightarrow> Inl f
        | Inr blockNo \<Rightarrow>
            let blockCount = blockNo + 1;
                overhead = BlockOverhead be * blockCount + HeaderLen64
            in Inr (plainSize + overhead))"

definition MinUint64 :: "u64 \<Rightarrow> u64 \<Rightarrow> u64" where
  "MinUint64 x y = (if x < y then x else y)"

section \<open>Partial blocks\<close>

record IntraBlock =
  BlockNo :: u64
  Skip :: u64
  Length :: u64
  fs :: ContentEnc

definition IsPartial :: "IntraBlock \<Rightarrow> bool" where
  "IsPartial ib \<longleftrightarrow> Skip ib > 0 \<or> Length ib < plainBS (fs ib)"

definition BlockCipherOff :: "IntraBlock \<Rightarrow> u64" where
  "BlockCipherOff ib = BlockNoToCipherOff (fs ib) (BlockNo ib)"

definition BlockPlainOff :: "IntraBlock \<Rightarrow> u64" where
  "BlockPlainOff ib = BlockNoToPlainOff (fs ib) (BlockNo ib)"

definition CropBlock :: "IntraBlock \<Rightarrow> bytes \<Rightarrow> bytes result" where
  "CropBlock ib d =
     (let lenHave = length d;
          lenWant = unat (Skip ib + Length ib);
          high = (if lenHave < lenWant then lenHave else lenWant)
      in if unat (Skip ib) > high then Inl (Panic SliceOutOfRange)
         else Inr (drop (unat (Skip ib)) (take high d)))"

definition JointCiphertextRange :: "IntraBlock \<Rightarrow> IntraBlock list \<Rightarrow> (u64 \<times> u64) result" where
  "JointCiphertextRange ib blocks =
     (if blocks = [] then Inl (Panic IndexOutOfRange)
      else
        let offset = BlockNoToCipherOff (fs ib) (BlockNo (hd blocks));
            offsetLast = BlockNoToCipherOff (fs ib) (BlockNo (last blocks))
        in Inr (offset, offsetLast + cipherBS (fs ib) - offset))"

definition JointPlaintextRange :: "IntraBlock list \<Rightarrow> (u64 \<times> u64) result" where
  "JointPlaintextRange blocks =
     (if blocks = [] then Inl (Panic IndexOutOfRange)
      else
        let offset = BlockPlainOff (hd blocks)
        in Inr (offset, BlockPlainOff (last blocks) + PlainBS (fs (last blocks)) - offset))"

lemma unat_mod_offset: "unat (x - x div y * y :: u64) = unat x mod unat y"
  by (simp add: minus_div_mult_eq_mod unat_mod_distrib)

text \<open>The length of one block of a range, in natural numbers.\<close>

lemma unat_block_len:
  assumes "bs \<noteq> (0 :: u64)" "unat skip < unat bs"
  shows "unat (MinUint64 len (bs - skip)) = min (unat len) (unat bs - unat skip)"
    "unat (len - MinUint64 len (bs - skip)) = unat len - min (unat len) (unat bs - unat skip)"
proof -
  have "unat (bs - skip) = unat bs - unat skip"
    using assms by (simp add: unat_sub word_le_nat_alt)
  then show 1: "unat (MinUint64 len (bs - skip)) = min (unat len) (unat bs - unat skip)"
    by (simp add: MinUint64_def word_less_nat_alt min_def)
  then show "unat (len - MinUint64 len (bs - skip)) = unat len - min (unat len) (unat bs - unat skip)"
    by (simp add: unat_sub word_le_nat_alt)
qed

lemma block_progress:
  assumes "len \<noteq> (0 :: u64)" "bs \<noteq> (0 :: u64)" "unat skip < unat bs"
  shows "unat (len - MinUint64 len (bs - skip)) < unat len"
  using assms by (simp add: unat_block_len(2) unat_gt_0)

text \<open>
  The two loops that split a range into blocks. Each turn takes at least one byte off the
  remaining length, because the part of the block behind \<^verbatim>\<open>Skip\<close> is not empty.
\<close>

function ExplodePlainRange :: "ContentEnc \<Rightarrow> u64 \<Rightarrow> u64 \<Rightarrow> IntraBlock list result" where
  "ExplodePlainRange be offset len =
     (if len = 0 then Inr []
      else case PlainOffToBlockNo be offset of
          Inl f \<Rightarrow> Inl f
        | Inr blockNo \<Rightarrow>
            let skip = offset - BlockNoToPlainOff be blockNo;
                blen = MinUint64 len (plainBS be - skip)
            in case ExplodePlainRange be (offset + blen) (len - blen) of
                Inl f \<Rightarrow> Inl f
              | Inr blocks \<Rightarrow> Inr (\<lparr>BlockNo = blockNo, Skip = skip, Length = blen, fs = be\<rparr> # blocks))"
  by pat_completeness auto
termination
proof (relation "measure (\<lambda>(be, offset, len). unat len)", goal_cases)
  case 1
  show ?case by simp
next
  case (2 be offset len blockNo skip blen)
  then have "plainBS be \<noteq> 0" and "unat skip < unat (plainBS be)"
    by (auto simp: PlainOffToBlockNo_def BlockNoToPlainOff_def unat_mod_offset unat_gt_0 split: if_splits)
  with 2 show ?case by (simp add: block_progress)
qed

function ExplodeCipherRange :: "ContentEnc \<Rightarrow> u64 \<Rightarrow> u64 \<Rightarrow> IntraBlock list result" where
  "ExplodeCipherRange be offset len =
     (if len = 0 then Inr []
      else case CipherOffToBlockNo be offset of
          Inl f \<Rightarrow> Inl f
        | Inr blockNo \<Rightarrow>
            let skip = offset - BlockNoToCipherOff be blockNo;
                maxLen = cipherBS be - skip;
                blen = (if len < maxLen then len else maxLen)
            in case ExplodeCipherRange be (offset + blen) (len - blen) of
                Inl f \<Rightarrow> Inl f
              | Inr blocks \<Rightarrow> Inr (\<lparr>BlockNo = blockNo, Skip = skip, Length = blen, fs = be\<rparr> # blocks))"
  by pat_completeness auto
termination
proof (relation "measure (\<lambda>(be, offset, len). unat len)", goal_cases)
  case 1
  show ?case by simp
next
  case (2 be offset len blockNo skip maxLen blen)
  then have bs: "cipherBS be \<noteq> 0" and "skip = (offset - HeaderLen64) - (offset - HeaderLen64) div cipherBS be * cipherBS be"
    by (auto simp: CipherOffToBlockNo_def BlockNoToCipherOff_def split: if_splits)
  then have "unat skip < unat (cipherBS be)"
    by (simp only: unat_mod_offset) (simp add: unat_gt_0)
  with 2 bs show ?case
    using block_progress [of len "cipherBS be" skip] by (auto simp: MinUint64_def split: if_splits)
qed

declare ExplodePlainRange.simps [simp del] ExplodeCipherRange.simps [simp del]

section \<open>Block sizes\<close>

text \<open>The block sizes of every encrypter that \<^verbatim>\<open>New\<close> builds: a ciphertext block is longer.\<close>

definition sizes_ok :: "ContentEnc \<Rightarrow> bool" where
  "sizes_ok be \<longleftrightarrow> 0 < unat (plainBS be) \<and> unat (plainBS be) < unat (cipherBS be)"

lemma sizes_ok_nonzero: "sizes_ok be \<Longrightarrow> plainBS be \<noteq> 0 \<and> cipherBS be \<noteq> 0"
  by (auto simp: sizes_ok_def)

lemma unat_BlockOverhead:
  "sizes_ok be \<Longrightarrow> unat (BlockOverhead be) = unat (cipherBS be) - unat (plainBS be)"
  by (simp add: sizes_ok_def BlockOverhead_def unat_sub word_le_nat_alt)

lemma ContentEnc_New_sizes:
  assumes "ContentEnc_New cc pBS fd = Inr be" "IVLen cc \<le> 1024"
  shows "sizes_ok be" "unat (cipherBS be) = unat pBS + IVLen cc + 16" "plainBS be = pBS"
    "unat pBS \<le> 131072"
proof -
  have be: "plainBS be = pBS" "cipherBS be = pBS + word_of_nat (IVLen cc) + 16"
    and p: "pBS \<noteq> 0" "MAX_KERNEL_WRITE mod pBS = 0"
    using assms(1) by (auto simp: ContentEnc_New_def Let_def AuthTagLen_def split: if_splits)
  have "unat MAX_KERNEL_WRITE mod unat pBS = 0"
    using p(2) by (metis unat_0 unat_mod_distrib)
  then have le: "unat pBS \<le> 131072"
    using p(1) by (auto simp: MAX_KERNEL_WRITE_def dest!: dvd_imp_le)
  have iv: "unat (word_of_nat (IVLen cc) :: u64) = IVLen cc"
    using assms(2) by (simp add: unat_of_nat)
  have "unat (pBS + word_of_nat (IVLen cc)) = unat pBS + IVLen cc"
    using le iv assms(2) by (subst unat_add_lem [THEN iffD1]) simp_all
  then have c: "unat (pBS + word_of_nat (IVLen cc) + 16) = unat pBS + IVLen cc + 16"
    using le assms(2) by (subst unat_add_lem [THEN iffD1]) simp_all
  show "plainBS be = pBS" "unat pBS \<le> 131072"
    using be le by simp_all
  show "unat (cipherBS be) = unat pBS + IVLen cc + 16"
    using be c by simp
  then show "sizes_ok be"
    using be p by (simp add: sizes_ok_def unat_gt_0)
qed

section \<open>Sizes\<close>

text \<open>The size of a ciphertext file in natural numbers, for blocks of \<open>p\<close> and \<open>c\<close> bytes.\<close>

definition nat_cipher_size :: "nat \<Rightarrow> nat \<Rightarrow> nat \<Rightarrow> nat" where
  "nat_cipher_size p c n = (if n = 0 then 0 else n + (c - p) * ((n - 1) div p + 1) + 18)"

lemma last_block_of_size:
  assumes "0 < p" "p < c" "0 < n"
  shows "(nat_cipher_size p c n - 19) div c = (n - 1) div p" "19 \<le> nat_cipher_size p c n"
proof -
  define k where "k = (n - 1) div p"
  define r where "r = (n - 1) mod p"
  have n: "n = k * p + r + 1" and r: "r < p"
    using assms by (simp_all add: k_def r_def)
  have "(c - p) * (k + 1) + k * p = k * (p + (c - p)) + (c - p)"
    by (simp only: algebra_simps)
  then have "(c - p) * (k + 1) + k * p = k * c + (c - p)"
    using assms(2) by simp
  then have m: "nat_cipher_size p c n = k * c + (r + (c - p)) + 19"
  proof -
    have "nat_cipher_size p c n = n + (c - p) * (k + 1) + 18"
      using assms(3) by (simp add: nat_cipher_size_def k_def)
    also have "\<dots> = ((c - p) * (k + 1) + k * p) + r + 19"
      by (simp only: n)
    finally show ?thesis
      using \<open>(c - p) * (k + 1) + k * p = k * c + (c - p)\<close> by linarith
  qed
  then show "19 \<le> nat_cipher_size p c n"
    by simp
  define x where "x = r + (c - p)"
  have "x < c"
    using r assms(2) by (simp add: x_def)
  moreover have "nat_cipher_size p c n - 19 = k * c + x"
    using m by (simp only: x_def)
  ultimately show "(nat_cipher_size p c n - 19) div c = (n - 1) div p"
    by (simp only: k_def [symmetric]) simp
qed

lemma PlainSizeToCipherSize_nat:
  assumes ok: "sizes_ok be"
    and fits: "nat_cipher_size (unat (plainBS be)) (unat (cipherBS be)) (unat n) < 2 ^ 64"
  obtains m where "PlainSizeToCipherSize be n = Inr m"
    "unat m = nat_cipher_size (unat (plainBS be)) (unat (cipherBS be)) (unat n)"
proof (cases "n = 0")
  case True
  with that show thesis
    by (simp add: PlainSizeToCipherSize_def nat_cipher_size_def)
next
  case False
  let ?p = "unat (plainBS be)" and ?c = "unat (cipherBS be)"
  define k where "k = (n - 1) div plainBS be"
  have n: "0 < unat n" "unat (n - 1) = unat n - 1"
    using False by (simp_all add: unat_gt_0 unat_minus_one)
  then have k: "unat k = (unat n - 1) div ?p"
    by (simp add: k_def unat_div_distrib)
  from fits n have total: "unat n + (?c - ?p) * (unat k + 1) + 18 < 2 ^ 64"
    by (simp add: nat_cipher_size_def k)
  have "unat k < unat n"
    using n div_le_dividend [of "unat n - 1" ?p] by (simp only: k)
  then have k1: "unat (k + 1) = unat k + 1"
    by (rule unat_u64_Suc)
  have "unat (BlockOverhead be * (k + 1)) = (?c - ?p) * (unat k + 1)"
    using total k1 by (subst unat_u64_mult) (simp_all add: unat_BlockOverhead [OF ok])
  then have "unat (BlockOverhead be * (k + 1) + HeaderLen64) = (?c - ?p) * (unat k + 1) + 18"
    using total by (subst unat_u64_add) simp_all
  then have "unat (n + (BlockOverhead be * (k + 1) + HeaderLen64)) = unat n + (?c - ?p) * (unat k + 1) + 18"
    using total by (subst unat_u64_add) simp_all
  moreover have "PlainSizeToCipherSize be n = Inr (n + (BlockOverhead be * (k + 1) + HeaderLen64))"
    using False sizes_ok_nonzero [OF ok]
    by (simp add: PlainSizeToCipherSize_def PlainOffToBlockNo_def k_def Let_def)
  ultimately show thesis
    using that n k by (simp add: nat_cipher_size_def)
qed

lemma CipherSizeToPlainSize_fits:
  assumes ok: "sizes_ok be" and m: "18 < unat m"
  defines "ovh \<equiv> (unat (cipherBS be) - unat (plainBS be)) * ((unat m - 19) div unat (cipherBS be) + 1) + 18"
  assumes b: "ovh < 2 ^ 64"
  obtains n where "CipherSizeToPlainSize be m = Inr n"
    "unat n = (if ovh > unat m then 0 else unat m - ovh)"
proof -
  let ?p = "unat (plainBS be)" and ?c = "unat (cipherBS be)"
  define k where "k = (m - 1 - HeaderLen64) div cipherBS be"
  have m1: "unat (m - 1) = unat m - 1"
    using m by (simp add: unat_minus_one unat_gt_0 [symmetric])
  have m19: "unat (m - 1 - HeaderLen64) = unat m - 19"
    using m m1 by (subst unat_u64_diff) simp_all
  have k: "unat k = (unat m - 19) div ?c"
    by (simp only: k_def unat_div_distrib m19)
  have bk: "(?c - ?p) * (unat k + 1) + 18 < 2 ^ 64"
    using b by (simp add: ovh_def k)
  have k1: "unat (k + 1) = unat k + 1"
  proof -
    have "unat k \<le> unat m - 19"
      by (simp add: k)
    moreover have "unat m < 2 ^ 64"
      by (rule order_less_le_trans [OF unsigned_less]) simp
    ultimately have "unat k < 2 ^ 64 - 1"
      using m by linarith
    then show ?thesis
      by (subst unat_u64_add) simp_all
  qed
  have "unat (BlockOverhead be * (k + 1)) = (?c - ?p) * (unat k + 1)"
    using bk k1 by (subst unat_u64_mult) (simp_all add: unat_BlockOverhead [OF ok])
  then have o: "unat (BlockOverhead be * (k + 1) + HeaderLen64) = ovh"
    using bk k by (subst unat_u64_add) (simp_all add: ovh_def)
  have "CipherSizeToPlainSize be m =
      (if BlockOverhead be * (k + 1) + HeaderLen64 > m then Inr 0
       else Inr (m - (BlockOverhead be * (k + 1) + HeaderLen64)))"
    using m m1 sizes_ok_nonzero [OF ok]
    by (auto simp: CipherSizeToPlainSize_def CipherOffToBlockNo_def k_def Let_def word_less_nat_alt)
  then show thesis
    using that [of "if ovh > unat m then 0 else m - (BlockOverhead be * (k + 1) + HeaderLen64)"] o
    by (simp add: word_less_nat_alt unat_u64_diff not_less)
qed

lemma CipherSizeToPlainSize_nat:
  assumes ok: "sizes_ok be" and m: "18 < unat m" and fits: "unat m + unat (cipherBS be) < 2 ^ 64"
  defines "ovh \<equiv> (unat (cipherBS be) - unat (plainBS be)) * ((unat m - 19) div unat (cipherBS be) + 1) + 18"
  obtains n where "CipherSizeToPlainSize be m = Inr n"
    "unat n = (if ovh > unat m then 0 else unat m - ovh)"
proof -
  let ?p = "unat (plainBS be)" and ?c = "unat (cipherBS be)" and ?k = "(unat m - 19) div unat (cipherBS be)"
  have "?p \<le> ?c"
    using ok by (auto simp: sizes_ok_def)
  then have "(?c - ?p) * (?k + 1) \<le> ?c * ?k + ?c"
    by (simp add: algebra_simps add_mono mult_le_mono2)
  also have "\<dots> \<le> unat m - 19 + ?c"
    by simp
  finally have "ovh < 2 ^ 64"
    using fits m unfolding ovh_def by linarith
  then show thesis
    using CipherSizeToPlainSize_fits [OF ok m] that unfolding ovh_def by blast
qed

text \<open>
  C28: plaintext and ciphertext sizes translate into each other: for every plaintext size whose
  ciphertext size is below \<open>2 ^ 64\<close>, up to the last one, \<^verbatim>\<open>CipherSizeToPlainSize\<close> undoes
  \<^verbatim>\<open>PlainSizeToCipherSize\<close>, for any plaintext block size above 0 and any larger ciphertext block size.
\<close>

theorem CipherSize_PlainSize_roundtrip:
  assumes "sizes_ok be"
    and "nat_cipher_size (unat (plainBS be)) (unat (cipherBS be)) (unat n) < 2 ^ 64"
  shows "\<exists>m. PlainSizeToCipherSize be n = Inr m \<and> CipherSizeToPlainSize be m = Inr n"
proof -
  let ?p = "unat (plainBS be)" and ?c = "unat (cipherBS be)"
  obtain m where m: "PlainSizeToCipherSize be n = Inr m" "unat m = nat_cipher_size ?p ?c (unat n)"
    using PlainSizeToCipherSize_nat [OF assms] by auto
  show ?thesis
  proof (cases "n = 0")
    case True
    with m show ?thesis
      by (simp add: PlainSizeToCipherSize_def CipherSizeToPlainSize_def)
  next
    case False
    then have n: "0 < unat n" by (simp add: unat_gt_0)
    have pc: "0 < ?p" "?p < ?c"
      using assms(1) by (simp_all add: sizes_ok_def)
    have last: "(unat m - 19) div ?c = (unat n - 1) div ?p" "18 < unat m"
      using last_block_of_size [OF pc n] by (simp_all add: m(2))
    define ovh where "ovh = (?c - ?p) * ((unat m - 19) div ?c + 1) + 18"
    have mo: "unat m = unat n + ovh"
      using n by (simp only: ovh_def last(1)) (simp add: m(2) nat_cipher_size_def)
    have "ovh < 2 ^ 64"
      using assms(2) m(2) mo by linarith
    then obtain n' where n': "CipherSizeToPlainSize be m = Inr n'"
      "unat n' = (if ovh > unat m then 0 else unat m - ovh)"
      using CipherSizeToPlainSize_fits [OF assms(1) last(2)] ovh_def by metis
    then have "unat n' = unat n"
      by (simp add: mo)
    then show ?thesis
      using m(1) n'(1) by (metis word_unat_eq_iff)
  qed
qed

definition demo_core :: CryptoCore where
  "demo_core = \<lparr>EMECipher = None, AEADCipher = GoGCM demo_gcm, AEADBackend = BackendGoGCM,
     IVGenerator = \<lparr>nonceLen = 16\<rparr>, IVLen = 16\<rparr>"

text \<open>The encrypter that the file tree uses: 4096-byte blocks and 128-bit nonces.\<close>

definition file_enc :: "CryptoCore \<Rightarrow> ContentEnc" where
  "file_enc cc = \<lparr>cryptoCore = Some cc, plainBS = 4096, cipherBS = 4128,
     allZeroBlock = replicate 4128 0, allZeroNonce = replicate 16 0, forceDecode = False,
     cBlockPool = newBPool 4128, pBlockPool = newBPool 4096,
     CReqPool = newBPool 136224, PReqPool = newBPool 135168\<rparr>"

lemma ContentEnc_New_file_enc:
  "IVLen cc = 16 \<Longrightarrow> ContentEnc_New cc DefaultBS False = Inr (file_enc cc)"
  by (simp add: ContentEnc_New_def file_enc_def DefaultBS_def MAX_KERNEL_WRITE_def AuthTagLen_def
      Let_def)

lemma sizes_ok_file_enc [simp]: "sizes_ok (file_enc cc)"
  by (simp add: sizes_ok_def file_enc_def)

theorem CipherSize_PlainSize_roundtrip_witness:
  "\<exists>m. PlainSizeToCipherSize (file_enc demo_core) 5000 = Inr m \<and>
       CipherSizeToPlainSize (file_enc demo_core) m = Inr 5000"
  by (rule CipherSize_PlainSize_roundtrip) (simp_all add: file_enc_def sizes_ok_def nat_cipher_size_def)

lemma CipherSizeToPlainSize_short: "unat m \<le> HeaderLen \<Longrightarrow> CipherSizeToPlainSize be m = Inr 0"
  by (auto simp: CipherSizeToPlainSize_def word_less_nat_alt word_unat_eq_iff)

text \<open>
  For the sizes a file can have, \<^verbatim>\<open>CipherSizeToPlainSize\<close> always returns: it never
  panics, and its result is 0 for files of at most the header's length and at most the
  ciphertext size minus the header otherwise.
\<close>

lemma CipherSizeToPlainSize_bounds:
  assumes "sizes_ok be" and "unat m + unat (cipherBS be) < 2 ^ 64"
  shows "\<exists>n. CipherSizeToPlainSize be m = Inr n \<and> unat n \<le> unat m - HeaderLen"
proof (cases "18 < unat m")
  case True
  define x where "x = (unat (cipherBS be) - unat (plainBS be)) * ((unat m - 19) div unat (cipherBS be) + 1)"
  obtain n where n: "CipherSizeToPlainSize be m = Inr n"
      "unat n = (if x + 18 > unat m then 0 else unat m - (x + 18))"
    using CipherSizeToPlainSize_nat [OF assms(1) True assms(2)] x_def by metis
  have "unat n \<le> unat m - 18"
    using n(2) by (cases "x + 18 > unat m") simp_all
  with n(1) show ?thesis
    by simp
next
  case False
  then show ?thesis by (simp add: CipherSizeToPlainSize_short)
qed

lemma CipherSizeToPlainSize_bounds_witness:
  "\<exists>n. CipherSizeToPlainSize (file_enc demo_core) 20 = Inr n \<and> unat n \<le> 2"
  using CipherSizeToPlainSize_bounds [of "file_enc demo_core" 20] by (simp add: file_enc_def sizes_ok_def)

section \<open>Splitting a range into blocks\<close>

text \<open>The file positions that a block of a range stands for.\<close>

definition positions :: "nat \<Rightarrow> nat \<Rightarrow> IntraBlock \<Rightarrow> nat list" where
  "positions base bsz b = [base + unat (BlockNo b) * bsz + unat (Skip b) ..<
                  base + unat (BlockNo b) * bsz + unat (Skip b) + unat (Length b)]"

text \<open>
  The blocks of a range, in order, stand for exactly the positions of the range; they are
  numbered consecutively, none is empty, none leaves its block and all but the first start
  at the beginning of their block.
\<close>

definition splits :: "nat \<Rightarrow> nat \<Rightarrow> nat \<Rightarrow> nat \<Rightarrow> IntraBlock list \<Rightarrow> bool" where
  "splits base bsz off len bs \<longleftrightarrow>
     concat (map (positions base bsz) bs) = [off ..< off + len] \<and>
     map (unat \<circ> BlockNo) bs = [(off - base) div bsz ..< (off - base) div bsz + length bs] \<and>
     (\<forall>b \<in> set bs. 0 < unat (Length b) \<and> unat (Skip b) + unat (Length b) \<le> bsz) \<and>
     (\<forall>b \<in> set (tl bs). unat (Skip b) = 0)"

text \<open>
  What both range loops do, in natural numbers: the range starts \<open>base\<close> bytes into the file
  or later, and a turn cuts it at the next multiple of the block size.
\<close>

locale range_split =
  fixes split :: "u64 \<Rightarrow> u64 \<Rightarrow> IntraBlock list result"
    and base bsz :: nat
  assumes bsz_pos: "0 < bsz"
    and split_nil: "split off 0 = Inr []"
    and split_step: "len \<noteq> 0 \<Longrightarrow> base \<le> unat off \<Longrightarrow>
      \<exists>b. unat (BlockNo b) = (unat off - base) div bsz \<and> unat (Skip b) = (unat off - base) mod bsz \<and>
        unat (Length b) = min (unat len) (bsz - (unat off - base) mod bsz) \<and>
        split off len = (case split (off + Length b) (len - Length b) of
            Inl f \<Rightarrow> Inl f | Inr bs \<Rightarrow> Inr (b # bs))"
begin

lemma next_block:
  assumes "off \<ge> base" "l = bsz - (off - base) mod bsz"
  shows "(off + l - base) mod bsz = 0" "(off + l - base) div bsz = Suc ((off - base) div bsz)"
proof -
  define d where "d = off - base"
  have "d mod bsz < bsz" "d = bsz * (d div bsz) + d mod bsz"
    using bsz_pos by simp_all
  moreover have "off + l - base = d + (bsz - d mod bsz)"
    using assms by (simp add: d_def)
  ultimately have "off + l - base = bsz * Suc (d div bsz)"
    unfolding mult_Suc_right by linarith
  then show "(off + l - base) mod bsz = 0" "(off + l - base) div bsz = Suc ((off - base) div bsz)"
    using bsz_pos by (simp_all add: d_def)
qed

lemma splits_Nil: "splits base bsz off 0 []"
  by (simp add: splits_def)

lemma splits_Cons:
  assumes off: "base \<le> off" and len: "0 < len"
    and b: "unat (BlockNo b) = (off - base) div bsz" "unat (Skip b) = (off - base) mod bsz"
      "unat (Length b) = min len (bsz - (off - base) mod bsz)"
    and bs: "splits base bsz (off + unat (Length b)) (len - unat (Length b)) bs"
  shows "splits base bsz off len (b # bs)"
proof -
  define d where "d = off - base"
  have m: "d mod bsz < bsz"
    using bsz_pos by simp
  have d: "d = d div bsz * bsz + d mod bsz"
    by simp
  have o: "base + unat (BlockNo b) * bsz + unat (Skip b) = off"
    using b off d by (simp add: d_def)
  have l: "0 < unat (Length b)" "unat (Skip b) + unat (Length b) \<le> bsz" "unat (Length b) \<le> len"
    using b m len by (auto simp: d_def min_def)
  have "positions base bsz b = [off ..< off + unat (Length b)]"
    by (simp add: positions_def o)
  then have 1: "concat (map (positions base bsz) (b # bs)) = [off ..< off + len]"
    using bs l(3) upt_add_eq_append [of off "off + unat (Length b)" "len - unat (Length b)"]
    by (simp add: splits_def)
  have 2: "map (unat \<circ> BlockNo) (b # bs) = [d div bsz ..< d div bsz + length (b # bs)] \<and>
      (\<forall>b \<in> set bs. unat (Skip b) = 0)"
  proof (cases bs)
    case Nil
    then show ?thesis by (simp add: b(1) d_def)
  next
    case (Cons b' bs')
    have "len \<noteq> unat (Length b)"
      using bs Cons by (auto simp: splits_def positions_def)
    then have "unat (Length b) = bsz - (off - base) mod bsz"
      using b(3) by (simp add: min_def split: if_splits)
    note nb = next_block [OF off this]
    have hd0: "unat (Skip b') = 0"
    proof -
      have "hd (concat (map (positions base bsz) bs)) = off + unat (Length b)"
        using bs \<open>len \<noteq> unat (Length b)\<close> l(3) by (simp add: splits_def)
      moreover have "0 < unat (Length b')"
        using bs Cons by (simp add: splits_def)
      ultimately have *: "base + unat (BlockNo b') * bsz + unat (Skip b') = off + unat (Length b)"
        using Cons by (simp add: positions_def)
      have "unat (BlockNo b') = (off + unat (Length b) - base) div bsz"
        using bs Cons by (simp add: splits_def upt_rec)
      then have "unat (BlockNo b') * bsz = off + unat (Length b) - base"
        using nb(1) by (metis add.right_neutral div_mult_mod_eq)
      then show ?thesis
        using * off by linarith
    qed
    have "map (unat \<circ> BlockNo) bs = [Suc (d div bsz) ..< Suc (d div bsz) + length bs]"
      using bs nb(2) by (simp add: splits_def d_def)
    moreover have "\<forall>b \<in> set bs. unat (Skip b) = 0"
      using bs Cons hd0 by (simp add: splits_def)
    moreover have "[d div bsz ..< d div bsz + length (b # bs)] =
        d div bsz # [Suc (d div bsz) ..< Suc (d div bsz) + length bs]"
      by (simp only: upt_conv_Cons list.size add_Suc_right) simp
    ultimately show ?thesis
      using b(1) by (simp only: d_def list.map comp_apply)
  qed
  show ?thesis
    using 1 2 l bs by (simp add: splits_def d_def)
qed

lemma split_splits:
  assumes "base \<le> unat off" "unat off + unat len < 2 ^ 64"
  shows "\<exists>bs. split off len = Inr bs \<and> splits base bsz (unat off) (unat len) bs"
  using assms
proof (induction "unat len" arbitrary: off len rule: less_induct)
  case less
  show ?case
  proof (cases "len = 0")
    case True
    then show ?thesis by (simp add: split_nil splits_Nil)
  next
    case False
    then have pos: "0 < unat len"
      by (simp add: unat_gt_0)
    obtain b where b: "unat (BlockNo b) = (unat off - base) div bsz"
      "unat (Skip b) = (unat off - base) mod bsz"
      "unat (Length b) = min (unat len) (bsz - (unat off - base) mod bsz)"
      and eq: "split off len = (case split (off + Length b) (len - Length b) of
            Inl f \<Rightarrow> Inl f | Inr bs \<Rightarrow> Inr (b # bs))"
      using split_step [OF False less.prems(1)] by blast
    have "(unat off - base) mod bsz < bsz"
      using bsz_pos by simp
    then have l: "0 < unat (Length b)" "unat (Length b) \<le> unat len"
      using b(3) pos by simp_all
    have o: "unat (off + Length b) = unat off + unat (Length b)"
      using l less.prems(2) by (intro unat_u64_add) simp
    have n: "unat (len - Length b) = unat len - unat (Length b)"
      using l by (intro unat_u64_diff)
    have "\<exists>bs. split (off + Length b) (len - Length b) = Inr bs \<and>
        splits base bsz (unat (off + Length b)) (unat (len - Length b)) bs"
      by (rule less.hyps) (use l o n less.prems in simp_all)
    then obtain bs where "split (off + Length b) (len - Length b) = Inr bs"
      "splits base bsz (unat off + unat (Length b)) (unat len - unat (Length b)) bs"
      by (auto simp: o n)
    then show ?thesis
      using splits_Cons [OF less.prems(1) pos b] eq by auto
  qed
qed

end

lemma plain_range_split:
  assumes "sizes_ok be"
  shows "range_split (ExplodePlainRange be) 0 (unat (plainBS be))"
proof
  show "0 < unat (plainBS be)"
    using assms by (simp add: sizes_ok_def)
  show "ExplodePlainRange be off 0 = Inr []" for off
    by (simp add: ExplodePlainRange.simps)
  fix off len :: u64
  assume len: "len \<noteq> 0"
  let ?k = "off div plainBS be"
  let ?s = "off - BlockNoToPlainOff be ?k"
  let ?l = "MinUint64 len (plainBS be - ?s)"
  have nz: "plainBS be \<noteq> 0"
    using assms sizes_ok_nonzero by blast
  have s: "unat ?s = unat off mod unat (plainBS be)"
    by (simp only: BlockNoToPlainOff_def unat_mod_offset)
  moreover have "unat off mod unat (plainBS be) < unat (plainBS be)"
    using nz by (simp add: unat_gt_0)
  ultimately have l: "unat ?l = min (unat len) (unat (plainBS be) - unat off mod unat (plainBS be))"
    using unat_block_len(1) [OF nz, of ?s len] by simp
  have "ExplodePlainRange be off len = (case ExplodePlainRange be (off + ?l) (len - ?l) of
      Inl f \<Rightarrow> Inl f | Inr bs \<Rightarrow> Inr (\<lparr>BlockNo = ?k, Skip = ?s, Length = ?l, fs = be\<rparr> # bs))"
    using len nz by (subst ExplodePlainRange.simps) (simp add: PlainOffToBlockNo_def Let_def)
  then show "\<exists>b. unat (BlockNo b) = (unat off - 0) div unat (plainBS be) \<and>
      unat (Skip b) = (unat off - 0) mod unat (plainBS be) \<and>
      unat (Length b) = min (unat len) (unat (plainBS be) - (unat off - 0) mod unat (plainBS be)) \<and>
      ExplodePlainRange be off len = (case ExplodePlainRange be (off + Length b) (len - Length b) of
          Inl f \<Rightarrow> Inl f | Inr bs \<Rightarrow> Inr (b # bs))"
    by (intro exI [of _ "\<lparr>BlockNo = ?k, Skip = ?s, Length = ?l, fs = be\<rparr>"])
      (simp add: s l unat_div_distrib)
qed

lemma cipher_range_split:
  assumes "sizes_ok be"
  shows "range_split (ExplodeCipherRange be) HeaderLen (unat (cipherBS be))"
proof
  show "0 < unat (cipherBS be)"
    using assms by (simp add: sizes_ok_def)
  show "ExplodeCipherRange be off 0 = Inr []" for off
    by (simp add: ExplodeCipherRange.simps)
  fix off len :: u64
  assume len: "len \<noteq> 0" and off: "HeaderLen \<le> unat off"
  let ?o = "off - HeaderLen64"
  let ?k = "?o div cipherBS be"
  let ?s = "off - BlockNoToCipherOff be ?k"
  let ?l = "MinUint64 len (cipherBS be - ?s)"
  have nz: "cipherBS be \<noteq> 0"
    using assms sizes_ok_nonzero by blast
  have o: "unat ?o = unat off - HeaderLen"
    using off by (subst unat_u64_diff) simp_all
  have "?s = ?o - ?k * cipherBS be"
    by (simp add: BlockNoToCipherOff_def)
  then have s: "unat ?s = (unat off - HeaderLen) mod unat (cipherBS be)"
    by (simp only: unat_mod_offset o)
  moreover have "(unat off - HeaderLen) mod unat (cipherBS be) < unat (cipherBS be)"
    using nz by (simp add: unat_gt_0)
  ultimately have l: "unat ?l = min (unat len) (unat (cipherBS be) - (unat off - HeaderLen) mod unat (cipherBS be))"
    using unat_block_len(1) [OF nz, of ?s len] by simp
  have "\<not> off < HeaderLen64"
    using off by (simp add: word_less_nat_alt)
  then have "ExplodeCipherRange be off len = (case ExplodeCipherRange be (off + ?l) (len - ?l) of
      Inl f \<Rightarrow> Inl f | Inr bs \<Rightarrow> Inr (\<lparr>BlockNo = ?k, Skip = ?s, Length = ?l, fs = be\<rparr> # bs))"
    using len nz by (subst ExplodeCipherRange.simps)
      (simp only: CipherOffToBlockNo_def Let_def MinUint64_def if_False sum.case)
  moreover have "unat ?k = (unat off - HeaderLen) div unat (cipherBS be)"
    by (simp only: unat_div_distrib o)
  ultimately show "\<exists>b. unat (BlockNo b) = (unat off - HeaderLen) div unat (cipherBS be) \<and>
      unat (Skip b) = (unat off - HeaderLen) mod unat (cipherBS be) \<and>
      unat (Length b) = min (unat len) (unat (cipherBS be) - (unat off - HeaderLen) mod unat (cipherBS be)) \<and>
      ExplodeCipherRange be off len = (case ExplodeCipherRange be (off + Length b) (len - Length b) of
          Inl f \<Rightarrow> Inl f | Inr bs \<Rightarrow> Inr (b # bs))"
    using s l by (intro exI [of _ "\<lparr>BlockNo = ?k, Skip = ?s, Length = ?l, fs = be\<rparr>"]) simp
qed

interpretation plain_range: range_split "ExplodePlainRange (file_enc cc)" 0 "unat (plainBS (file_enc cc))"
  by (rule plain_range_split) simp

interpretation cipher_range: range_split "ExplodeCipherRange (file_enc cc)" HeaderLen "unat (cipherBS (file_enc cc))"
  by (rule cipher_range_split) simp

text \<open>
  A plaintext range is split into blocks that cover it exactly: for every offset and
  length whose sum fits into 64 bits the loop ends without a panic, and the positions of the
  blocks, in order, are the positions of the range; the block numbers are consecutive, no
  block is empty or longer than a plaintext block, and only the first block skips bytes.
\<close>

lemma ExplodePlainRange_covers:
  assumes "sizes_ok be" and "unat offset + unat len < 2 ^ 64"
  shows "\<exists>bs. ExplodePlainRange be offset len = Inr bs \<and>
           splits 0 (unat (plainBS be)) (unat offset) (unat len) bs"
  using range_split.split_splits [OF plain_range_split [OF assms(1)] le0 assms(2)] .

lemma ExplodePlainRange_covers_witness:
  "\<exists>bs. ExplodePlainRange (file_enc demo_core) 4000 5000 = Inr bs \<and>
     splits 0 4096 4000 5000 bs"
  using ExplodePlainRange_covers [of "file_enc demo_core" 4000 5000] by (simp add: file_enc_def sizes_ok_def)

text \<open>
  The same for a ciphertext range that starts behind the file header, with the ciphertext
  block size.
\<close>

lemma ExplodeCipherRange_covers:
  assumes "sizes_ok be" and "HeaderLen \<le> unat offset" and "unat offset + unat len < 2 ^ 64"
  shows "\<exists>bs. ExplodeCipherRange be offset len = Inr bs \<and>
           splits HeaderLen (unat (cipherBS be)) (unat offset) (unat len) bs"
  using range_split.split_splits [OF cipher_range_split [OF assms(1)] assms(2,3)] .

lemma ExplodeCipherRange_covers_witness:
  "\<exists>bs. ExplodeCipherRange (file_enc demo_core) 18 9000 = Inr bs \<and>
     splits 18 4128 18 9000 bs"
  using ExplodeCipherRange_covers [of "file_enc demo_core" 18 9000] by (simp add: file_enc_def sizes_ok_def)

end
