(* ===== verification/ContentBlocks.thy ===== *)
theory ContentBlocks
  imports ContentEnc "HOL-Library.Multiset"
begin

text \<open>
  The block operations of \<^verbatim>\<open>gocrypt/contentenc/content.go\<close>: encryption and decryption of
  single blocks and of runs of blocks, with the slices they borrow from and return to the
  pools, the two goroutines that share the work of a long run, merging and wiping. An
  operation that touches a pool or the nonce source returns the changed encrypter or source.
\<close>

section \<open>Single blocks\<close>

definition concatAD :: "u64 \<Rightarrow> bytes option \<Rightarrow> bytes result" where
  "concatAD blockNo fileID =
     (case fileID of
        None \<Rightarrow> Inr (put_u64 blockNo)
      | Some ident \<Rightarrow>
          if length ident \<noteq> headerIDLen then Inl (Panic (LogPanic ''wrong fileID length: %d''))
          else Inr (put_u64 blockNo @ ident))"

text \<open>
  Both results of \<^verbatim>\<open>DecryptBlock\<close>, the slice and the error, and the encrypter afterwards.
  The ciphers return a nil slice with an error.
\<close>

definition DecryptBlock ::
    "prims \<Rightarrow> ContentEnc \<Rightarrow> gslice \<Rightarrow> u64 \<Rightarrow> bytes option \<Rightarrow>
     (gslice \<times> goerr option \<times> ContentEnc) result" where
  "DecryptBlock P be ciphertext blockNo fileID =
     (if length (sdata ciphertext) = 0 then Inr (ciphertext, None, be)
      else if sdata ciphertext = allZeroBlock be then Inr (make_slice (unat (plainBS be)), None, be)
      else case cryptoCore be of
        None \<Rightarrow> Inl (Panic NilDeref)
      | Some cc \<Rightarrow>
          if length (sdata ciphertext) < IVLen cc
          then Inr (nil_slice, Some (Errorf ''Block is too short'' []), be)
          else
            let nonce = take (IVLen cc) (sdata ciphertext) in
            if nonce = allZeroNonce be then Inr (nil_slice, Some (Errorf ''all-zero nonce'' []), be)
            else case bPool_Get (pBlockPool be) of
              Inl f \<Rightarrow> Inl f
            | Inr (n, pool) \<Rightarrow>
                let be' = be\<lparr>pBlockPool := pool\<rparr> in
                case concatAD blockNo fileID of
                  Inl f \<Rightarrow> Inl f
                | Inr aData \<Rightarrow>
                    case AEAD_Open P (AEADCipher cc) nonce (drop (IVLen cc) (sdata ciphertext)) aData of
                      Inl (Err e) \<Rightarrow> Inr (nil_slice, Some e, be')
                    | Inl f \<Rightarrow> Inl f
                    | Inr plain \<Rightarrow> Inr (slice_append \<lparr>sdata = [], scap = n\<rparr> plain, None, be'))"

definition doEncryptBlock ::
    "prims \<Rightarrow> ContentEnc \<Rightarrow> gslice \<Rightarrow> u64 \<Rightarrow> bytes option \<Rightarrow> bytes \<Rightarrow> (gslice \<times> ContentEnc) result" where
  "doEncryptBlock P be plaintext blockNo fileID nonce =
     (if length (sdata plaintext) = 0 then Inr (plaintext, be)
      else case cryptoCore be of
        None \<Rightarrow> Inl (Panic NilDeref)
      | Some cc \<Rightarrow>
          if length nonce \<noteq> IVLen cc then Inl (Panic (LogPanic ''wrong nonce length''))
          else case concatAD blockNo fileID of
            Inl f \<Rightarrow> Inl f
          | Inr aData \<Rightarrow>
              case bPool_Get (cBlockPool be) of
                Inl f \<Rightarrow> Inl f
              | Inr (n, pool) \<Rightarrow>
                  if length nonce > n then Inl (Panic SliceOutOfRange)
                  else case AEAD_Seal P (AEADCipher cc) nonce (sdata plaintext) aData of
                    Inl f \<Rightarrow> Inl f
                  | Inr sealed \<Rightarrow>
                      let ciphertext = slice_append \<lparr>sdata = nonce, scap = n\<rparr> sealed;
                          overhead = unat (cipherBS be - plainBS be)
                      in if length (sdata plaintext) + overhead \<noteq> length (sdata ciphertext)
                         then Inl (Panic (LogPanic ''unexpected ciphertext length: plaintext=%d, overhead=%d, ciphertext=%d''))
                         else Inr (ciphertext, be\<lparr>cBlockPool := pool\<rparr>))"

definition EncryptBlock ::
    "prims \<Rightarrow> ContentEnc \<Rightarrow> gslice \<Rightarrow> u64 \<Rightarrow> bytes option \<Rightarrow> randPrefetcherT \<Rightarrow>
     (gslice \<times> ContentEnc \<times> randPrefetcherT) result" where
  "EncryptBlock P be plaintext blockNo fileID rp =
     (case cryptoCore be of
        None \<Rightarrow> Inl (Panic NilDeref)
      | Some cc \<Rightarrow>
          case nonceGenerator_Get (IVGenerator cc) rp of
            Inl f \<Rightarrow> Inl f
          | Inr (nonce, rp') \<Rightarrow>
              case doEncryptBlock P be plaintext blockNo fileID nonce of
                Inl f \<Rightarrow> Inl f
              | Inr (ciphertext, be') \<Rightarrow> Inr (ciphertext, be', rp'))"

definition EncryptBlockNonce ::
    "prims \<Rightarrow> ContentEnc \<Rightarrow> gslice \<Rightarrow> u64 \<Rightarrow> bytes option \<Rightarrow> bytes \<Rightarrow> (gslice \<times> ContentEnc) result" where
  "EncryptBlockNonce P be plaintext blockNo fileID nonce =
     (case cryptoCore be of
        None \<Rightarrow> Inl (Panic NilDeref)
      | Some cc \<Rightarrow>
          if AEADBackend cc \<noteq> BackendAESSIV
          then Inl (Panic (LogPanic ''deterministic nonces are only secure in SIV mode''))
          else doEncryptBlock P be plaintext blockNo fileID nonce)"

section \<open>Runs of blocks\<close>

text \<open>
  The decryption loop. \<open>pBuf\<close> is the output buffer and \<open>err\<close> the error variable, which keeps
  the error of the last block. A block size of 0, which \<^verbatim>\<open>New\<close> never makes, would take
  empty blocks off the input forever.
\<close>

function DecryptBlocks_loop ::
    "prims \<Rightarrow> ContentEnc \<Rightarrow> gslice \<Rightarrow> u64 \<Rightarrow> bytes option \<Rightarrow> gslice \<Rightarrow> goerr option \<Rightarrow>
     (gslice \<times> goerr option \<times> ContentEnc) result" where
  "DecryptBlocks_loop P be cBuf blockNo fileID pBuf err =
     (if length (sdata cBuf) = 0 then Inr (pBuf, err, be)
      else if sint (cipherBS be) < 0 then Inl (Panic SliceOutOfRange)
      else if cipherBS be = 0
      then (case bPool_Put (pBlockPool be) \<lparr>sdata = [], scap = scap cBuf\<rparr> of
          Inl f \<Rightarrow> Inl f | Inr _ \<Rightarrow> Inl Hang)
      else
        let n = unat (cipherBS be);
            cBlock = cBuf\<lparr>sdata := take n (sdata cBuf)\<rparr>;
            rest = \<lparr>sdata = drop n (sdata cBuf), scap = scap cBuf - n\<rparr>
        in case DecryptBlock P be cBlock blockNo fileID of
          Inl f \<Rightarrow> Inl f
        | Inr (pBlock, err', be') \<Rightarrow>
            if err' \<noteq> None \<and> \<not> (forceDecode be \<and> err' = Some ErrAuth)
            then Inr (pBuf, err', be')
            else case bPool_Put (pBlockPool be') pBlock of
              Inl f \<Rightarrow> Inl f
            | Inr pool \<Rightarrow>
                DecryptBlocks_loop P (be'\<lparr>pBlockPool := pool\<rparr>) rest (blockNo + 1) fileID
                       (buffer_Write pBuf (sdata pBlock)) err')"
  by pat_completeness auto
termination
  by (relation "measure (\<lambda>(P, be, cBuf, blockNo, fileID, pBuf, err). length (sdata cBuf))")
    (auto simp: unat_gt_0)

declare DecryptBlocks_loop.simps [simp del]

definition DecryptBlocks ::
    "prims \<Rightarrow> ContentEnc \<Rightarrow> gslice \<Rightarrow> u64 \<Rightarrow> bytes option \<Rightarrow> (gslice \<times> goerr option \<times> ContentEnc) result" where
  "DecryptBlocks P be ciphertext firstBlockNo fileID =
     (case bPool_Get (PReqPool be) of
        Inl f \<Rightarrow> Inl f
      | Inr (n, pool) \<Rightarrow>
          DecryptBlocks_loop P (be\<lparr>PReqPool := pool\<rparr>) ciphertext firstBlockNo fileID
            \<lparr>sdata = [], scap = n\<rparr> None)"

definition encryptMaxSplit :: nat where "encryptMaxSplit = 2"

text \<open>
  The work of \<^verbatim>\<open>doEncryptBlocks\<close> on the blocks from \<open>low\<close> up to \<open>high\<close> is a list of tasks, a
  slot of the output array and a block number each. A task draws its nonce when it runs.
\<close>

type_synonym enc_task = "nat \<times> u64"

definition group_tasks :: "u64 \<Rightarrow> nat \<Rightarrow> nat \<Rightarrow> enc_task list" where
  "group_tasks firstBlockNo low high =
     map (\<lambda>i. (low + i, firstBlockNo + word_of_nat low + word_of_nat i)) [0..<high - low]"

fun doEncryptBlocks ::
    "prims \<Rightarrow> gslice list \<Rightarrow> bytes option \<Rightarrow> enc_task list \<Rightarrow>
     gslice list \<times> ContentEnc \<times> randPrefetcherT \<Rightarrow> (gslice list \<times> ContentEnc \<times> randPrefetcherT) result" where
  "doEncryptBlocks P ins fileID [] s = Inr s"
| "doEncryptBlocks P ins fileID ((slot, blockNo) # tasks) (out, be, rp) =
     (case EncryptBlock P be (ins ! slot) blockNo fileID rp of
        Inl f \<Rightarrow> Inl f
      | Inr (c, be', rp') \<Rightarrow> doEncryptBlocks P ins fileID tasks (out[slot := c], be', rp'))"

text \<open>
  How the blocks are divided among the goroutines. The Go scheduler interleaves them in some
  way; it is the argument \<open>sched\<close>, which merges the task lists of the goroutines.
\<close>

definition encrypt_groups :: "nat \<Rightarrow> nat \<Rightarrow> u64 \<Rightarrow> enc_task list list" where
  "encrypt_groups numCPU n firstBlockNo =
     (let ncpu = (if numCPU > encryptMaxSplit then encryptMaxSplit else numCPU);
          groupSize = n div ncpu
      in map (\<lambda>i. group_tasks firstBlockNo (i * groupSize)
                (if i = ncpu - 1 then n else (i + 1) * groupSize)) [0..<ncpu])"

definition encrypt_order :: "(enc_task list list \<Rightarrow> enc_task list) \<Rightarrow> nat \<Rightarrow> nat \<Rightarrow> u64 \<Rightarrow> enc_task list" where
  "encrypt_order sched numCPU n firstBlockNo =
     (if n \<ge> 32 then sched (encrypt_groups numCPU n firstBlockNo)
      else group_tasks firstBlockNo 0 n)"

text \<open>Concatenation of the encrypted blocks, which go back to their pool.\<close>

fun join_blocks :: "bPool \<Rightarrow> gslice list \<Rightarrow> gslice \<Rightarrow> (gslice \<times> bPool) result" where
  "join_blocks pool [] out = Inr (out, pool)"
| "join_blocks pool (v # vs) out =
     (case bPool_Put pool v of
        Inl f \<Rightarrow> Inl f
      | Inr pool' \<Rightarrow> join_blocks pool' vs (buffer_Write out (sdata v)))"

definition EncryptBlocks ::
    "prims \<Rightarrow> (enc_task list list \<Rightarrow> enc_task list) \<Rightarrow> nat \<Rightarrow> ContentEnc \<Rightarrow> gslice list \<Rightarrow> u64 \<Rightarrow>
     bytes option \<Rightarrow> randPrefetcherT \<Rightarrow> (gslice \<times> ContentEnc \<times> randPrefetcherT) result" where
  "EncryptBlocks P sched numCPU be plaintextBlocks firstBlockNo fileID rp =
     (let n = length plaintextBlocks in
      case doEncryptBlocks P plaintextBlocks fileID (encrypt_order sched numCPU n firstBlockNo)
             (replicate n nil_slice, be, rp) of
        Inl f \<Rightarrow> Inl f
      | Inr (ciphertextBlocks, be', rp') \<Rightarrow>
          case bPool_Get (CReqPool be') of
            Inl f \<Rightarrow> Inl f
          | Inr (m, pool) \<Rightarrow>
              case join_blocks (cBlockPool be') ciphertextBlocks \<lparr>sdata = [], scap = m\<rparr> of
                Inl f \<Rightarrow> Inl f
              | Inr (out, cpool) \<Rightarrow> Inr (out, be'\<lparr>CReqPool := pool, cBlockPool := cpool\<rparr>, rp'))"

section \<open>Merging and wiping\<close>

text \<open>\<^verbatim>\<open>copy(dst[at:], src)\<close> overwrites as much as fits.\<close>

definition copy_at :: "bytes \<Rightarrow> nat \<Rightarrow> bytes \<Rightarrow> bytes" where
  "copy_at dst at src =
     (let n = min (length src) (length dst - at) in take at dst @ take n src @ drop (at + n) dst)"

definition MergeBlocks :: "ContentEnc \<Rightarrow> bytes \<Rightarrow> bytes \<Rightarrow> int \<Rightarrow> bytes result" where
  "MergeBlocks be oldData newData offset =
     (if length oldData = 0 \<and> offset = 0 then Inr newData
      else
        let out = copy_at (replicate (unat (plainBS be)) 0) 0 oldData;
            l = length newData
        in if offset < 0 \<or> offset + int l > int (length out) then Inl (Panic SliceOutOfRange)
           else
             let out' = copy_at out (nat offset) newData;
                 newLen = nat offset + length newData;
                 outLen = (if length oldData < newLen then newLen else length oldData)
             in if outLen > length out' then Inl (Panic SliceOutOfRange)
                else Inr (take outLen out'))"

definition ContentEnc_Wipe :: "ContentEnc \<Rightarrow> ContentEnc result" where
  "ContentEnc_Wipe be =
     (case cryptoCore be of
        None \<Rightarrow> Inl (Panic NilDeref)
      | Some cc \<Rightarrow>
          case CryptoCore_Wipe cc of
            Inl f \<Rightarrow> Inl f
          | Inr _ \<Rightarrow> Inr (be\<lparr>cryptoCore := None\<rparr>))"

section \<open>The invariant\<close>

text \<open>What \<^verbatim>\<open>New\<close> establishes and every operation but \<^verbatim>\<open>Wipe\<close> keeps.\<close>

definition pools_ok :: "ContentEnc \<Rightarrow> bool" where
  "pools_ok be \<longleftrightarrow>
     pool_inv (cBlockPool be) \<and> sliceLen (cBlockPool be) = unat (cipherBS be) \<and>
     pool_inv (pBlockPool be) \<and> sliceLen (pBlockPool be) = unat (plainBS be) \<and>
     pool_inv (CReqPool be) \<and> pool_inv (PReqPool be)"

definition enc_ok :: "CryptoCore \<Rightarrow> ContentEnc \<Rightarrow> bool" where
  "enc_ok cc be \<longleftrightarrow>
     cryptoCore be = Some cc \<and> 0 < IVLen cc \<and> IVLen cc \<le> 1024 \<and> nonceLen (IVGenerator cc) = IVLen cc \<and>
     0 < unat (plainBS be) \<and> unat (plainBS be) \<le> 131072 \<and>
     unat (cipherBS be) = unat (plainBS be) + IVLen cc + 16 \<and>
     allZeroBlock be = replicate (unat (cipherBS be)) 0 \<and> allZeroNonce be = replicate (IVLen cc) 0 \<and>
     pools_ok be"

text \<open>The part of an encrypter that no operation changes.\<close>

definition same_params :: "ContentEnc \<Rightarrow> ContentEnc \<Rightarrow> bool" where
  "same_params be be' \<longleftrightarrow>
     cryptoCore be' = cryptoCore be \<and> plainBS be' = plainBS be \<and> cipherBS be' = cipherBS be \<and>
     allZeroBlock be' = allZeroBlock be \<and> allZeroNonce be' = allZeroNonce be \<and>
     forceDecode be' = forceDecode be \<and> sliceLen (PReqPool be') = sliceLen (PReqPool be) \<and>
     sliceLen (CReqPool be') = sliceLen (CReqPool be)"

lemma same_params_refl [simp]: "same_params be be"
  by (simp add: same_params_def)

lemma same_params_trans [trans]: "same_params a b \<Longrightarrow> same_params b c \<Longrightarrow> same_params a c"
  by (simp add: same_params_def)

lemma enc_ok_same_params: "enc_ok cc be \<Longrightarrow> same_params be be' \<Longrightarrow> pools_ok be' \<Longrightarrow> enc_ok cc be'"
  by (simp add: enc_ok_def same_params_def)

lemma ContentEnc_New_enc_ok:
  assumes "ContentEnc_New cc pBS fd = Inr be" "0 < IVLen cc" "IVLen cc \<le> 1024"
    "nonceLen (IVGenerator cc) = IVLen cc"
  shows "enc_ok cc be"
proof -
  have "cryptoCore be = Some cc \<and> allZeroBlock be = replicate (unat (cipherBS be)) 0 \<and>
      allZeroNonce be = replicate (IVLen cc) 0 \<and> pools_ok be"
    using assms(1)
    by (auto simp: ContentEnc_New_def Let_def pools_ok_def newBPool_def pool_inv_def split: if_splits)
  then show ?thesis
    using ContentEnc_New_sizes [OF assms(1,3)] assms by (simp add: enc_ok_def sizes_ok_def)
qed

lemma enc_ok_sizes: "enc_ok cc be \<Longrightarrow> sizes_ok be"
  by (simp add: enc_ok_def sizes_ok_def)

lemma enc_ok_overhead: "enc_ok cc be \<Longrightarrow> unat (cipherBS be - plainBS be) = IVLen cc + 16"
  by (simp add: enc_ok_def unat_u64_diff)

section \<open>Single blocks under the cipher's contract\<close>

text \<open>The associated data of a block, for a file ID of a legal length.\<close>

definition fid_ok :: "bytes option \<Rightarrow> bool" where
  "fid_ok fileID \<longleftrightarrow> (case fileID of None \<Rightarrow> True | Some ident \<Rightarrow> length ident = headerIDLen)"

definition block_ad :: "u64 \<Rightarrow> bytes option \<Rightarrow> bytes" where
  "block_ad blockNo fileID = put_u64 blockNo @ (case fileID of None \<Rightarrow> [] | Some ident \<Rightarrow> ident)"

lemma concatAD_ok: "fid_ok fileID \<Longrightarrow> concatAD blockNo fileID = Inr (block_ad blockNo fileID)"
  by (auto simp: concatAD_def fid_ok_def block_ad_def split: option.splits)

text \<open>\<open>c\<close> is what block number \<open>k\<close> with contents \<open>pt\<close> looks like on the server.\<close>

definition sealed_block :: "prims \<Rightarrow> CryptoCore \<Rightarrow> bytes option \<Rightarrow> u64 \<Rightarrow> bytes \<Rightarrow> bytes \<Rightarrow> bool" where
  "sealed_block P cc fileID k pt c \<longleftrightarrow>
     length c = length pt + IVLen cc + AuthTagLen \<and>
     take (IVLen cc) c \<noteq> replicate (IVLen cc) 0 \<and>
     AEAD_Open P (AEADCipher cc) (take (IVLen cc) c) (drop (IVLen cc) c) (block_ad k fileID) = Inr pt"

abbreviation core_aead :: "prims \<Rightarrow> CryptoCore \<Rightarrow> bool" where
  "core_aead P cc \<equiv> aead (AEAD_Seal P (AEADCipher cc)) (AEAD_Open P (AEADCipher cc)) (IVLen cc)"

lemma pBlockPool_Get:
  assumes "enc_ok cc be"
  obtains pool where "bPool_Get (pBlockPool be) = Inr (unat (plainBS be), pool)"
    "pools_ok (be\<lparr>pBlockPool := pool\<rparr>)" "same_params be (be\<lparr>pBlockPool := pool\<rparr>)"
    "pool_inv pool" "sliceLen pool = unat (plainBS be)"
  using assms bpool.getE [of "pBlockPool be"]
  by (auto simp: enc_ok_def pools_ok_def same_params_def)

lemma cBlockPool_Get:
  assumes "enc_ok cc be"
  obtains pool where "bPool_Get (cBlockPool be) = Inr (unat (cipherBS be), pool)"
    "pools_ok (be\<lparr>cBlockPool := pool\<rparr>)" "same_params be (be\<lparr>cBlockPool := pool\<rparr>)"
  using assms bpool.getE [of "cBlockPool be"]
  by (auto simp: enc_ok_def pools_ok_def same_params_def)

lemma doEncryptBlock_seals:
  assumes be: "enc_ok cc be" and cipher: "core_aead P cc" and fid: "fid_ok fileID"
    and nonce: "length nonce = IVLen cc" "nonce \<noteq> replicate (IVLen cc) 0"
    and pt: "0 < length (sdata pt)" "length (sdata pt) \<le> unat (plainBS be)"
  obtains c be' where "doEncryptBlock P be pt k fileID nonce = Inr (c, be')"
    "scap c = unat (cipherBS be)" "sealed_block P cc fileID k (sdata pt) (sdata c)"
    "take (IVLen cc) (sdata c) = nonce"
    "enc_ok cc be'" "same_params be be'"
proof -
  have "length (sdata pt) \<le> 2 ^ 30"
    using be pt by (simp add: enc_ok_def)
  then obtain ct where ct: "AEAD_Seal P (AEADCipher cc) nonce (sdata pt) (block_ad k fileID) = Inr ct"
    "length ct = length (sdata pt) + AuthTagLen"
    "AEAD_Open P (AEADCipher cc) nonce ct (block_ad k fileID) = Inr (sdata pt)"
    using aead.sealE [OF cipher nonce(1)] by blast
  obtain pool where pool: "bPool_Get (cBlockPool be) = Inr (unat (cipherBS be), pool)"
    "pools_ok (be\<lparr>cBlockPool := pool\<rparr>)" "same_params be (be\<lparr>cBlockPool := pool\<rparr>)"
    using be by (rule cBlockPool_Get)
  let ?c = "slice_append \<lparr>sdata = nonce, scap = unat (cipherBS be)\<rparr> ct"
  have len: "length nonce + length ct \<le> unat (cipherBS be)"
    using be pt nonce(1) ct(2) by (simp add: enc_ok_def AuthTagLen_def)
  have "doEncryptBlock P be pt k fileID nonce = Inr (?c, be\<lparr>cBlockPool := pool\<rparr>)"
    using be pt nonce ct pool len enc_ok_overhead [OF be] concatAD_ok [OF fid]
    by (simp add: doEncryptBlock_def enc_ok_def AuthTagLen_def)
  moreover have "sealed_block P cc fileID k (sdata pt) (sdata ?c)"
    using nonce ct by (simp add: sealed_block_def)
  moreover have "scap ?c = unat (cipherBS be)"
    using len by (simp add: scap_slice_append)
  ultimately show thesis
    using that pool enc_ok_same_params [OF be pool(3,2)] nonce(1) by simp
qed

lemma DecryptBlock_sealed:
  assumes be: "enc_ok cc be" and fid: "fid_ok fileID"
    and c: "sealed_block P cc fileID k pt (sdata c)" and pt: "length pt \<le> unat (plainBS be)"
  obtains s be' where "DecryptBlock P be c k fileID = Inr (s, None, be')"
    "sdata s = pt" "scap s = unat (plainBS be)" "enc_ok cc be'" "same_params be be'"
proof -
  obtain pool where pool: "bPool_Get (pBlockPool be) = Inr (unat (plainBS be), pool)"
    "pools_ok (be\<lparr>pBlockPool := pool\<rparr>)" "same_params be (be\<lparr>pBlockPool := pool\<rparr>)"
    using be by (rule pBlockPool_Get)
  have nz: "sdata c \<noteq> allZeroBlock be"
    using c be by (auto simp: sealed_block_def enc_ok_def min_def)
  have "DecryptBlock P be c k fileID =
      Inr (slice_append \<lparr>sdata = [], scap = unat (plainBS be)\<rparr> pt, None, be\<lparr>pBlockPool := pool\<rparr>)"
    using be c nz pool(1) concatAD_ok [OF fid]
    by (simp add: DecryptBlock_def sealed_block_def enc_ok_def Let_def)
  moreover have "scap (slice_append \<lparr>sdata = [], scap = unat (plainBS be)\<rparr> pt) = unat (plainBS be)"
    using pt by (simp add: scap_slice_append)
  ultimately show thesis
    using that [of "slice_append \<lparr>sdata = [], scap = unat (plainBS be)\<rparr> pt"]
      pool enc_ok_same_params [OF be pool(3,2)] by simp
qed

text \<open>
  A block on the server is a sealed block or a hole of a sparse file: the code passes a ciphertext block of zeros
  through as a plaintext block of zeros, \<open>n\<close> bytes, without authentication.
\<close>

definition stored_block :: "nat \<Rightarrow> prims \<Rightarrow> CryptoCore \<Rightarrow> bytes option \<Rightarrow> u64 \<Rightarrow> bytes \<Rightarrow> bytes \<Rightarrow> bool" where
  "stored_block n P cc fileID k pt c \<longleftrightarrow> sealed_block P cc fileID k pt c \<or>
     pt = replicate n 0 \<and> c = replicate (n + IVLen cc + AuthTagLen) 0"

lemma stored_block_length: "stored_block n P cc fileID k pt c \<Longrightarrow> length c = length pt + IVLen cc + AuthTagLen"
  by (auto simp: stored_block_def sealed_block_def)

lemma DecryptBlock_stored:
  assumes be: "enc_ok cc be" and fid: "fid_ok fileID"
    and c: "stored_block (unat (plainBS be)) P cc fileID k pt (sdata c)" and pt: "0 < length pt" "length pt \<le> unat (plainBS be)"
  obtains s be' where "DecryptBlock P be c k fileID = Inr (s, None, be')"
    "sdata s = pt" "scap s = unat (plainBS be)" "enc_ok cc be'" "same_params be be'"
proof (cases "sealed_block P cc fileID k pt (sdata c)")
  case True
  then show thesis
    by (rule DecryptBlock_sealed [OF be fid _ pt(2) that])
next
  case False
  then have "pt = replicate (unat (plainBS be)) 0" "sdata c = allZeroBlock be" "sdata c \<noteq> []"
    using c be by (auto simp: stored_block_def enc_ok_def AuthTagLen_def)
  then show thesis
    using that [of "make_slice (unat (plainBS be))" be] be by (simp add: DecryptBlock_def make_slice_def)
qed

lemma DecryptBlock_total:
  assumes be: "enc_ok cc be" and cipher: "core_aead P cc" and fid: "fid_ok fileID"
    and c: "0 < length (sdata c)" "length (sdata c) \<le> unat (cipherBS be)"
  obtains s err be' where "DecryptBlock P be c k fileID = Inr (s, err, be')"
    "err = None \<Longrightarrow> scap s = unat (plainBS be) \<and> length (sdata c) = length (sdata s) + IVLen cc + AuthTagLen"
    "enc_ok cc be'" "same_params be be'"
proof -
  consider (hole) "sdata c = allZeroBlock be"
    | (short) "sdata c \<noteq> allZeroBlock be" "length (sdata c) < IVLen cc"
    | (zero) "sdata c \<noteq> allZeroBlock be" "\<not> length (sdata c) < IVLen cc" "take (IVLen cc) (sdata c) = allZeroNonce be"
    | (auth) "sdata c \<noteq> allZeroBlock be" "\<not> length (sdata c) < IVLen cc" "take (IVLen cc) (sdata c) \<noteq> allZeroNonce be"
    by blast
  then show thesis
  proof cases
    case hole
    then show thesis
      using that [of "make_slice (unat (plainBS be))" None be] be c
      by (simp add: DecryptBlock_def make_slice_def enc_ok_def AuthTagLen_def)
  next
    case short
    then show thesis
      using that [of nil_slice _ be] be c by (simp add: DecryptBlock_def enc_ok_def)
  next
    case zero
    then show thesis
      using that [of nil_slice _ be] be c by (simp add: DecryptBlock_def enc_ok_def)
  next
    case auth
    obtain pool where pool: "bPool_Get (pBlockPool be) = Inr (unat (plainBS be), pool)"
      "pools_ok (be\<lparr>pBlockPool := pool\<rparr>)" "same_params be (be\<lparr>pBlockPool := pool\<rparr>)"
      using be by (rule pBlockPool_Get)
    note be' = enc_ok_same_params [OF be pool(3,2)]
    have "length (take (IVLen cc) (sdata c)) = IVLen cc"
      using auth by simp
    then consider pt where "AEAD_Open P (AEADCipher cc) (take (IVLen cc) (sdata c)) (drop (IVLen cc) (sdata c))
          (block_ad k fileID) = Inr pt" "length (drop (IVLen cc) (sdata c)) = length pt + AuthTagLen"
      | e where "AEAD_Open P (AEADCipher cc) (take (IVLen cc) (sdata c)) (drop (IVLen cc) (sdata c))
          (block_ad k fileID) = Inl (Err e)"
      using aead.openE [OF cipher] by metis
    then show thesis
    proof cases
      case (1 pt)
      have "length pt \<le> unat (plainBS be)"
        using 1(2) auth c be by (simp add: enc_ok_def AuthTagLen_def)
      then show thesis
        using that [of "slice_append \<lparr>sdata = [], scap = unat (plainBS be)\<rparr> pt" None "be\<lparr>pBlockPool := pool\<rparr>"]
          be' pool auth 1 be c concatAD_ok [OF fid]
        by (simp add: DecryptBlock_def enc_ok_def Let_def scap_slice_append)
    next
      case (2 e)
      then show thesis
        using that [of nil_slice "Some e" "be\<lparr>pBlockPool := pool\<rparr>"] be' pool auth be c concatAD_ok [OF fid]
        by (simp add: DecryptBlock_def enc_ok_def Let_def)
    qed
  qed
qed

section \<open>Runs of blocks under the cipher's contract\<close>

text \<open>Giving a decrypted block back to its pool always succeeds.\<close>

lemma pBlockPool_Put:
  assumes "enc_ok cc be" "scap s = unat (plainBS be)"
  obtains pool where "bPool_Put (pBlockPool be) s = Inr pool"
    "enc_ok cc (be\<lparr>pBlockPool := pool\<rparr>)" "same_params be (be\<lparr>pBlockPool := pool\<rparr>)"
proof -
  have "pool_inv (pBlockPool be)" "scap s = sliceLen (pBlockPool be)"
    using assms by (simp_all add: enc_ok_def pools_ok_def)
  then obtain pool where "bPool_Put (pBlockPool be) s = Inr pool" "pool_inv pool"
    "sliceLen pool = sliceLen (pBlockPool be)"
    by (rule bpool.putE)
  then show thesis
    using that assms by (simp add: enc_ok_def pools_ok_def same_params_def)
qed

lemma enc_ok_cipherBS:
  assumes "enc_ok cc be"
  shows "\<not> sint (cipherBS be) < 0" "cipherBS be \<noteq> 0"
proof -
  have c: "unat (cipherBS be) \<le> 132112" "0 < unat (cipherBS be)"
    using assms by (simp_all add: enc_ok_def)
  then show "cipherBS be \<noteq> 0"
    by auto
  have "uint (cipherBS be) = int (unat (cipherBS be))"
    by simp
  then have "uint (cipherBS be) < 9223372036854775808"
    using c by linarith
  then have "sint (cipherBS be) = uint (cipherBS be)"
    using order_trans [of "- (2 ^ 63)" 0 "uint (cipherBS be)"]
    by (simp add: sint_uint signed_take_bit_int_eq_self)
  then show "\<not> sint (cipherBS be) < 0"
    by simp
qed

text \<open>
  The length of the plaintext of a ciphertext without its header, and the decryption of a
  run of blocks: it never panics, it returns every slice to its pool, and when no block is
  rejected the plaintext has exactly that length.
\<close>

definition body_len :: "CryptoCore \<Rightarrow> ContentEnc \<Rightarrow> nat \<Rightarrow> nat" where
  "body_len cc be m =
     m div unat (cipherBS be) * unat (plainBS be) +
     (m mod unat (cipherBS be) - (IVLen cc + AuthTagLen))"

text \<open>The last block of such a ciphertext is full or has at least a nonce and a tag.\<close>

definition blocks_fit :: "CryptoCore \<Rightarrow> ContentEnc \<Rightarrow> nat \<Rightarrow> bool" where
  "blocks_fit cc be m \<longleftrightarrow>
     m mod unat (cipherBS be) = 0 \<or> IVLen cc + AuthTagLen \<le> m mod unat (cipherBS be)"

lemma body_len_step:
  assumes "enc_ok cc be" "0 < m"
    and "min m (unat (cipherBS be)) = l + IVLen cc + AuthTagLen"
  shows "body_len cc be m = l + body_len cc be (m - unat (cipherBS be)) \<and>
    (blocks_fit cc be m \<longleftrightarrow> blocks_fit cc be (m - unat (cipherBS be)))"
proof (cases "m < unat (cipherBS be)")
  case True
  then show ?thesis
    using assms(3) by (simp add: body_len_def blocks_fit_def)
next
  case False
  then have "l = unat (plainBS be)"
    using assms by (simp add: enc_ok_def AuthTagLen_def min_def split: if_splits)
  moreover have "m div unat (cipherBS be) = Suc ((m - unat (cipherBS be)) div unat (cipherBS be))"
    "m mod unat (cipherBS be) = (m - unat (cipherBS be)) mod unat (cipherBS be)"
    using False assms(1) by (simp_all add: le_div_geq le_mod_geq enc_ok_def)
  ultimately show ?thesis
    by (simp add: body_len_def blocks_fit_def)
qed

lemma body_len_same:
  "same_params be be' \<Longrightarrow> body_len cc be' = body_len cc be \<and> blocks_fit cc be' = blocks_fit cc be"
  by (simp add: body_len_def blocks_fit_def same_params_def fun_eq_iff)

lemma scap_buffer_Write: "N \<le> scap b \<Longrightarrow> N \<le> scap (buffer_Write b bs)"
  by (simp add: buffer_Write_def)

lemma DecryptBlocks_loop_total:
  assumes "enc_ok cc be" "core_aead P cc" "fid_ok fileID" "\<not> forceDecode be" "N \<le> scap pBuf"
  shows "\<exists>out err' be'. DecryptBlocks_loop P be cBuf k fileID pBuf err = Inr (out, err', be') \<and>
      enc_ok cc be' \<and> same_params be be' \<and> N \<le> scap out \<and>
      (err' = None \<longrightarrow> length (sdata out) = length (sdata pBuf) + body_len cc be (length (sdata cBuf)) \<and>
        blocks_fit cc be (length (sdata cBuf)))"
  using assms
proof (induction "length (sdata cBuf)" arbitrary: be cBuf k pBuf err rule: less_induct)
  case less
  show ?case
  proof (cases "sdata cBuf = []")
    case True
    then show ?thesis
      using less.prems by (subst DecryptBlocks_loop.simps) (simp add: body_len_def blocks_fit_def)
  next
    case False
    let ?n = "unat (cipherBS be)"
    let ?c = "cBuf\<lparr>sdata := take ?n (sdata cBuf)\<rparr>"
    let ?rest = "\<lparr>sdata = drop ?n (sdata cBuf), scap = scap cBuf - ?n\<rparr>"
    note n = enc_ok_cipherBS [OF less.prems(1)]
    have "0 < length (sdata ?c)" "length (sdata ?c) \<le> unat (cipherBS be)"
      using False n by (simp_all add: unat_gt_0)
    then obtain s err1 be1 where d: "DecryptBlock P be ?c k fileID = Inr (s, err1, be1)"
      "err1 = None \<Longrightarrow> scap s = unat (plainBS be) \<and> length (sdata ?c) = length (sdata s) + IVLen cc + AuthTagLen"
      "enc_ok cc be1" "same_params be be1"
      using DecryptBlock_total [OF less.prems(1-3), where k = k] by metis
    note unfold = DecryptBlocks_loop.simps [of P be cBuf k fileID pBuf err]
    show ?thesis
    proof (cases err1)
      case (Some e)
      then show ?thesis
        using False n d less.prems unfold by (simp add: Let_def)
    next
      case None
      have "scap s = unat (plainBS be1)"
        using d None by (simp add: same_params_def)
      with d(3) obtain pool where pool: "bPool_Put (pBlockPool be1) s = Inr pool"
        "enc_ok cc (be1\<lparr>pBlockPool := pool\<rparr>)" "same_params be1 (be1\<lparr>pBlockPool := pool\<rparr>)"
        by (rule pBlockPool_Put)
      have sp: "same_params be (be1\<lparr>pBlockPool := pool\<rparr>)"
        using d(4) pool(3) by (rule same_params_trans)
      have "length (sdata ?rest) < length (sdata cBuf)"
        using False n by (simp add: unat_gt_0)
      moreover have "\<not> forceDecode (be1\<lparr>pBlockPool := pool\<rparr>)"
        using less.prems(4) sp by (simp add: same_params_def)
      ultimately obtain out err' be' where r:
        "DecryptBlocks_loop P (be1\<lparr>pBlockPool := pool\<rparr>) ?rest (k + 1) fileID (buffer_Write pBuf (sdata s)) None
           = Inr (out, err', be')" "enc_ok cc be'" "same_params (be1\<lparr>pBlockPool := pool\<rparr>) be'" "N \<le> scap out"
        "err' = None \<longrightarrow> length (sdata out) = length (sdata (buffer_Write pBuf (sdata s))) +
            body_len cc (be1\<lparr>pBlockPool := pool\<rparr>) (length (sdata ?rest)) \<and>
            blocks_fit cc (be1\<lparr>pBlockPool := pool\<rparr>) (length (sdata ?rest))"
        using less.hyps [OF _ pool(2) less.prems(2,3) _ scap_buffer_Write [OF less.prems(5)], where cBuf = ?rest]
        by blast
      have "body_len cc be (length (sdata cBuf)) = length (sdata s) + body_len cc be (length (sdata ?rest)) \<and>
          (blocks_fit cc be (length (sdata cBuf)) \<longleftrightarrow> blocks_fit cc be (length (sdata ?rest)))"
        using body_len_step [OF less.prems(1), of "length (sdata cBuf)" "length (sdata s)"] d(2) None False
        by (simp add: min.commute)
      then have "err' = None \<longrightarrow> length (sdata out) = length (sdata pBuf) + body_len cc be (length (sdata cBuf)) \<and>
          blocks_fit cc be (length (sdata cBuf))"
        using r(5) body_len_same [OF sp] by simp
      moreover have "DecryptBlocks_loop P be cBuf k fileID pBuf err = Inr (out, err', be')"
        using unfold False n d(1) None pool(1) r(1) by (simp add: Let_def)
      ultimately show ?thesis
        using r same_params_trans [OF sp r(3)] by blast
    qed
  qed
qed

text \<open>
  A plaintext cut into blocks: all but the last are full, none is empty. A run of sealed
  blocks has one sealed block for each, under consecutive block numbers; a stored run may have
  holes among them.
\<close>

fun well_blocked :: "nat \<Rightarrow> bytes list \<Rightarrow> bool" where
  "well_blocked p [] \<longleftrightarrow> True"
| "well_blocked p [b] \<longleftrightarrow> 0 < length b \<and> length b \<le> p"
| "well_blocked p (b # bs) \<longleftrightarrow> 0 < length b \<and> length b = p \<and> well_blocked p bs"

fun sealed_run :: "prims \<Rightarrow> CryptoCore \<Rightarrow> bytes option \<Rightarrow> u64 \<Rightarrow> bytes list \<Rightarrow> bytes list \<Rightarrow> bool" where
  "sealed_run P cc fileID k [] [] \<longleftrightarrow> True"
| "sealed_run P cc fileID k (p # ps) (c # cs) \<longleftrightarrow>
     sealed_block P cc fileID k p c \<and> sealed_run P cc fileID (k + 1) ps cs"
| "sealed_run P cc fileID k _ _ \<longleftrightarrow> False"

fun stored_run :: "nat \<Rightarrow> prims \<Rightarrow> CryptoCore \<Rightarrow> bytes option \<Rightarrow> u64 \<Rightarrow> bytes list \<Rightarrow> bytes list \<Rightarrow> bool" where
  "stored_run n P cc fileID k [] [] \<longleftrightarrow> True"
| "stored_run n P cc fileID k (p # ps) (c # cs) \<longleftrightarrow>
     stored_block n P cc fileID k p c \<and> stored_run n P cc fileID (k + 1) ps cs"
| "stored_run n P cc fileID k _ _ \<longleftrightarrow> False"

lemma sealed_run_stored: "sealed_run P cc fileID k ps cs \<Longrightarrow> stored_run n P cc fileID k ps cs"
  by (induction P cc fileID k ps cs rule: sealed_run.induct) (auto simp: stored_block_def)

lemma well_blocked_set: "well_blocked p bs \<Longrightarrow> b \<in> set bs \<Longrightarrow> 0 < length b \<and> length b \<le> p"
  by (induction p bs rule: well_blocked.induct) auto

lemma well_blocked_tl: "well_blocked p (b # bs) \<Longrightarrow> well_blocked p bs"
  by (cases bs) auto

lemma well_blocked_full: "well_blocked p (b # bs) \<Longrightarrow> bs \<noteq> [] \<Longrightarrow> length b = p"
  by (cases bs) auto

lemma sealed_run_nth:
  assumes "length cs = length ps"
    and "\<And>i. i < length ps \<Longrightarrow> sealed_block P cc fileID (k + word_of_nat i) (ps ! i) (cs ! i)"
  shows "sealed_run P cc fileID k ps cs"
  using assms
proof (induction ps arbitrary: k cs)
  case Nil
  then show ?case by simp
next
  case (Cons p ps)
  then obtain c cs' where cs: "cs = c # cs'" "length cs' = length ps"
    by (cases cs) auto
  have "sealed_run P cc fileID (k + 1) ps cs'"
  proof (rule Cons.IH [OF cs(2)])
    fix i
    assume "i < length ps"
    then show "sealed_block P cc fileID (k + 1 + word_of_nat i) (ps ! i) (cs' ! i)"
      using Cons.prems(2) [of "Suc i"] cs(1) by (simp add: add.assoc)
  qed
  then show ?case
    using Cons.prems(2) [of 0] cs(1) by simp
qed

lemma DecryptBlocks_loop_stored:
  assumes "enc_ok cc be" "fid_ok fileID" "well_blocked (unat (plainBS be)) ps"
    "stored_run (unat (plainBS be)) P cc fileID k ps cs" "sdata cBuf = concat cs"
  shows "\<exists>out be'. DecryptBlocks_loop P be cBuf k fileID pBuf None = Inr (out, None, be') \<and>
      sdata out = sdata pBuf @ concat ps \<and> enc_ok cc be' \<and> same_params be be'"
  using assms
proof (induction ps arbitrary: be k cs cBuf pBuf)
  case Nil
  then have "cs = []"
    by (cases cs) auto
  then show ?case
    using Nil by (subst DecryptBlocks_loop.simps) simp
next
  case (Cons p ps)
  then obtain c cs' where cs: "cs = c # cs'" and c: "stored_block (unat (plainBS be)) P cc fileID k p c"
    and run: "stored_run (unat (plainBS be)) P cc fileID (k + 1) ps cs'"
    by (cases cs) auto
  have p: "0 < length p" "length p \<le> unat (plainBS be)"
    using well_blocked_set [OF Cons.prems(3)] by auto
  have lc: "length c = length p + IVLen cc + 16"
    using stored_block_length [OF c] by (simp add: AuthTagLen_def)
  let ?n = "unat (cipherBS be)"
  let ?c = "cBuf\<lparr>sdata := take ?n (sdata cBuf)\<rparr>"
  let ?rest = "\<lparr>sdata = drop ?n (sdata cBuf), scap = scap cBuf - ?n\<rparr>"
  have split: "take ?n (sdata cBuf) = c" "drop ?n (sdata cBuf) = concat cs'"
  proof -
    have "length c = ?n \<or> length c \<le> ?n \<and> cs' = []"
    proof (cases "ps = []")
      case True
      then show ?thesis
        using run p lc Cons.prems(1) by (cases cs') (simp_all add: enc_ok_def)
    next
      case False
      then show ?thesis
        using well_blocked_full [OF Cons.prems(3)] lc Cons.prems(1) by (simp add: enc_ok_def)
    qed
    then show "take ?n (sdata cBuf) = c" "drop ?n (sdata cBuf) = concat cs'"
      using Cons.prems(5) cs by auto
  qed
  have "stored_block (unat (plainBS be)) P cc fileID k p (sdata ?c)"
    using c split by simp
  then obtain s be1 where d: "DecryptBlock P be ?c k fileID = Inr (s, None, be1)"
    "sdata s = p" "scap s = unat (plainBS be)" "enc_ok cc be1" "same_params be be1"
    using DecryptBlock_stored [OF Cons.prems(1,2) _ p] by metis
  have "scap s = unat (plainBS be1)"
    using d by (simp add: same_params_def)
  with d(4) obtain pool where pool: "bPool_Put (pBlockPool be1) s = Inr pool"
    "enc_ok cc (be1\<lparr>pBlockPool := pool\<rparr>)" "same_params be1 (be1\<lparr>pBlockPool := pool\<rparr>)"
    by (rule pBlockPool_Put)
  have sp: "same_params be (be1\<lparr>pBlockPool := pool\<rparr>)"
    using d(5) pool(3) by (rule same_params_trans)
  have "well_blocked (unat (plainBS (be1\<lparr>pBlockPool := pool\<rparr>))) ps"
    using well_blocked_tl [OF Cons.prems(3)] sp by (simp add: same_params_def)
  moreover have "stored_run (unat (plainBS (be1\<lparr>pBlockPool := pool\<rparr>))) P cc fileID (k + 1) ps cs'"
    using run sp by (simp add: same_params_def)
  moreover have "sdata ?rest = concat cs'"
    by (simp add: split)
  ultimately obtain out be' where r:
    "DecryptBlocks_loop P (be1\<lparr>pBlockPool := pool\<rparr>) ?rest (k + 1) fileID (buffer_Write pBuf (sdata s)) None
       = Inr (out, None, be')" "sdata out = sdata (buffer_Write pBuf (sdata s)) @ concat ps"
    "enc_ok cc be'" "same_params (be1\<lparr>pBlockPool := pool\<rparr>) be'"
    using Cons.IH [OF pool(2) Cons.prems(2)] by blast
  have "sdata cBuf \<noteq> []"
    using split(1) p lc by auto
  then have "DecryptBlocks_loop P be cBuf k fileID pBuf None = Inr (out, None, be')"
    using enc_ok_cipherBS [OF Cons.prems(1)] d(1) pool(1) r(1)
    by (subst DecryptBlocks_loop.simps) (simp add: Let_def)
  then show ?case
    using r d(2) same_params_trans [OF sp r(4)] by simp
qed

section \<open>The goroutines of an encryption\<close>

text \<open>
  Go may interleave the goroutines in any way that keeps the order of each one's own tasks.
\<close>

definition fair_sched :: "(enc_task list list \<Rightarrow> enc_task list) \<Rightarrow> bool" where
  "fair_sched sched \<longleftrightarrow> (\<forall>a b. sched [a] = a \<and> sched [a, b] \<in> shuffles a b)"

lemma group_tasks_range:
  "group_tasks k low high = map (\<lambda>j. (j, k + word_of_nat j)) [low..<high]"
proof -
  have "[low..<high] = map ((+) low) [0..<high - low]"
    by (rule nth_equalityI) simp_all
  then show ?thesis
    by (simp add: group_tasks_def add.assoc)
qed

lemma encrypt_order_mset:
  assumes "fair_sched sched" "0 < numCPU"
  shows "mset (encrypt_order sched numCPU n k) = mset (group_tasks k 0 n)"
proof (cases "numCPU = 1")
  case True
  then show ?thesis
    using assms(1) by (simp add: encrypt_order_def encrypt_groups_def encryptMaxSplit_def fair_sched_def)
next
  case False
  then have "(if numCPU > encryptMaxSplit then encryptMaxSplit else numCPU) = 2"
    using assms(2) by (simp add: encryptMaxSplit_def)
  then have "encrypt_groups numCPU n k = [group_tasks k 0 (n div 2), group_tasks k (n div 2) n]"
    by (simp only: encrypt_groups_def Let_def) (simp add: upt_rec)
  moreover have "group_tasks k 0 (n div 2) @ group_tasks k (n div 2) n = group_tasks k 0 n"
    using upt_add_eq_append [of 0 "n div 2" "n - n div 2"]
    by (simp add: group_tasks_range flip: map_append)
  moreover have "sched [group_tasks k 0 (n div 2), group_tasks k (n div 2) n]
      \<in> shuffles (group_tasks k 0 (n div 2)) (group_tasks k (n div 2) n)"
    using assms(1) by (simp add: fair_sched_def)
  ultimately show ?thesis
    using mset_shuffles by (fastforce simp: encrypt_order_def simp flip: mset_append)
qed

lemma encrypt_order_tasks:
  assumes "fair_sched sched" "0 < numCPU"
  shows "set (encrypt_order sched numCPU n k) = (\<lambda>j. (j, k + word_of_nat j)) ` {0..<n}"
    "distinct (map fst (encrypt_order sched numCPU n k))"
    "length (encrypt_order sched numCPU n k) = n"
    "mset (map fst (encrypt_order sched numCPU n k)) = mset [0..<n]"
proof -
  let ?o = "encrypt_order sched numCPU n k"
  have m: "mset ?o = mset (group_tasks k 0 n)"
    using assms by (rule encrypt_order_mset)
  then show "set ?o = (\<lambda>j. (j, k + word_of_nat j)) ` {0..<n}"
    using mset_eq_setD [OF m] by (simp add: group_tasks_range)
  show "length ?o = n"
    using mset_eq_length [OF m] by (simp add: group_tasks_range)
  have "mset (map fst ?o) = mset (map fst (group_tasks k 0 n))"
    using m by simp
  also have "map fst (group_tasks k 0 n) = [0..<n]"
    by (simp add: group_tasks_range comp_def)
  finally show fst: "mset (map fst ?o) = mset [0..<n]" .
  then show "distinct (map fst ?o)"
    using mset_eq_imp_distinct_iff by (metis distinct_upt)
qed

lemma EncryptBlock_seals:
  assumes "enc_ok cc be" "core_aead P cc" "fid_ok fileID"
    and "prefetch_read rp (IVLen cc) = Inr (nonce, rp')" "length nonce = IVLen cc"
      "nonce \<noteq> replicate (IVLen cc) 0"
    and "0 < length (sdata pt)" "length (sdata pt) \<le> unat (plainBS be)"
  obtains c be' where "EncryptBlock P be pt k fileID rp = Inr (c, be', rp')"
    "scap c = unat (cipherBS be)" "sealed_block P cc fileID k (sdata pt) (sdata c)"
    "take (IVLen cc) (sdata c) = nonce" "enc_ok cc be'" "same_params be be'"
proof -
  obtain c be' where "doEncryptBlock P be pt k fileID nonce = Inr (c, be')"
    "scap c = unat (cipherBS be)" "sealed_block P cc fileID k (sdata pt) (sdata c)"
    "take (IVLen cc) (sdata c) = nonce" "enc_ok cc be'" "same_params be be'"
    using doEncryptBlock_seals [OF assms(1-3,5-8)] by metis
  then show thesis
    using that assms(1,4) by (simp add: EncryptBlock_def nonceGenerator_Get_def enc_ok_def)
qed

lemma prefetch_read_length: "prefetch_read r w = Inr (out, r') \<Longrightarrow> length out = w"
  by (auto simp: prefetch_read_def Let_def split: prod.splits if_splits)

text \<open>
  After the tasks have run, in whatever order, every slot holds the sealed block of its number,
  and the nonces are the ones drawn from the source, one for each task.
\<close>

lemma doEncryptBlocks_seals:
  assumes "enc_ok cc be" "core_aead P cc" "fid_ok fileID"
    and "distinct (map fst tasks)" "\<forall>t \<in> set tasks. fst t < length out"
    and "\<forall>t \<in> set tasks. 0 < length (sdata (ins ! fst t)) \<and> length (sdata (ins ! fst t)) \<le> unat (plainBS be)"
    and "prefetch_reads rp (replicate (length tasks) (IVLen cc)) = Inr (nonces, rp')"
    and "replicate (IVLen cc) 0 \<notin> set nonces"
  shows "\<exists>out' be'. doEncryptBlocks P ins fileID tasks (out, be, rp) = Inr (out', be', rp') \<and>
      length out' = length out \<and>
      (\<forall>(slot, no) \<in> set tasks. scap (out' ! slot) = unat (cipherBS be) \<and>
         sealed_block P cc fileID no (sdata (ins ! slot)) (sdata (out' ! slot))) \<and>
      (\<forall>slot. slot \<notin> fst ` set tasks \<longrightarrow> out' ! slot = out ! slot) \<and>
      map (\<lambda>t. take (IVLen cc) (sdata (out' ! fst t))) tasks = nonces \<and>
      enc_ok cc be' \<and> same_params be be'"
  using assms
proof (induction tasks arbitrary: out be rp nonces)
  case Nil
  then show ?case by simp
next
  case (Cons t tasks)
  obtain slot no where t: "t = (slot, no)"
    by (cases t)
  obtain nonce rp1 ns where n: "prefetch_read rp (IVLen cc) = Inr (nonce, rp1)"
    "prefetch_reads rp1 (replicate (length tasks) (IVLen cc)) = Inr (ns, rp')" "nonces = nonce # ns"
    using Cons.prems(7) by (auto split: sum.splits prod.splits)
  have "0 < length (sdata (ins ! slot))" "length (sdata (ins ! slot)) \<le> unat (plainBS be)"
    "nonce \<noteq> replicate (IVLen cc) 0"
    using Cons.prems(6,8) t n(3) by auto
  then obtain c be1 where c: "EncryptBlock P be (ins ! slot) no fileID rp = Inr (c, be1, rp1)"
    "scap c = unat (cipherBS be)" "sealed_block P cc fileID no (sdata (ins ! slot)) (sdata c)"
    "take (IVLen cc) (sdata c) = nonce" "enc_ok cc be1" "same_params be be1"
    using EncryptBlock_seals [OF Cons.prems(1-3) n(1) prefetch_read_length [OF n(1)]] by metis
  have "\<forall>t\<in>set tasks. 0 < length (sdata (ins ! fst t)) \<and> length (sdata (ins ! fst t)) \<le> unat (plainBS be1)"
    using Cons.prems(6) c(6) by (simp add: same_params_def)
  then obtain out' be' where r:
    "doEncryptBlocks P ins fileID tasks (out[slot := c], be1, rp1) = Inr (out', be', rp')"
    "length out' = length out"
    "\<forall>(slot, no) \<in> set tasks. scap (out' ! slot) = unat (cipherBS be1) \<and>
       sealed_block P cc fileID no (sdata (ins ! slot)) (sdata (out' ! slot))"
    "\<forall>s. s \<notin> fst ` set tasks \<longrightarrow> out' ! s = out[slot := c] ! s"
    "map (\<lambda>t. take (IVLen cc) (sdata (out' ! fst t))) tasks = ns"
    "enc_ok cc be'" "same_params be1 be'"
    using Cons.IH [OF c(5) Cons.prems(2,3) _ _ _ n(2), of "out[slot := c]"] Cons.prems(4,5,8) n(3) by force
  have hd: "out' ! slot = c"
    using r(4) Cons.prems(4,5) t by (simp add: image_iff)
  have "\<forall>s. s \<notin> fst ` set (t # tasks) \<longrightarrow> out' ! s = out ! s"
    using r(4) t by auto
  moreover have "\<forall>(slot, no) \<in> set (t # tasks). scap (out' ! slot) = unat (cipherBS be) \<and>
       sealed_block P cc fileID no (sdata (ins ! slot)) (sdata (out' ! slot))"
    using r(3) hd c t by (auto simp: same_params_def)
  ultimately show ?case
    using r c(1,4) t hd n(3) same_params_trans [OF c(6) r(7)] by auto
qed

lemma join_blocks_ok:
  assumes "pool_inv pool" "\<forall>v \<in> set vs. scap v = sliceLen pool"
  shows "\<exists>out' pool'. join_blocks pool vs out = Inr (out', pool') \<and>
      sdata out' = sdata out @ concat (map sdata vs) \<and> pool_inv pool' \<and> sliceLen pool' = sliceLen pool"
  using assms
proof (induction vs arbitrary: pool out)
  case Nil
  then show ?case by simp
next
  case (Cons v vs)
  obtain pool1 where p: "bPool_Put pool v = Inr pool1" "pool_inv pool1" "sliceLen pool1 = sliceLen pool"
    using bpool.putE [OF Cons.prems(1)] Cons.prems(2) by (metis list.set_intros(1))
  then show ?case
    using Cons.IH [OF p(2), of "buffer_Write out (sdata v)"] Cons.prems(2) by auto
qed

lemma EncryptBlocks_seals:
  assumes "enc_ok cc be" "core_aead P cc" "fid_ok fileID" "fair_sched sched" "0 < numCPU"
    and "\<forall>b \<in> set blocks. 0 < length (sdata b) \<and> length (sdata b) \<le> unat (plainBS be)"
    and "prefetch_reads rp (replicate (length blocks) (IVLen cc)) = Inr (nonces, rp')"
    and "replicate (IVLen cc) 0 \<notin> set nonces"
  shows "\<exists>out cs be'. EncryptBlocks P sched numCPU be blocks k fileID rp = Inr (out, be', rp') \<and>
      sdata out = concat cs \<and> sealed_run P cc fileID k (map sdata blocks) cs \<and>
      mset (map (take (IVLen cc)) cs) = mset nonces \<and> enc_ok cc be' \<and> same_params be be'"
proof -
  let ?n = "length blocks"
  let ?o = "encrypt_order sched numCPU ?n k"
  note o = encrypt_order_tasks [OF assms(4,5), of ?n k]
  have "\<forall>t \<in> set ?o. fst t < length (replicate ?n nil_slice)"
    "\<forall>t \<in> set ?o. 0 < length (sdata (blocks ! fst t)) \<and> length (sdata (blocks ! fst t)) \<le> unat (plainBS be)"
    using o(1) assms(6) by auto
  then obtain cs be1 where d: "doEncryptBlocks P blocks fileID ?o (replicate ?n nil_slice, be, rp) = Inr (cs, be1, rp')"
    "length cs = ?n"
    "\<forall>(slot, no) \<in> set ?o. scap (cs ! slot) = unat (cipherBS be) \<and>
         sealed_block P cc fileID no (sdata (blocks ! slot)) (sdata (cs ! slot))"
    "map (\<lambda>t. take (IVLen cc) (sdata (cs ! fst t))) ?o = nonces" "enc_ok cc be1" "same_params be be1"
    using doEncryptBlocks_seals [OF assms(1-3) o(2), of "replicate ?n nil_slice" blocks rp nonces rp']
      assms(7,8) o(3) by auto
  have sealed: "scap (cs ! i) = unat (cipherBS be)"
    "sealed_block P cc fileID (k + word_of_nat i) (sdata (blocks ! i)) (sdata (cs ! i))" if "i < ?n" for i
    using d(3) that by (auto simp: o(1))
  have run: "sealed_run P cc fileID k (map sdata blocks) (map sdata cs)"
    by (rule sealed_run_nth) (use d(2) sealed(2) in simp_all)
  from o(4) have "mset (map (\<lambda>i. take (IVLen cc) (sdata (cs ! i))) (map fst ?o)) =
      mset (map (\<lambda>i. take (IVLen cc) (sdata (cs ! i))) [0..<?n])"
    by (simp only: mset_map)
  also have "map (\<lambda>i. take (IVLen cc) (sdata (cs ! i))) [0..<?n] = map (take (IVLen cc)) (map sdata cs)"
    using d(2) by (intro nth_equalityI) simp_all
  finally have nonces: "mset (map (take (IVLen cc)) (map sdata cs)) = mset nonces"
    using d(4) by (simp add: comp_def)
  obtain pool where pool: "bPool_Get (CReqPool be1) = Inr (sliceLen (CReqPool be1), pool)" "pool_inv pool"
      "sliceLen pool = sliceLen (CReqPool be1)"
    using bpool.getE [of "CReqPool be1"] d(5) by (auto simp: enc_ok_def pools_ok_def)
  have "pool_inv (cBlockPool be1)" "\<forall>v \<in> set cs. scap v = sliceLen (cBlockPool be1)"
    using d sealed(1) by (auto simp: enc_ok_def pools_ok_def same_params_def in_set_conv_nth)
  then obtain out cpool where j:
    "join_blocks (cBlockPool be1) cs \<lparr>sdata = [], scap = sliceLen (CReqPool be1)\<rparr> = Inr (out, cpool)"
    "sdata out = concat (map sdata cs)" "pool_inv cpool" "sliceLen cpool = sliceLen (cBlockPool be1)"
    using join_blocks_ok [of "cBlockPool be1" cs] by fastforce
  let ?be = "be1\<lparr>CReqPool := pool, cBlockPool := cpool\<rparr>"
  have sp: "same_params be1 ?be"
    using pool(3) by (simp add: same_params_def)
  have "pools_ok ?be"
    using d(5) pool j by (simp add: enc_ok_def pools_ok_def)
  note ok = enc_ok_same_params [OF d(5) sp this] same_params_trans [OF d(6) sp]
  have "EncryptBlocks P sched numCPU be blocks k fileID rp = Inr (out, ?be, rp')"
    using d(1) pool(1) j(1) by (simp add: EncryptBlocks_def)
  then show ?thesis
    using run nonces j(2) ok by blast
qed

lemma DecryptBlocks_unfold:
  assumes "enc_ok cc be"
  obtains pool where "DecryptBlocks P be c k fileID =
      DecryptBlocks_loop P (be\<lparr>PReqPool := pool\<rparr>) c k fileID \<lparr>sdata = [], scap = sliceLen (PReqPool be)\<rparr> None"
    "enc_ok cc (be\<lparr>PReqPool := pool\<rparr>)" "same_params be (be\<lparr>PReqPool := pool\<rparr>)"
proof -
  obtain pool where "bPool_Get (PReqPool be) = Inr (sliceLen (PReqPool be), pool)" "pool_inv pool"
    "sliceLen pool = sliceLen (PReqPool be)"
    using bpool.getE [of "PReqPool be"] assms by (auto simp: enc_ok_def pools_ok_def)
  then show thesis
    using that assms by (simp add: DecryptBlocks_def enc_ok_def pools_ok_def same_params_def)
qed

lemma DecryptBlocks_stored:
  assumes "enc_ok cc be" "fid_ok fileID" "well_blocked (unat (plainBS be)) ps"
    "stored_run (unat (plainBS be)) P cc fileID k ps cs" "sdata c = concat cs"
  shows "\<exists>out be'. DecryptBlocks P be c k fileID = Inr (out, None, be') \<and>
      sdata out = concat ps \<and> enc_ok cc be' \<and> same_params be be'"
proof -
  obtain pool where p: "DecryptBlocks P be c k fileID =
      DecryptBlocks_loop P (be\<lparr>PReqPool := pool\<rparr>) c k fileID \<lparr>sdata = [], scap = sliceLen (PReqPool be)\<rparr> None"
    "enc_ok cc (be\<lparr>PReqPool := pool\<rparr>)" "same_params be (be\<lparr>PReqPool := pool\<rparr>)"
    using DecryptBlocks_unfold [OF assms(1)] by metis
  then show ?thesis
    using DecryptBlocks_loop_stored [OF p(2) assms(2) _ _ assms(5),
        of ps P k "\<lparr>sdata = [], scap = sliceLen (PReqPool be)\<rparr>"] assms(3,4) same_params_trans [OF p(3)]
    by auto
qed

lemma DecryptBlocks_total:
  assumes "enc_ok cc be" "core_aead P cc" "fid_ok fileID" "\<not> forceDecode be"
  shows "\<exists>out err be'. DecryptBlocks P be c k fileID = Inr (out, err, be') \<and>
      enc_ok cc be' \<and> same_params be be' \<and> sliceLen (PReqPool be) \<le> scap out \<and>
      (err = None \<longrightarrow> length (sdata out) = body_len cc be (length (sdata c)) \<and>
        blocks_fit cc be (length (sdata c)))"
proof -
  obtain pool where p: "DecryptBlocks P be c k fileID =
      DecryptBlocks_loop P (be\<lparr>PReqPool := pool\<rparr>) c k fileID \<lparr>sdata = [], scap = sliceLen (PReqPool be)\<rparr> None"
    "enc_ok cc (be\<lparr>PReqPool := pool\<rparr>)" "same_params be (be\<lparr>PReqPool := pool\<rparr>)"
    using DecryptBlocks_unfold [OF assms(1)] by metis
  have "\<not> forceDecode (be\<lparr>PReqPool := pool\<rparr>)"
    using assms(4) by simp
  then obtain out err be' where r: "DecryptBlocks P be c k fileID = Inr (out, err, be')" "enc_ok cc be'"
    "same_params (be\<lparr>PReqPool := pool\<rparr>) be'" "sliceLen (PReqPool be) \<le> scap out"
    "err = None \<longrightarrow> length (sdata out) = body_len cc (be\<lparr>PReqPool := pool\<rparr>) (length (sdata c)) \<and>
       blocks_fit cc (be\<lparr>PReqPool := pool\<rparr>) (length (sdata c))"
    using DecryptBlocks_loop_total [OF p(2) assms(2,3), of "sliceLen (PReqPool be)"
        "\<lparr>sdata = [], scap = sliceLen (PReqPool be)\<rparr>" c k None] p(1) by auto
  then show ?thesis
    using same_params_trans [OF p(3) r(3)] body_len_same [OF p(3)] by auto
qed

section \<open>Correctness\<close>

lemma enc_ok_file_enc:
  "IVLen cc = 16 \<Longrightarrow> nonceLen (IVGenerator cc) = 16 \<Longrightarrow> enc_ok cc (file_enc cc)"
  by (simp add: enc_ok_def pools_ok_def file_enc_def newBPool_def pool_inv_def)

lemma core_aead_demo: "core_aead P demo_core"
  using demo_aead.aead_axioms by (simp add: demo_core_def)

lemma append_in_shuffles: "xs @ ys \<in> shuffles xs ys"
proof (induction xs)
  case (Cons x xs)
  then show ?case by (cases ys) auto
qed simp

lemma fair_sched_concat: "fair_sched concat"
  by (simp add: fair_sched_def append_in_shuffles)

definition demo_rp :: randPrefetcherT where
  "demo_rp = \<lparr>pf_buf = [], refill = (\<lambda>i. replicate 512 1), refills = 0\<rparr>"

lemma demo_rp_reads:
  "\<exists>rp'. prefetch_reads demo_rp [16, 16] = Inr ([replicate 16 1, replicate 16 1], rp')"
  by (simp add: demo_rp_def prefetch_read_def prefetchN_def buffer_Read_def Let_def)

text \<open>
  C13: encrypting a run of plaintext blocks and decrypting the result returns the plaintext,
  for any way in which the goroutines interleave: with a working cipher, non-zero nonces and
  blocks of which all but the last are full, neither operation panics, every nonce drawn is
  used for exactly one block, the pools stay consistent, and the decrypted bytes are the
  concatenated blocks.
\<close>

theorem EncryptBlocks_DecryptBlocks:
  assumes "enc_ok cc be" and "core_aead P cc" and "fid_ok fileID" and "fair_sched sched" and "0 < numCPU"
    and "well_blocked (unat (plainBS be)) (map sdata blocks)"
    and "prefetch_reads rp (replicate (length blocks) (IVLen cc)) = Inr (nonces, rp')"
    and "replicate (IVLen cc) 0 \<notin> set nonces"
  shows "\<exists>out cs be1 pt be2.
      EncryptBlocks P sched numCPU be blocks firstBlockNo fileID rp = Inr (out, be1, rp') \<and> enc_ok cc be1 \<and>
      sdata out = concat cs \<and> mset (map (take (IVLen cc)) cs) = mset nonces \<and>
      DecryptBlocks P be1 out firstBlockNo fileID = Inr (pt, None, be2) \<and> enc_ok cc be2 \<and>
      sdata pt = concat (map sdata blocks)"
proof -
  have "\<forall>b \<in> set blocks. 0 < length (sdata b) \<and> length (sdata b) \<le> unat (plainBS be)"
    using well_blocked_set [OF assms(6)] by simp
  then obtain out cs be1 where e: "EncryptBlocks P sched numCPU be blocks firstBlockNo fileID rp = Inr (out, be1, rp')"
    "sdata out = concat cs" "sealed_run P cc fileID firstBlockNo (map sdata blocks) cs"
    "mset (map (take (IVLen cc)) cs) = mset nonces" "enc_ok cc be1" "same_params be be1"
    using EncryptBlocks_seals [OF assms(1-5) _ assms(7,8)] by blast
  have "well_blocked (unat (plainBS be1)) (map sdata blocks)"
    using assms(6) e(6) by (simp add: same_params_def)
  then show ?thesis
    using DecryptBlocks_stored [OF e(5) assms(3) _ sealed_run_stored [OF e(3)] e(2)] e by blast
qed

theorem EncryptBlocks_DecryptBlocks_witness:
  "\<exists>out be1 rp' pt be2.
     EncryptBlocks demo_prims concat 8 (file_enc demo_core)
       [make_slice 4096, \<lparr>sdata = [1, 2, 3], scap = 3\<rparr>] 7 None demo_rp = Inr (out, be1, rp') \<and>
     DecryptBlocks demo_prims be1 out 7 None = Inr (pt, None, be2) \<and>
     sdata pt = replicate 4096 0 @ [1, 2, 3]"
proof -
  let ?blocks = "[make_slice 4096, \<lparr>sdata = [1, 2, 3], scap = 3\<rparr>]"
  obtain rp' where rp: "prefetch_reads demo_rp [16, 16] = Inr ([replicate 16 1, replicate 16 1], rp')"
    using demo_rp_reads by blast
  have "enc_ok demo_core (file_enc demo_core)"
    by (simp add: enc_ok_file_enc demo_core_def)
  moreover have "well_blocked (unat (plainBS (file_enc demo_core))) (map sdata ?blocks)"
    by (simp add: file_enc_def make_slice_def)
  moreover have "prefetch_reads demo_rp (replicate (length ?blocks) (IVLen demo_core)) =
      Inr ([replicate 16 1, replicate 16 1], rp')"
    using rp by (simp add: demo_core_def)
  moreover have "replicate (IVLen demo_core) 0 \<notin> set [replicate 16 (1 :: byte), replicate 16 1]"
    by (simp add: demo_core_def replicate_eq_replicate)
  ultimately show ?thesis
    using EncryptBlocks_DecryptBlocks [OF _ core_aead_demo, of "file_enc demo_core" None concat 8 ?blocks
        demo_rp _ rp' demo_prims 7] fair_sched_concat
    by (force simp: fid_ok_def make_slice_def)
qed

text \<open>
  C24: decrypting any bytes whatsoever is safe: with a cipher that keeps its contract the loop
  ends without a panic, the pools stay consistent, and if no error is reported the plaintext has
  the length that the block structure of the ciphertext implies.
\<close>

theorem DecryptBlocks_safe:
  assumes "enc_ok cc be" and "core_aead P cc" and "fid_ok fileID" and "\<not> forceDecode be"
  shows "\<exists>out err be'. DecryptBlocks P be ciphertext firstBlockNo fileID = Inr (out, err, be') \<and>
      enc_ok cc be' \<and> (err = None \<longrightarrow> length (sdata out) = body_len cc be (length (sdata ciphertext)))"
  using DecryptBlocks_total [OF assms] by blast

theorem DecryptBlocks_safe_witness:
  "\<exists>out err be'. DecryptBlocks demo_prims (file_enc demo_core) \<lparr>sdata = [5, 6], scap = 2\<rparr> 0 None =
     Inr (out, err, be') \<and> enc_ok demo_core be' \<and>
     (err = None \<longrightarrow> length (sdata out) = body_len demo_core (file_enc demo_core) 2)"
proof -
  have "enc_ok demo_core (file_enc demo_core)" "\<not> forceDecode (file_enc demo_core)" "fid_ok None"
    by (simp_all add: enc_ok_file_enc demo_core_def fid_ok_def) (simp add: file_enc_def)
  then show ?thesis
    using DecryptBlocks_safe [OF _ core_aead_demo, of "file_enc demo_core" None demo_prims
        "\<lparr>sdata = [5, 6], scap = 2\<rparr>" 0] by (simp add: numeral_2_eq_2)
qed

text \<open>
  A block is bound to its position and its file: for legal file IDs the associated data of
  two blocks is the same only if both the block number and the file ID are the same.
\<close>

lemma concatAD_binds:
  assumes "fid_ok a" and "fid_ok b"
  shows "concatAD k a = concatAD l b \<longleftrightarrow> k = l \<and> a = b"
  using assms by (auto simp: concatAD_ok block_ad_def fid_ok_def headerIDLen_def split: option.splits
      dest: arg_cong [of _ _ length])

lemma concatAD_binds_witness:
  "concatAD 1 (Some (replicate 16 5)) \<noteq> concatAD 2 (Some (replicate 16 5))"
  using concatAD_binds [of "Some (replicate 16 5)" "Some (replicate 16 5)" 1 2]
  by (simp add: fid_ok_def headerIDLen_def)

lemma length_copy_at [simp]: "at \<le> length dst \<Longrightarrow> length (copy_at dst at src) = length dst"
  by (simp add: copy_at_def Let_def)

lemma nth_copy_at:
  assumes "i < length dst" "at + length src \<le> length dst"
  shows "copy_at dst at src ! i = (if at \<le> i \<and> i < at + length src then src ! (i - at) else dst ! i)"
  using assms by (auto simp: copy_at_def Let_def nth_append min_def)

text \<open>
  Merging writes exactly the new bytes: when the new data ends inside the block and the
  old data is no longer than a block, the result is as long as the longer of the two, holds
  the new data at the offset, the old data elsewhere, and zeros in a gap between them.
\<close>

lemma MergeBlocks_merges:
  assumes "length oldData \<le> unat (plainBS be)" and "offset + length newData \<le> unat (plainBS be)"
  shows "\<exists>out. MergeBlocks be oldData newData (int offset) = Inr out \<and>
      length out = max (length oldData) (offset + length newData) \<and>
      (\<forall>i < length out. out ! i =
         (if offset \<le> i \<and> i < offset + length newData then newData ! (i - offset)
          else if i < length oldData then oldData ! i else 0))"
proof (cases "oldData = [] \<and> offset = 0")
  case True
  then show ?thesis by (simp add: MergeBlocks_def)
next
  case False
  define p where "p = unat (plainBS be)"
  define out where "out = copy_at (copy_at (replicate p 0) 0 oldData) offset newData"
  define n where "n = max (length oldData) (offset + length newData)"
  have p: "length oldData \<le> p" "offset + length newData \<le> p"
    using assms by (simp_all add: p_def)
  have len: "length out = p"
    using p by (simp add: out_def)
  have "MergeBlocks be oldData newData (int offset) = Inr (take n out)"
    unfolding MergeBlocks_def p_def [symmetric]
    using False p len by (auto simp: Let_def n_def max_def out_def)
  moreover have "take n out ! i =
         (if offset \<le> i \<and> i < offset + length newData then newData ! (i - offset)
          else if i < length oldData then oldData ! i else 0)" if "i < n" for i
    using that p by (simp add: out_def n_def nth_copy_at)
  moreover have "length (take n out) = n"
    using p len by (simp add: n_def)
  ultimately show ?thesis
    by (auto simp: n_def)
qed

lemma MergeBlocks_merges_witness:
  "\<exists>out. MergeBlocks (file_enc demo_core) [1, 2] [9] 3 = Inr out \<and> length out = 4"
  using MergeBlocks_merges [of "[1, 2]" "file_enc demo_core" 3 "[9]"] by (auto simp: file_enc_def)

text \<open>A wiped encrypter cannot be used any more.\<close>

lemma ContentEnc_Wipe_unusable:
  "ContentEnc_Wipe be = Inr be' \<Longrightarrow> EncryptBlock P be' pt k fileID rp = Inl (Panic NilDeref)"
  by (auto simp: ContentEnc_Wipe_def EncryptBlock_def split: option.splits sum.splits)

text \<open>
  An empty plaintext block comes back as it is, whatever its slice, so that returning it to
  the pool of ciphertext blocks panics unless its capacity happens to match.
\<close>

lemma EncryptBlock_empty_put:
  assumes "sdata pt = []" "scap pt \<noteq> sliceLen pool"
  shows "doEncryptBlock P be pt k fileID nonce = Inr (pt, be)" "panics (bPool_Put pool pt)"
  using assms by (simp_all add: doEncryptBlock_def bPool_Put_def)

end
