(* ===== verification/FileDecrypt.thy ===== *)
theory FileDecrypt
  imports ContentBlocks
begin

text \<open>
  \<^verbatim>\<open>filetree/decrypt.go\<close>: from the bytes of a file on the server to its plaintext. The file
  tree's methods only use its content encrypter, which is passed and returned; an error of the
  Go function is the left value of the inner sum.
\<close>

definition readFileID :: "bytes \<Rightarrow> bytes result" where
  "readFileID fileBytes =
     (if length fileBytes \<le> HeaderLen then Inl (Err IoEOF)
      else case ParseHeader (take HeaderLen fileBytes) of
          Inl f \<Rightarrow> Inl f
        | Inr h \<Rightarrow> Inr (hID h))"

definition decryptFile :: "prims \<Rightarrow> ContentEnc \<Rightarrow> gslice \<Rightarrow> ((goerr + bytes) \<times> ContentEnc) result" where
  "decryptFile P cEnc fileBytes =
     (case CipherSizeToPlainSize cEnc (word_of_nat (length (sdata fileBytes))) of
        Inl f \<Rightarrow> Inl f
      | Inr plainLength \<Rightarrow>
      case readFileID (sdata fileBytes) of
        Inl (Err e) \<Rightarrow> Inr (Inl e, cEnc)
      | Inl f \<Rightarrow> Inl f
      | Inr fileID \<Rightarrow>
      case ExplodePlainRange cEnc 0 plainLength of
        Inl f \<Rightarrow> Inl f
      | Inr [] \<Rightarrow> Inl (Panic IndexOutOfRange)
      | Inr (b0 # bs) \<Rightarrow>
      case JointCiphertextRange b0 (b0 # bs) of
        Inl f \<Rightarrow> Inl f
      | Inr (alignedOffset, _) \<Rightarrow>
      if unat alignedOffset > length (sdata fileBytes) then Inl (Panic SliceOutOfRange)
      else case DecryptBlocks P cEnc
             \<lparr>sdata = drop (unat alignedOffset) (sdata fileBytes), scap = scap fileBytes - unat alignedOffset\<rparr>
             (BlockNo b0) (Some fileID) of
        Inl f \<Rightarrow> Inl f
      | Inr (_, Some e, cEnc') \<Rightarrow> Inr (Inl e, cEnc')
      | Inr (plaintext, None, cEnc') \<Rightarrow>
          if scap plaintext > unat (MAX_KERNEL_WRITE + DefaultBS) then Inr (Inr (sdata plaintext), cEnc')
          else
            let plainBytes = copy_at (replicate (unat plainLength) 0) 0 (sdata plaintext) in
            case bPool_Put (PReqPool cEnc') plaintext of
              Inl f \<Rightarrow> Inl f
            | Inr pool \<Rightarrow> Inr (Inr plainBytes, cEnc'\<lparr>PReqPool := pool\<rparr>))"

section \<open>The encrypter of a file tree\<close>

text \<open>The invariant of the encrypter that \<^verbatim>\<open>filetree.Init\<close> builds; see \<open>file_enc\<close>.\<close>

definition tree_enc :: "CryptoCore \<Rightarrow> ContentEnc \<Rightarrow> bool" where
  "tree_enc cc be \<longleftrightarrow> enc_ok cc be \<and> plainBS be = 4096 \<and> IVLen cc = 16 \<and>
     sliceLen (PReqPool be) = 135168 \<and> \<not> forceDecode be"

lemma tree_enc_file_enc: "IVLen cc = 16 \<Longrightarrow> nonceLen (IVGenerator cc) = 16 \<Longrightarrow> tree_enc cc (file_enc cc)"
  by (simp add: tree_enc_def enc_ok_file_enc) (simp add: file_enc_def newBPool_def)

lemma tree_enc_same_params: "tree_enc cc be \<Longrightarrow> same_params be be' \<Longrightarrow> enc_ok cc be' \<Longrightarrow> tree_enc cc be'"
  by (simp add: tree_enc_def same_params_def)

lemma tree_enc_sizes:
  assumes "tree_enc cc be"
  shows "unat (plainBS be) = 4096" "unat (cipherBS be) = 4128" "sizes_ok be"
  using assms enc_ok_sizes [of cc be] by (simp_all add: tree_enc_def enc_ok_def)

lemma body_len_tree:
  "tree_enc cc be \<Longrightarrow> body_len cc be m = m div 4128 * 4096 + (m mod 4128 - 32)"
  "tree_enc cc be \<Longrightarrow> blocks_fit cc be m \<longleftrightarrow> m mod 4128 = 0 \<or> 32 \<le> m mod 4128"
  by (simp_all add: body_len_def blocks_fit_def tree_enc_sizes AuthTagLen_def) (simp_all add: tree_enc_def)

text \<open>
  The plaintext size that \<^verbatim>\<open>CipherSizeToPlainSize\<close> computes is the length of what
  \<^verbatim>\<open>DecryptBlocks\<close> yields.
\<close>

lemma overhead_arith:
  fixes q r :: nat
  assumes "0 < q * 4128 + r" "r < 4128" "r = 0 \<or> 32 \<le> r"
  shows "q * 4128 + r + 18 - (32 * ((q * 4128 + r - 1) div 4128 + 1) + 18) = q * 4096 + (r - 32)"
    "32 * ((q * 4128 + r - 1) div 4128 + 1) \<le> q * 4128 + r"
proof -
  have "(q * 4128 + r - 1) div 4128 = (if r = 0 then q - 1 else q)"
  proof (cases "r = 0")
    case True
    with assms(1) obtain q' where "q = Suc q'"
      by (cases q) auto
    with True show ?thesis by simp
  next
    case False
    then have "q * 4128 + r - 1 = q * 4128 + (r - 1)"
      by simp
    with False assms(2) show ?thesis by simp
  qed
  with assms show "q * 4128 + r + 18 - (32 * ((q * 4128 + r - 1) div 4128 + 1) + 18) = q * 4096 + (r - 32)"
    "32 * ((q * 4128 + r - 1) div 4128 + 1) \<le> q * 4128 + r"
    by auto
qed

lemma CipherSizeToPlainSize_ovh:
  assumes "tree_enc cc be" "18 < m" "m < 2 ^ 62"
  defines "ovh \<equiv> (32 :: nat) * ((m - 19) div 4128 + 1) + 18"
  obtains n where "CipherSizeToPlainSize be (word_of_nat m) = Inr n" "unat n = (if ovh > m then 0 else m - ovh)"
proof -
  have m: "unat (word_of_nat m :: u64) = m"
    using assms(3) by (intro unat_u64_of_nat) simp
  show thesis
  proof (rule CipherSizeToPlainSize_nat [of be "word_of_nat m"])
    show "sizes_ok be" "18 < unat (word_of_nat m :: u64)"
      using tree_enc_sizes(3) [OF assms(1)] assms(2) m by simp_all
    show "unat (word_of_nat m :: u64) + unat (cipherBS be) < 2 ^ 64"
      using tree_enc_sizes(2) [OF assms(1)] assms(3) m by simp
  qed (use that in \<open>simp only: m tree_enc_sizes [OF assms(1)] ovh_def\<close>, simp)
qed

lemma CipherSizeToPlainSize_body:
  assumes "tree_enc cc be" "18 < m" "m < 2 ^ 62"
  obtains n where "CipherSizeToPlainSize be (word_of_nat m) = Inr n" "unat n < 2 ^ 62"
    "blocks_fit cc be (m - 18) \<Longrightarrow> unat n = body_len cc be (m - 18)"
proof -
  define ovh where "ovh = (32 :: nat) * ((m - 19) div 4128 + 1) + 18"
  obtain n where n: "CipherSizeToPlainSize be (word_of_nat m) = Inr n"
    "unat n = (if ovh > m then 0 else m - ovh)"
    unfolding ovh_def using CipherSizeToPlainSize_ovh [OF assms] by blast
  moreover have "unat n < 2 ^ 62"
    using n(2) assms(3) by (cases "ovh > m") simp_all
  moreover have "unat n = body_len cc be (m - 18)" if "blocks_fit cc be (m - 18)"
  proof -
    define q r where "q = (m - 18) div 4128" and "r = (m - 18) mod 4128"
    have L: "m = q * 4128 + r + 18" "r < 4128"
      using assms(2) by (simp_all add: q_def r_def)
    have "r = 0 \<or> 32 \<le> r"
      using that body_len_tree(2) [OF assms(1)] by (simp add: r_def)
    note arith = overhead_arith [OF _ L(2) this, of q]
    have "ovh = 32 * ((q * 4128 + r - 1) div 4128 + 1) + 18"
      unfolding ovh_def L(1) by simp
    then have "unat n = q * 4096 + (r - 32)"
      using n(2) arith L(1) assms(2) by simp
    then show ?thesis
      using body_len_tree(1) [OF assms(1), of "m - 18"] by (simp add: q_def r_def)
  qed
  ultimately show thesis
    using that by blast
qed

section \<open>Decrypting a file\<close>

lemma first_block:
  assumes "tree_enc cc be" "n \<noteq> 0"
  obtains b bs where "ExplodePlainRange be 0 n = Inr (b # bs)" "BlockNo b = 0" "fs b = be"
proof -
  have nz: "plainBS be \<noteq> 0"
    using assms(1) by (simp add: tree_enc_def)
  have "unat (0 :: u64) + unat n < 2 ^ 64"
    by simp
  then obtain bs where bs: "ExplodePlainRange be 0 n = Inr bs"
    using range_split.split_splits [OF plain_range_split, of be 0 n] tree_enc_sizes(3) [OF assms(1)] by auto
  have "ExplodePlainRange be 0 n =
      (case ExplodePlainRange be (MinUint64 n (plainBS be)) (n - MinUint64 n (plainBS be)) of
         Inl f \<Rightarrow> Inl f
       | Inr bs \<Rightarrow> Inr (\<lparr>BlockNo = 0, Skip = 0, Length = MinUint64 n (plainBS be), fs = be\<rparr> # bs))"
    using assms(2) nz by (subst ExplodePlainRange.simps)
      (simp add: PlainOffToBlockNo_def BlockNoToPlainOff_def Let_def cong: sum.case_cong)
  with bs show thesis
    using that by (auto split: sum.splits)
qed

text \<open>What remains of \<^verbatim>\<open>decryptFile\<close> once the header has been parsed and the size is known.\<close>

lemma decryptFile_unfold:
  assumes "tree_enc cc be" "18 < length (sdata f)"
    and "CipherSizeToPlainSize be (word_of_nat (length (sdata f))) = Inr n" "n \<noteq> 0"
    and "ParseHeader (take 18 (sdata f)) = Inr h"
  shows "decryptFile P be f =
     (case DecryptBlocks P be \<lparr>sdata = drop 18 (sdata f), scap = scap f - 18\<rparr> 0 (Some (hID h)) of
        Inl f \<Rightarrow> Inl f
      | Inr (_, Some e, be') \<Rightarrow> Inr (Inl e, be')
      | Inr (plaintext, None, be') \<Rightarrow>
          if scap plaintext > 135168 then Inr (Inr (sdata plaintext), be')
          else case bPool_Put (PReqPool be') plaintext of
              Inl f \<Rightarrow> Inl f
            | Inr pool \<Rightarrow> Inr (Inr (copy_at (replicate (unat n) 0) 0 (sdata plaintext)), be'\<lparr>PReqPool := pool\<rparr>))"
proof -
  obtain b bs where b: "ExplodePlainRange be 0 n = Inr (b # bs)" "BlockNo b = 0" "fs b = be"
    using assms(1,4) by (rule first_block)
  have "\<exists>l. JointCiphertextRange b (b # bs) = Inr (18, l)"
    using b by (simp add: JointCiphertextRange_def BlockNoToCipherOff_def Let_def)
  then obtain l where "JointCiphertextRange b (b # bs) = Inr (18, l)"
    by blast
  moreover have "readFileID (sdata f) = Inr (hID h)"
    using assms(2,5) by (simp add: readFileID_def)
  ultimately show ?thesis
    using assms(2,3) b
    by (simp add: decryptFile_def MAX_KERNEL_WRITE_def DefaultBS_def Let_def
        cong: sum.case_cong prod.case_cong option.case_cong if_cong)
qed

lemma ParseHeader_fid: "ParseHeader buf = Inr h \<Longrightarrow> fid_ok (Some (hID h))"
  using file_header.dec_iff [of buf h] by (simp add: header_wf_def fid_ok_def)

lemma copy_whole: "length bs = n \<Longrightarrow> copy_at (replicate n 0) 0 bs = bs"
  by (simp add: copy_at_def)

lemma PReqPool_Put:
  assumes "tree_enc cc be" "scap s = 135168"
  obtains pool where "bPool_Put (PReqPool be) s = Inr pool" "tree_enc cc (be\<lparr>PReqPool := pool\<rparr>)"
proof -
  have "pool_inv (PReqPool be)" "scap s = sliceLen (PReqPool be)"
    using assms by (simp_all add: tree_enc_def enc_ok_def pools_ok_def)
  then obtain pool where "bPool_Put (PReqPool be) s = Inr pool" "pool_inv pool"
    "sliceLen pool = sliceLen (PReqPool be)"
    by (rule bpool.putE)
  then show thesis
    using that assms(1) by (simp add: tree_enc_def enc_ok_def pools_ok_def)
qed

text \<open>Both ways of handing out the plaintext return all of it.\<close>

lemma decryptFile_result:
  assumes be: "tree_enc cc be" "core_aead P cc" and len: "18 < length (sdata f)" "length (sdata f) < 2 ^ 62"
    and n: "CipherSizeToPlainSize be (word_of_nat (length (sdata f))) = Inr n" "n \<noteq> 0"
    and h: "ParseHeader (take 18 (sdata f)) = Inr h"
  obtains out err be' be'' where
    "DecryptBlocks P be \<lparr>sdata = drop 18 (sdata f), scap = scap f - 18\<rparr> 0 (Some (hID h)) = Inr (out, err, be')"
    "decryptFile P be f = Inr (case err of Some e \<Rightarrow> Inl e | None \<Rightarrow> Inr (sdata out), be'')"
    "tree_enc cc be''" "err = None \<longrightarrow> length (sdata out) = unat n"
proof -
  let ?c = "\<lparr>sdata = drop 18 (sdata f), scap = scap f - 18\<rparr>"
  have "enc_ok cc be" "\<not> forceDecode be" "sliceLen (PReqPool be) = 135168"
    using be(1) by (simp_all add: tree_enc_def)
  then obtain out err be' where d: "DecryptBlocks P be ?c 0 (Some (hID h)) = Inr (out, err, be')"
    "enc_ok cc be'" "same_params be be'" "135168 \<le> scap out"
    "err = None \<longrightarrow> length (sdata out) = body_len cc be (length (sdata f) - 18) \<and>
       blocks_fit cc be (length (sdata f) - 18)"
    using DecryptBlocks_total [OF _ be(2) ParseHeader_fid [OF h], of be ?c 0] by auto
  have te: "tree_enc cc be'"
    using be(1) d(3,2) by (rule tree_enc_same_params)
  have ln: "err = None \<Longrightarrow> length (sdata out) = unat n"
    using CipherSizeToPlainSize_body [OF be(1) len] n(1) d(5) by (metis sum.inject(2))
  note unfold = decryptFile_unfold [OF be(1) len(1) n h, of P]
  show thesis
  proof (cases err)
    case (Some e)
    then show thesis
      using that d(1) te unfold by simp
  next
    case None
    show thesis
    proof (cases "scap out > 135168")
      case True
      then show thesis
        using that d(1) te unfold ln None by simp
    next
      case False
      then have "scap out = 135168"
        using d(4) by simp
      with te obtain pool where "bPool_Put (PReqPool be') out = Inr pool" "tree_enc cc (be'\<lparr>PReqPool := pool\<rparr>)"
        by (rule PReqPool_Put)
      then show thesis
        using that d(1) unfold ln None False by (simp add: copy_whole)
    qed
  qed
qed

lemma decryptFile_cases:
  assumes "tree_enc cc be" and "core_aead P cc" and "length (sdata f) < 2 ^ 62"
  shows "\<exists>n. CipherSizeToPlainSize be (word_of_nat (length (sdata f))) = Inr n \<and>
     (if HeaderLen < length (sdata f) \<and> is_ok (ParseHeader (take HeaderLen (sdata f))) \<and> n = 0
      then decryptFile P be f = Inl (Panic IndexOutOfRange)
      else \<exists>r be'. decryptFile P be f = Inr (r, be') \<and> tree_enc cc be' \<and>
             (\<forall>plain. r = Inr plain \<longrightarrow> length plain = unat n))"
proof (cases "18 < length (sdata f)")
  case False
  have "unat (word_of_nat (length (sdata f)) :: u64) = length (sdata f)"
    using assms(3) by (intro unat_u64_of_nat) simp
  then obtain n where n: "CipherSizeToPlainSize be (word_of_nat (length (sdata f))) = Inr n"
    using False CipherSizeToPlainSize_short by simp
  then show ?thesis
    using False assms(1) by (simp add: decryptFile_def readFileID_def)
next
  case True
  obtain n where n: "CipherSizeToPlainSize be (word_of_nat (length (sdata f))) = Inr n"
    using CipherSizeToPlainSize_body [OF assms(1) True assms(3)] by blast
  consider (bad) e where "ParseHeader (take 18 (sdata f)) = Inl (Err e)"
    | (ok) h where "ParseHeader (take 18 (sdata f)) = Inr h"
    using ParseHeader_faults [of "take 18 (sdata f)"] by blast
  then show ?thesis
  proof cases
    case bad
    then show ?thesis
      using True n assms(1) by (simp add: decryptFile_def readFileID_def)
  next
    case ok
    show ?thesis
    proof (cases "n = 0")
      case True
      then show ?thesis
        using \<open>18 < length (sdata f)\<close> n ok
        by (simp add: decryptFile_def readFileID_def ExplodePlainRange.simps)
    next
      case False
      obtain out err be' be'' where
        "DecryptBlocks P be \<lparr>sdata = drop 18 (sdata f), scap = scap f - 18\<rparr> 0 (Some (hID h)) = Inr (out, err, be')"
        "decryptFile P be f = Inr (case err of Some e \<Rightarrow> Inl e | None \<Rightarrow> Inr (sdata out), be'')"
        "tree_enc cc be''" "err = None \<longrightarrow> length (sdata out) = unat n"
        by (rule decryptFile_result [OF assms(1,2) True assms(3) n False ok])
      then show ?thesis
        using n False by (cases err) simp_all
    qed
  qed
qed

text \<open>The files on which it panics: a valid header and then at most the overhead of a block.\<close>

lemma decryptFile_panics:
  assumes "tree_enc cc be" "core_aead P cc" "length (sdata f) < 2 ^ 62" "decryptFile P be f = Inl x"
  shows "x = Panic IndexOutOfRange \<and> HeaderLen < length (sdata f) \<and> length (sdata f) \<le> HeaderLen + 32"
proof -
  let ?m = "length (sdata f)"
  obtain n where n: "CipherSizeToPlainSize be (word_of_nat ?m) = Inr n" "18 < ?m" "n = 0" "x = Panic IndexOutOfRange"
    using decryptFile_cases [OF assms(1-3)] assms(4) by (auto split: if_splits)
  have le: "?m \<le> 32 * ((?m - 19) div 4128 + 1) + 18"
    using assms(1) n(2) assms(3)
    by (rule CipherSizeToPlainSize_ovh) (use n in \<open>auto split: if_splits\<close>)
  define m q where "m = ?m" and "q = (m - 19) div 4128"
  have "4128 * q \<le> m - 19"
    by (simp add: q_def)
  then have "4128 * q + 19 \<le> m"
    using n(2) unfolding m_def [symmetric] by linarith
  moreover have le: "m \<le> 32 * (q + 1) + 18"
    using le by (simp add: m_def q_def)
  ultimately have "q = 0"
    by (cases q) simp_all
  then have "?m \<le> 50"
    using le by (simp add: m_def)
  then show ?thesis
    using n(2,4) by simp
qed

text \<open>
  C25: decrypting a file of the server never does harm beyond one case: \<^verbatim>\<open>decryptFile\<close>
  returns a plaintext or an error for all bytes, of any length a slice can have, except that
  it panics exactly when the header is valid, there are bytes behind it, and they are too few to
  hold a block of plaintext; the encrypter's invariant survives; and a plaintext always has the
  size that \<^verbatim>\<open>CipherSizeToPlainSize\<close> announces.
\<close>

theorem decryptFile_outcome:
  assumes "tree_enc cc be" and "core_aead P cc" and "length (sdata f) < 2 ^ 62"
  shows "\<exists>n. CipherSizeToPlainSize be (word_of_nat (length (sdata f))) = Inr n \<and>
     (if HeaderLen < length (sdata f) \<and> is_ok (ParseHeader (take HeaderLen (sdata f))) \<and> n = 0
      then decryptFile P be f = Inl (Panic IndexOutOfRange)
      else \<exists>r be'. decryptFile P be f = Inr (r, be') \<and> tree_enc cc be' \<and>
             (\<forall>plain. r = Inr plain \<longrightarrow> length plain = unat n))"
  using assms by (rule decryptFile_cases)

lemma core_aead_file: "tree_enc demo_core (file_enc demo_core)"
  by (simp add: tree_enc_file_enc demo_core_def)

theorem decryptFile_outcome_witness:
  "\<exists>n. CipherSizeToPlainSize (file_enc demo_core) 20 = Inr n \<and>
     (if is_ok (ParseHeader (put_u16 2 @ replicate 16 5)) \<and> n = 0
      then decryptFile demo_prims (file_enc demo_core) \<lparr>sdata = put_u16 2 @ replicate 18 5, scap = 20\<rparr> =
             Inl (Panic IndexOutOfRange)
      else \<exists>r be'. decryptFile demo_prims (file_enc demo_core) \<lparr>sdata = put_u16 2 @ replicate 18 5, scap = 20\<rparr> =
             Inr (r, be') \<and> tree_enc demo_core be' \<and> (\<forall>plain. r = Inr plain \<longrightarrow> length plain = unat n))"
  using decryptFile_outcome [OF core_aead_file core_aead_demo, of "\<lparr>sdata = put_u16 2 @ replicate 18 5, scap = 20\<rparr>" demo_prims]
  by simp

lemma sealed_run_length:
  "sealed_run P cc fileID k ps cs \<Longrightarrow>
     length (concat cs) = length (concat ps) + length ps * (IVLen cc + AuthTagLen)"
  by (induction P cc fileID k ps cs rule: sealed_run.induct) (auto simp: sealed_block_def)

lemma stored_run_length:
  "stored_run n P cc fileID k ps cs \<Longrightarrow>
     length (concat cs) = length (concat ps) + length ps * (IVLen cc + AuthTagLen)"
  by (induction n P cc fileID k ps cs rule: stored_run.induct) (auto dest: stored_block_length)

lemma well_blocked_concat: "well_blocked p bs \<Longrightarrow> bs \<noteq> [] \<Longrightarrow> 0 < length (concat bs)"
  by (cases bs) (auto dest: well_blocked_set)

text \<open>A header and stored blocks, however they were written, decrypt to the plaintext.\<close>

lemma stored_decrypts:
  assumes te: "tree_enc cc be" "core_aead P cc" and hdr: "ParseHeader hdr = Inr h" "length hdr = 18"
    and wb: "well_blocked (unat (plainBS be)) ps" "ps \<noteq> []" and run: "stored_run 4096 P cc (Some (hID h)) 0 ps cs"
    and small: "length (concat ps) + 32 * length ps + 18 < 2 ^ 62"
  obtains n pt be2 where "CipherSizeToPlainSize be (word_of_nat (length (hdr @ concat cs))) = Inr n" "n \<noteq> 0"
    "unat n = length (concat ps)" "18 < length (hdr @ concat cs)" "length (hdr @ concat cs) < 2 ^ 62"
    "DecryptBlocks P be \<lparr>sdata = concat cs, scap = cap\<rparr> 0 (Some (hID h)) = Inr (pt, None, be2)" "sdata pt = concat ps"
proof -
  let ?f = "\<lparr>sdata = hdr @ concat cs, scap = cap\<rparr>" and ?fid = "Some (hID h)"
  let ?c = "\<lparr>sdata = concat cs, scap = cap\<rparr>"
  have enc: "enc_ok cc be" and fid: "fid_ok ?fid"
    using te(1) ParseHeader_fid [OF hdr(1)] by (simp_all add: tree_enc_def)
  have pos: "0 < length (concat ps)"
    using wb by (rule well_blocked_concat)
  have lo: "length (concat cs) = length (concat ps) + 32 * length ps"
    using stored_run_length [OF run] te(1) by (simp add: tree_enc_def AuthTagLen_def)
  have len: "18 < length (sdata ?f)" "length (sdata ?f) < 2 ^ 62"
    using pos lo hdr(2) small by simp_all
  obtain pt be2 where d: "DecryptBlocks P be ?c 0 ?fid = Inr (pt, None, be2)" "sdata pt = concat ps"
    using DecryptBlocks_stored [OF enc fid wb(1), of P 0 cs ?c] run te(1) by (auto simp: tree_enc_def)
  have "length (sdata pt) = body_len cc be (length (sdata ?f) - 18) \<and> blocks_fit cc be (length (sdata ?f) - 18)"
    using DecryptBlocks_total [OF enc te(2) fid, of ?c 0] d(1) te hdr(2) by (simp add: tree_enc_def)
  then obtain n where n: "CipherSizeToPlainSize be (word_of_nat (length (sdata ?f))) = Inr n" "unat n = length (sdata pt)"
    using CipherSizeToPlainSize_body [OF te(1) len] by metis
  moreover have "n \<noteq> 0"
    using n(2) d(2) pos by auto
  ultimately show thesis
    using that d len by simp
qed

lemma decryptFile_stored:
  assumes te: "tree_enc cc be" "core_aead P cc" and hdr: "ParseHeader hdr = Inr h" "length hdr = 18"
    and wb: "well_blocked (unat (plainBS be)) ps" "ps \<noteq> []" and run: "stored_run 4096 P cc (Some (hID h)) 0 ps cs"
    and small: "length (concat ps) + 32 * length ps + 18 < 2 ^ 62"
  shows "\<exists>be2. decryptFile P be \<lparr>sdata = hdr @ concat cs, scap = cap\<rparr> = Inr (Inr (concat ps), be2) \<and> tree_enc cc be2"
proof -
  let ?f = "\<lparr>sdata = hdr @ concat cs, scap = cap\<rparr>" and ?fid = "Some (hID h)"
  obtain n pt be2 where n: "CipherSizeToPlainSize be (word_of_nat (length (sdata ?f))) = Inr n" "n \<noteq> 0"
    and len: "18 < length (sdata ?f)" "length (sdata ?f) < 2 ^ 62"
    and d: "DecryptBlocks P be \<lparr>sdata = concat cs, scap = cap - 18\<rparr> 0 ?fid = Inr (pt, None, be2)" "sdata pt = concat ps"
    by (rule stored_decrypts [OF assms, where cap = "cap - 18"]) simp
  have "ParseHeader (take 18 (sdata ?f)) = Inr h"
    using hdr by simp
  with n(2) obtain o' err be' be'' where
    "DecryptBlocks P be \<lparr>sdata = drop 18 (sdata ?f), scap = scap ?f - 18\<rparr> 0 ?fid = Inr (o', err, be')"
    "decryptFile P be ?f = Inr (case err of Some e \<Rightarrow> Inl e | None \<Rightarrow> Inr (sdata o'), be'')" "tree_enc cc be''"
    using decryptFile_result [OF te len n(1)] by metis
  then show ?thesis
    using d hdr(2) by simp
qed

lemmas decryptFile_sealed = decryptFile_stored [OF _ _ _ _ _ _ sealed_run_stored]

text \<open>What \<^verbatim>\<open>EncryptBlocks\<close> writes from block 0 on is a sealed run, for every interleaving.\<close>

lemma EncryptBlocks_file:
  assumes "tree_enc cc be" "core_aead P cc" "fair_sched sched" "0 < numCPU" "fid_ok fid"
    "well_blocked (unat (plainBS be)) (map sdata blocks)"
    "prefetch_reads rp (replicate (length blocks) (IVLen cc)) = Inr (nonces, rp')" "replicate (IVLen cc) 0 \<notin> set nonces"
  obtains out cs be1 where "EncryptBlocks P sched numCPU be blocks 0 fid rp = Inr (out, be1, rp')"
    "sdata out = concat cs" "sealed_run P cc fid 0 (map sdata blocks) cs" "tree_enc cc be1" "plainBS be1 = plainBS be"
proof -
  have "\<forall>b \<in> set blocks. 0 < length (sdata b) \<and> length (sdata b) \<le> unat (plainBS be)"
    using well_blocked_set [OF assms(6)] by simp
  moreover have "enc_ok cc be"
    using assms(1) by (simp add: tree_enc_def)
  ultimately obtain out cs be1 where e: "EncryptBlocks P sched numCPU be blocks 0 fid rp = Inr (out, be1, rp')"
    "sdata out = concat cs" "sealed_run P cc fid 0 (map sdata blocks) cs" "enc_ok cc be1" "same_params be be1"
    using EncryptBlocks_seals [OF _ assms(2,5,3,4) _ assms(7,8)] by blast
  moreover have "tree_enc cc be1"
    using assms(1) e(5,4) by (rule tree_enc_same_params)
  ultimately show thesis
    using that by (simp add: same_params_def)
qed

text \<open>
  C12: whole files round-trip: a packed header followed by the encrypted blocks of a non-empty
  plaintext, as the encrypter writes them for that file ID from block 0 on, decrypts to the
  plaintext, whether the result is handed out from the request pool's slice or copied.
\<close>

theorem decryptFile_roundtrip:
  assumes "tree_enc cc be" and "core_aead P cc" and "fair_sched sched" and "0 < numCPU"
    and "hVersion h = CurrentVersion" and "length (hID h) = headerIDLen" and "hID h \<noteq> allZeroFileID"
    and "well_blocked (unat (plainBS be)) (map sdata blocks)" and "blocks \<noteq> []"
    and "prefetch_reads rp (replicate (length blocks) (IVLen cc)) = Inr (nonces, rp')"
    and "replicate (IVLen cc) 0 \<notin> set nonces"
    and "length (concat (map sdata blocks)) + 32 * length blocks + 18 < 2 ^ 62"
  shows "\<exists>hdr out be1. Pack h = Inr hdr \<and>
      EncryptBlocks P sched numCPU be blocks 0 (Some (hID h)) rp = Inr (out, be1, rp') \<and>
      (\<forall>cap. \<exists>be2. decryptFile P be1 \<lparr>sdata = hdr @ sdata out, scap = cap\<rparr> =
         Inr (Inr (concat (map sdata blocks)), be2))"
proof -
  have wf: "header_wf h" and fid: "fid_ok (Some (hID h))"
    using assms by (simp_all add: fid_ok_def header_wf_def)
  obtain hdr where hdr: "Pack h = Inr hdr" "ParseHeader hdr = Inr h" "length hdr = 18"
    using file_header.roundtrip [OF wf] Pack_length by fastforce
  obtain out cs be1 where e: "EncryptBlocks P sched numCPU be blocks 0 (Some (hID h)) rp = Inr (out, be1, rp')"
    "sdata out = concat cs" "sealed_run P cc (Some (hID h)) 0 (map sdata blocks) cs" "tree_enc cc be1" "plainBS be1 = plainBS be"
    using assms(1-4) fid assms(8,10,11) by (rule EncryptBlocks_file)
  then show ?thesis
    using decryptFile_sealed [OF e(4) assms(2) hdr(2,3) _ _ e(3)] assms(8,9,12) hdr(1) by fastforce
qed

theorem decryptFile_roundtrip_witness:
  "\<exists>hdr out be1 rp'. Pack \<lparr>hVersion = 2, hID = replicate 16 5\<rparr> = Inr hdr \<and>
     EncryptBlocks demo_prims concat 8 (file_enc demo_core)
       [make_slice 4096, \<lparr>sdata = [1, 2, 3], scap = 3\<rparr>] 0 (Some (replicate 16 5)) demo_rp = Inr (out, be1, rp') \<and>
     (\<forall>cap. \<exists>be2. decryptFile demo_prims be1 \<lparr>sdata = hdr @ sdata out, scap = cap\<rparr> =
        Inr (Inr (replicate 4096 0 @ [1, 2, 3]), be2))"
proof -
  let ?blocks = "[make_slice 4096, \<lparr>sdata = [1, 2, 3], scap = 3\<rparr>]"
  let ?h = "\<lparr>hVersion = 2, hID = replicate 16 (5 :: byte)\<rparr>"
  obtain rp' where rp: "prefetch_reads demo_rp [16, 16] = Inr ([replicate 16 1, replicate 16 1], rp')"
    using demo_rp_reads by blast
  have 1: "hVersion ?h = CurrentVersion" "length (hID ?h) = headerIDLen" "hID ?h \<noteq> allZeroFileID"
    by (simp_all add: CurrentVersion_def headerIDLen_def allZeroFileID_def replicate_eq_replicate)
  have 2: "well_blocked (unat (plainBS (file_enc demo_core))) (map sdata ?blocks)"
    by (simp add: file_enc_def make_slice_def)
  have 3: "prefetch_reads demo_rp (replicate (length ?blocks) (IVLen demo_core)) =
      Inr ([replicate 16 1, replicate 16 1], rp')"
    using rp by (simp add: demo_core_def)
  have 4: "replicate (IVLen demo_core) 0 \<notin> set [replicate 16 (1 :: byte), replicate 16 1]"
    by (simp add: demo_core_def replicate_eq_replicate)
  have 5: "length (concat (map sdata ?blocks)) + 32 * length ?blocks + 18 < 2 ^ 62" "(0 :: nat) < 8" "?blocks \<noteq> []"
    by (simp_all add: make_slice_def)
  show ?thesis
    using decryptFile_roundtrip [OF core_aead_file core_aead_demo fair_sched_concat 5(2) 1 2 5(3) 3 4 5(1), of demo_prims]
    by (auto simp: make_slice_def)
qed

text \<open>Three bytes, sealed under the key of a tree.\<close>

lemma demo_sealed:
  assumes "core_aead demo_prims cc" "tree_enc cc be"
  obtains hdr h xs where "ParseHeader hdr = Inr h" "length hdr = 18" "sealed_run demo_prims cc (Some (hID h)) 0 [[1, 2, 3]] xs"
proof -
  let ?h = "\<lparr>hVersion = 2, hID = replicate 16 (5 :: byte)\<rparr>"
  have "header_wf ?h"
    by (simp add: header_wf_def CurrentVersion_def headerIDLen_def allZeroFileID_def replicate_eq_replicate)
  then obtain hdr where hdr: "Pack ?h = Inr hdr" "ParseHeader hdr = Inr ?h"
    using file_header.roundtrip by blast
  have IV: "IVLen cc = 16" "unat (plainBS be) = 4096"
    using assms(2) by (simp_all add: tree_enc_def)
  obtain rp' where rp: "prefetch_reads demo_rp [16] = Inr ([replicate 16 1], rp')"
    by (simp add: demo_rp_def prefetch_read_def prefetchN_def buffer_Read_def Let_def)
  obtain out xs be1 where "sealed_run demo_prims cc (Some (hID ?h)) 0 (map sdata [\<lparr>sdata = [1, 2, 3], scap = 3\<rparr>]) xs"
    by (rule EncryptBlocks_file [OF assms(2,1) fair_sched_concat _ ParseHeader_fid [OF hdr(2)], where numCPU = 1 and
          blocks = "[\<lparr>sdata = [1, 2, 3], scap = 3\<rparr>]" and rp = demo_rp and nonces = "[replicate 16 1]" and rp' = rp'])
      (simp_all add: IV rp replicate_eq_replicate del: prefetch_reads.simps)
  then show thesis
    using that hdr(2) Pack_length [OF hdr(1)] by simp
qed

end
