(* ===== verification/ConfigFile.thy ===== *)
theory ConfigFile
  imports ContentBlocks
begin

text \<open>
  \<^verbatim>\<open>gocrypt/configfile\<close>: feature flags, the scrypt parameters, the checks on a loaded
  \<^verbatim>\<open>gocryptfs.conf\<close>, and the wrapping of the master key with a password. The JSON codec of the
  Go library is a pair of arguments, \<open>marshal\<close> and \<open>unmarshal\<close>; the local file system is a
  map from paths to contents, with the errors of its operations as arguments.
\<close>

section \<open>Feature flags\<close>

datatype flagIota = FlagPlaintextNames | FlagDirIV | FlagEMENames | FlagGCMIV128 | FlagLongNames
  | FlagAESSIV | FlagRaw64 | FlagHKDF | FlagTrezor

fun knownFlags :: "flagIota \<Rightarrow> string" where
  "knownFlags FlagPlaintextNames = ''PlaintextNames''"
| "knownFlags FlagDirIV = ''DirIV''"
| "knownFlags FlagEMENames = ''EMENames''"
| "knownFlags FlagGCMIV128 = ''GCMIV128''"
| "knownFlags FlagLongNames = ''LongNames''"
| "knownFlags FlagAESSIV = ''AESSIV''"
| "knownFlags FlagRaw64 = ''Raw64''"
| "knownFlags FlagHKDF = ''HKDF''"
| "knownFlags FlagTrezor = ''Trezor''"

definition all_flags :: "flagIota list" where
  "all_flags = [FlagPlaintextNames, FlagDirIV, FlagEMENames, FlagGCMIV128, FlagLongNames,
     FlagAESSIV, FlagRaw64, FlagHKDF, FlagTrezor]"

definition requiredFlagsNormal :: "flagIota list" where
  "requiredFlagsNormal = [FlagDirIV, FlagEMENames, FlagGCMIV128]"

definition requiredFlagsPlaintextNames :: "flagIota list" where
  "requiredFlagsPlaintextNames = [FlagGCMIV128]"

lemma set_all_flags: "f \<in> set all_flags"
  by (cases f) (simp_all add: all_flags_def)

lemma knownFlags_inject: "knownFlags f = knownFlags g \<longleftrightarrow> f = g"
  by (cases f; cases g; simp)

section \<open>Scrypt parameters\<close>

definition ScryptDefaultLogN :: nat where "ScryptDefaultLogN = 16"
definition scryptMinR :: int where "scryptMinR = 8"
definition scryptMinP :: int where "scryptMinP = 1"
definition scryptMinLogN :: nat where "scryptMinLogN = 10"
definition scryptMinSaltLen :: nat where "scryptMinSaltLen = 32"

record ScryptKDF =
  Salt :: bytes
  ScryptN :: int
  ScryptR :: int
  ScryptP :: int
  ScryptKeyLen :: int

text \<open>\<^verbatim>\<open>1 << uint32(logN)\<close> on 64-bit integers: a shift count beyond 63 gives 0.\<close>

definition NewScryptKDF :: "(nat \<Rightarrow> bytes result) \<Rightarrow> int \<Rightarrow> ScryptKDF result" where
  "NewScryptKDF rand_Read logN =
     (case RandBytes rand_Read KeyLen of
        Inl f \<Rightarrow> Inl f
      | Inr salt \<Rightarrow>
          Inr \<lparr>Salt = salt,
               ScryptN = (if logN \<le> 0 then 2 ^ ScryptDefaultLogN
                    else sint (push_bit (nat (logN mod 2 ^ 32)) 1 :: u64)),
               ScryptR = 8, ScryptP = 1, ScryptKeyLen = int KeyLen\<rparr>)"

definition validateParams :: "ScryptKDF \<Rightarrow> unit result" where
  "validateParams s =
     (if ScryptN s < 2 ^ scryptMinLogN then Inl (OsExit (exit_code ExitScryptParams))
      else if ScryptR s < scryptMinR then Inl (OsExit (exit_code ExitScryptParams))
      else if ScryptP s < scryptMinP then Inl (OsExit (exit_code ExitScryptParams))
      else if length (Salt s) < scryptMinSaltLen then Inl (OsExit (exit_code ExitScryptParams))
      else if ScryptKeyLen s < int KeyLen then Inl (OsExit (exit_code ExitScryptParams))
      else Inr ())"

definition DeriveKey :: "prims \<Rightarrow> ScryptKDF \<Rightarrow> bytes \<Rightarrow> bytes result" where
  "DeriveKey P s pw =
     (case validateParams s of
        Inl f \<Rightarrow> Inl f
      | Inr _ \<Rightarrow>
          (case scrypt_Key P pw (Salt s) (ScryptN s) (ScryptR s) (ScryptP s) (ScryptKeyLen s) of
             Inl (Err e) \<Rightarrow> Inl (Panic (LogPanic ''DeriveKey failed: %v''))
           | r \<Rightarrow> r))"

section \<open>The config file\<close>

record ConfFile =
  Creator :: string
  EncryptedKey :: bytes
  ScryptObject :: ScryptKDF
  Version :: u16
  FeatureFlags :: "string list"
  TrezorPayload :: bytes
  conf_filename :: string

definition isFeatureFlagKnown :: "ConfFile \<Rightarrow> string \<Rightarrow> bool" where
  "isFeatureFlagKnown cf flag = (\<exists>f \<in> set all_flags. knownFlags f = flag)"

definition IsFeatureFlagSet :: "ConfFile \<Rightarrow> flagIota \<Rightarrow> bool" where
  "IsFeatureFlagSet cf flagWant = (\<exists>flag \<in> set (FeatureFlags cf). flag = knownFlags flagWant)"

type_synonym localfs = "string \<Rightarrow> bytes option"

text \<open>The errors that the operating system may report while a file is written.\<close>

record os_faults =
  open_err :: "goerr option"
  write_err :: "(goerr \<times> nat) option"
  close_err :: "goerr option"
  rename_err :: "goerr option"

definition WriteFile ::
    "(ConfFile \<Rightarrow> goerr + bytes) \<Rightarrow> os_faults \<Rightarrow> localfs \<Rightarrow> ConfFile \<Rightarrow> goerr option \<times> localfs" where
  "WriteFile marshal flt lfs cf =
     (let tmp = conf_filename cf @ ''.tmp'' in
      if lfs tmp \<noteq> None then (Some (ExternalErr ''file exists''), lfs)
      else case open_err flt of Some e \<Rightarrow> (Some e, lfs)
      | None \<Rightarrow> let lfs1 = lfs(tmp \<mapsto> []) in
      case marshal cf of Inl e \<Rightarrow> (Some e, lfs1)
      | Inr js \<Rightarrow> let js' = js @ [10] in
      case write_err flt of Some (e, n) \<Rightarrow> (Some e, lfs1(tmp \<mapsto> take n js'))
      | None \<Rightarrow> let lfs2 = lfs1(tmp \<mapsto> js') in
      case close_err flt of Some e \<Rightarrow> (Some e, lfs2)
      | None \<Rightarrow>
      case rename_err flt of Some e \<Rightarrow> (Some e, lfs2)
      | None \<Rightarrow> (None, lfs2(tmp := None, conf_filename cf \<mapsto> js')))"

definition Load :: "(bytes \<Rightarrow> goerr + ConfFile) \<Rightarrow> localfs \<Rightarrow> string \<Rightarrow> ConfFile result" where
  "Load unmarshal lfs filename =
     (case lfs filename of
        None \<Rightarrow> Inl (Err (ExternalErr ''no such file or directory''))
      | Some js \<Rightarrow>
          if length js = 0 then Inl (Err (Errorf ''Config file is empty'' []))
          else case unmarshal js of
            Inl e \<Rightarrow> Inl (Err e)
          | Inr cf0 \<Rightarrow>
              let cf = cf0\<lparr>conf_filename := filename\<rparr> in
              if Version cf \<noteq> CurrentVersion
              then Inl (Err (Errorf ''Unsupported on-disk format %d'' [FInt (uint (Version cf))]))
              else case find (\<lambda>flag. \<not> isFeatureFlagKnown cf flag) (FeatureFlags cf) of
                Some flag \<Rightarrow> Inl (Err (Errorf ''Unsupported feature flag %q'' [FStr flag]))
              | None \<Rightarrow>
                  let requiredFlags = (if IsFeatureFlagSet cf FlagPlaintextNames
                        then requiredFlagsPlaintextNames else requiredFlagsNormal)
                  in if (\<exists>i \<in> set requiredFlags. \<not> IsFeatureFlagSet cf i)
                     then Inl (Err (NewErr ''Deprecated filesystem'' (exit_code ExitDeprecatedFS)))
                     else Inr cf)"

section \<open>The master key\<close>

definition getKeyEncrypter :: "prims \<Rightarrow> bytes \<Rightarrow> bool \<Rightarrow> ContentEnc result" where
  "getKeyEncrypter P scryptHash useHKDF =
     (let ivBits = (if useHKDF then DefaultIVBits else 96) in
      case CryptoCore_New P scryptHash BackendGoGCM ivBits useHKDF False of
        Inl f \<Rightarrow> Inl f
      | Inr cc \<Rightarrow> ContentEnc_New cc 4096 False)"

definition DecryptMasterKey :: "prims \<Rightarrow> ConfFile \<Rightarrow> bytes \<Rightarrow> bytes result" where
  "DecryptMasterKey P cf password =
     (case DeriveKey P (ScryptObject cf) password of
        Inl f \<Rightarrow> Inl f
      | Inr scryptHash \<Rightarrow>
      case getKeyEncrypter P scryptHash (IsFeatureFlagSet cf FlagHKDF) of
        Inl f \<Rightarrow> Inl f
      | Inr ce \<Rightarrow>
      case DecryptBlock P ce \<lparr>sdata = EncryptedKey cf, scap = length (EncryptedKey cf)\<rparr> 0 None of
        Inl f \<Rightarrow> Inl f
      | Inr (masterkey, err, ce') \<Rightarrow>
      case ContentEnc_Wipe ce' of
        Inl f \<Rightarrow> Inl f
      | Inr _ \<Rightarrow>
          if err \<noteq> None
          then Inl (Err (NewErr ''Password incorrect.'' (exit_code ExitPasswordIncorrect)))
          else Inr (sdata masterkey))"

definition EncryptKey ::
    "prims \<Rightarrow> (nat \<Rightarrow> bytes result) \<Rightarrow> randPrefetcherT \<Rightarrow> ConfFile \<Rightarrow> bytes \<Rightarrow> bytes \<Rightarrow> int \<Rightarrow>
     (ConfFile \<times> randPrefetcherT) result" where
  "EncryptKey P rand_Read rp cf key password logN =
     (case NewScryptKDF rand_Read logN of
        Inl f \<Rightarrow> Inl f
      | Inr kdf \<Rightarrow>
      case DeriveKey P kdf password of
        Inl f \<Rightarrow> Inl f
      | Inr scryptHash \<Rightarrow>
      case getKeyEncrypter P scryptHash (IsFeatureFlagSet cf FlagHKDF) of
        Inl f \<Rightarrow> Inl f
      | Inr ce \<Rightarrow>
      case EncryptBlock P ce \<lparr>sdata = key, scap = length key\<rparr> 0 None rp of
        Inl f \<Rightarrow> Inl f
      | Inr (c, ce', rp') \<Rightarrow>
      case ContentEnc_Wipe ce' of
        Inl f \<Rightarrow> Inl f
      | Inr _ \<Rightarrow> Inr (cf\<lparr>ScryptObject := kdf, EncryptedKey := sdata c\<rparr>, rp'))"

text \<open>A missing key, as \<^verbatim>\<open>nil\<close>, is \<open>None\<close>.\<close>

definition LoadAndDecrypt ::
    "prims \<Rightarrow> (bytes \<Rightarrow> goerr + ConfFile) \<Rightarrow> localfs \<Rightarrow> string \<Rightarrow> bytes \<Rightarrow>
     (bytes option \<times> ConfFile) result" where
  "LoadAndDecrypt P unmarshal lfs filename password =
     (case Load unmarshal lfs filename of
        Inl f \<Rightarrow> Inl f
      | Inr cf \<Rightarrow>
          if length password = 0 then Inr (None, cf)
          else case DecryptMasterKey P cf password of
              Inl f \<Rightarrow> Inl f
            | Inr key \<Rightarrow> Inr (Some key, cf))"

definition create_flags :: "bool \<Rightarrow> bool \<Rightarrow> bytes \<Rightarrow> string list" where
  "create_flags plaintextNames aessiv trezorPayload =
     [knownFlags FlagGCMIV128, knownFlags FlagHKDF] @
     (if plaintextNames then [knownFlags FlagPlaintextNames]
      else [knownFlags FlagDirIV, knownFlags FlagEMENames, knownFlags FlagLongNames, knownFlags FlagRaw64]) @
     (if aessiv then [knownFlags FlagAESSIV] else []) @
     (if length trezorPayload > 0 then [knownFlags FlagTrezor] else [])"

text \<open>
  Random bytes come from \<^verbatim>\<open>crypto/rand\<close> for the salt and, for the key, from there or from
  \<^verbatim>\<open>/dev/random\<close>, whose read fails with a panic.
\<close>

definition randBytesDevRandom :: "(nat \<Rightarrow> bytes result) \<Rightarrow> nat \<Rightarrow> bytes result" where
  "randBytesDevRandom dev_random n =
     (case dev_random n of
        Inl (Err e) \<Rightarrow> Inl (Panic (LogPanic ''Failed to read random bytes: ''))
      | r \<Rightarrow> r)"

definition Create ::
    "prims \<Rightarrow> (ConfFile \<Rightarrow> goerr + bytes) \<Rightarrow> os_faults \<Rightarrow> (nat \<Rightarrow> bytes result) \<Rightarrow> (nat \<Rightarrow> bytes result) \<Rightarrow>
     (nat \<Rightarrow> bytes result) \<Rightarrow> randPrefetcherT \<Rightarrow> localfs \<Rightarrow> string \<Rightarrow> bytes \<Rightarrow> bool \<Rightarrow> int \<Rightarrow> string \<Rightarrow>
     bool \<Rightarrow> bool \<Rightarrow> bytes \<Rightarrow> (goerr option \<times> localfs \<times> randPrefetcherT) result" where
  "Create P marshal flt key_rand dev_random salt_rand rp lfs filename password plaintextNames logN creator
     aessiv devrandom trezorPayload =
     (let cf = \<lparr>Creator = creator, EncryptedKey = [],
                ScryptObject = \<lparr>Salt = [], ScryptN = 0, ScryptR = 0, ScryptP = 0, ScryptKeyLen = 0\<rparr>,
                Version = CurrentVersion,
                FeatureFlags = create_flags plaintextNames aessiv trezorPayload,
                TrezorPayload = (if length trezorPayload > 0 then trezorPayload else []),
                conf_filename = filename\<rparr>
      in case (if devrandom then randBytesDevRandom dev_random KeyLen else RandBytes key_rand KeyLen) of
        Inl f \<Rightarrow> Inl f
      | Inr key \<Rightarrow>
      case EncryptKey P salt_rand rp cf key password logN of
        Inl f \<Rightarrow> Inl f
      | Inr (cf', rp') \<Rightarrow>
      case WriteFile marshal flt lfs cf' of (err, lfs') \<Rightarrow> Inr (err, lfs', rp'))"

section \<open>Key wrapping\<close>

lemma sint_power: "k \<le> 40 \<Longrightarrow> sint (2 ^ k :: u64) = 2 ^ k"
proof -
  assume k: "k \<le> 40"
  have "(2 :: int) ^ k \<le> 2 ^ 40"
    using k by (rule power_increasing) simp
  then have small: "(2 :: int) ^ k < 9223372036854775808" "(2 :: int) ^ k < 18446744073709551616"
    by simp_all
  have "(2 :: u64) ^ k = word_of_int (2 ^ k)"
    by simp
  then have u: "uint (2 ^ k :: u64) = 2 ^ k"
    using small by (simp only: uint_word_of_int) simp
  have "- 9223372036854775808 \<le> (2 :: int) ^ k"
    by (rule order_trans [of _ 0]) simp_all
  then show ?thesis
    using u small by (simp add: sint_uint signed_take_bit_int_eq_self)
qed

definition logN_ok :: "int \<Rightarrow> bool" where
  "logN_ok logN \<longleftrightarrow> logN \<le> 0 \<or> 10 \<le> logN \<and> logN \<le> 40"

lemma NewScryptKDF_ok:
  assumes "rand_Read KeyLen = Inr salt" "logN_ok logN"
  obtains k where "10 \<le> k" "k \<le> 40"
    "NewScryptKDF rand_Read logN = Inr \<lparr>Salt = salt, ScryptN = 2 ^ k, ScryptR = 8, ScryptP = 1, ScryptKeyLen = int KeyLen\<rparr>"
proof (cases "logN \<le> 0")
  case True
  then show thesis
    using assms(1) that [of 16] by (simp add: NewScryptKDF_def RandBytes_def ScryptDefaultLogN_def)
next
  case False
  then have l: "10 \<le> logN" "logN \<le> 40"
    using assms(2) by (simp_all add: logN_ok_def)
  then have "logN mod 2 ^ 32 = logN"
    by simp
  then have "sint (push_bit (nat (logN mod 2 ^ 32)) 1 :: u64) = 2 ^ nat logN"
    using l by (simp add: sint_power)
  then show thesis
    using assms(1) l False that [of "nat logN"] by (simp add: NewScryptKDF_def RandBytes_def)
qed

text \<open>The nonce length of the encrypter that protects the master key.\<close>

definition key_iv :: "ConfFile \<Rightarrow> nat" where
  "key_iv cf = (if IsFeatureFlagSet cf FlagHKDF then 16 else 12)"

context crypto_lib
begin

lemma DeriveKey_ok:
  assumes "10 \<le> k" "k \<le> 40" "length salt = 32"
  obtains h where "DeriveKey P \<lparr>Salt = salt, ScryptN = 2 ^ k, ScryptR = 8, ScryptP = 1, ScryptKeyLen = int KeyLen\<rparr> pw = Inr h"
    "length h = KeyLen"
proof -
  have "(2 :: int) ^ 10 \<le> 2 ^ k"
    using assms(1) by (rule power_increasing) simp
  then show thesis
    using scrypt_ok [OF assms(1,2), of salt pw] assms(3) that
    by (auto simp: DeriveKey_def validateParams_def scryptMinLogN_def scryptMinR_def scryptMinP_def scryptMinSaltLen_def)
qed

lemma getKeyEncrypter_ok:
  assumes "length h = KeyLen"
  obtains cc ce where "getKeyEncrypter P h useHKDF = Inr ce" "enc_ok cc ce" "core_aead P cc"
    "IVLen cc = (if useHKDF then 16 else 12)" "plainBS ce = 4096" "AEADBackend cc = BackendGoGCM"
proof -
  let ?bits = "if useHKDF then DefaultIVBits else 96"
  have bits: "?bits = 96 \<or> ?bits = 128"
    by (simp add: DefaultIVBits_def)
  obtain cc where cc: "CryptoCore_New P h BackendGoGCM ?bits useHKDF False = Inr cc"
    "IVLen cc = ?bits div 8" "nonceLen (IVGenerator cc) = ?bits div 8" "AEADBackend cc = BackendGoGCM" "core_aead P cc"
    using CryptoCore_New_gcm [OF assms, of ?bits useHKDF False] bits by metis
  obtain ce where ce: "ContentEnc_New cc 4096 False = Inr ce"
    by (simp add: ContentEnc_New_def MAX_KERNEL_WRITE_def Let_def)
  have "enc_ok cc ce"
    using ContentEnc_New_enc_ok [OF ce] cc by (simp add: DefaultIVBits_def split: if_splits)
  moreover have "plainBS ce = 4096"
    using ContentEnc_New_sizes(3) [OF ce] cc(2) by (simp add: DefaultIVBits_def split: if_splits)
  moreover have "getKeyEncrypter P h useHKDF = Inr ce"
    using cc(1) ce by (simp add: getKeyEncrypter_def)
  moreover have "IVLen cc = (if useHKDF then 16 else 12)"
    using cc(2) by (simp add: DefaultIVBits_def)
  ultimately show thesis
    using that cc(4,5) by blast
qed

lemma ContentEnc_Wipe_gcm:
  "enc_ok cc ce \<Longrightarrow> AEADBackend cc = BackendGoGCM \<Longrightarrow> ContentEnc_Wipe ce = Inr (ce\<lparr>cryptoCore := None\<rparr>)"
  by (simp add: ContentEnc_Wipe_def enc_ok_def CryptoCore_Wipe_def Let_def)

lemma EncryptKey_seals:
  assumes "rand_Read KeyLen = Inr salt" "length salt = 32" "logN_ok logN"
    and "0 < length key" "length key \<le> 4096"
    and "prefetch_read rp (key_iv cf) = Inr (nonce, rp')" "nonce \<noteq> replicate (key_iv cf) 0"
  shows "\<exists>cf'. EncryptKey P rand_Read rp cf key password logN = Inr (cf', rp') \<and>
      DecryptMasterKey P cf' password = Inr key \<and>
      cf' = cf\<lparr>ScryptObject := ScryptObject cf', EncryptedKey := EncryptedKey cf'\<rparr>"
proof -
  obtain k where k: "10 \<le> k" "k \<le> 40"
    "NewScryptKDF rand_Read logN = Inr \<lparr>Salt = salt, ScryptN = 2 ^ k, ScryptR = 8, ScryptP = 1, ScryptKeyLen = int KeyLen\<rparr>"
    using assms(1,3) by (rule NewScryptKDF_ok)
  let ?kdf = "\<lparr>Salt = salt, ScryptN = 2 ^ k, ScryptR = 8, ScryptP = 1, ScryptKeyLen = int KeyLen\<rparr>"
  obtain h where h: "DeriveKey P ?kdf password = Inr h" "length h = KeyLen"
    using k(1,2) assms(2) by (rule DeriveKey_ok)
  obtain cc ce where ce: "getKeyEncrypter P h (IsFeatureFlagSet cf FlagHKDF) = Inr ce" "enc_ok cc ce"
    "core_aead P cc" "IVLen cc = key_iv cf" "plainBS ce = 4096" "AEADBackend cc = BackendGoGCM"
    unfolding key_iv_def using h(2) by (rule getKeyEncrypter_ok)
  obtain c ce1 where c: "EncryptBlock P ce \<lparr>sdata = key, scap = length key\<rparr> 0 None rp = Inr (c, ce1, rp')"
    "sealed_block P cc None 0 key (sdata c)" "enc_ok cc ce1"
  proof (rule EncryptBlock_seals [OF ce(2,3)])
    show "fid_ok None" "prefetch_read rp (IVLen cc) = Inr (nonce, rp')" "nonce \<noteq> replicate (IVLen cc) 0"
      using assms(6,7) ce(4) by (simp_all add: fid_ok_def)
    show "length nonce = IVLen cc"
      using prefetch_read_length [OF assms(6)] ce(4) by simp
    show "0 < length (sdata \<lparr>sdata = key, scap = length key\<rparr>)"
      "length (sdata \<lparr>sdata = key, scap = length key\<rparr>) \<le> unat (plainBS ce)"
      using assms(4,5) ce(5) by simp_all
  qed simp
  let ?cf = "cf\<lparr>ScryptObject := ?kdf, EncryptedKey := sdata c\<rparr>"
  let ?c = "\<lparr>sdata = sdata c, scap = length (sdata c)\<rparr>"
  obtain s ce2 where d: "DecryptBlock P ce ?c 0 None = Inr (s, None, ce2)" "sdata s = key" "enc_ok cc ce2"
  proof (rule DecryptBlock_sealed [OF ce(2)])
    show "fid_ok None" "sealed_block P cc None 0 key (sdata ?c)" "length key \<le> unat (plainBS ce)"
      using c(2) assms(5) ce(5) by (simp_all add: fid_ok_def)
  qed simp
  have "EncryptKey P rand_Read rp cf key password logN = Inr (?cf, rp')"
    using k(3) h(1) ce(1,6) c ContentEnc_Wipe_gcm by (simp add: EncryptKey_def)
  moreover have "DecryptMasterKey P ?cf password = Inr key"
    using h(1) ce(1,6) d ContentEnc_Wipe_gcm by (simp add: DecryptMasterKey_def IsFeatureFlagSet_def)
  ultimately show ?thesis
    by (intro exI [of _ ?cf]) simp
qed

end

section \<open>Correctness\<close>

text \<open>
  The master key survives wrapping: what \<^verbatim>\<open>EncryptKey\<close> stores under a password,
  \<^verbatim>\<open>DecryptMasterKey\<close> returns for the same password, with and without HKDF, for the scrypt costs
  the program accepts; only the scrypt parameters and the encrypted key of the config change.
\<close>

lemma EncryptKey_DecryptMasterKey:
  assumes "crypto_lib P"
    and "rand_Read KeyLen = Inr salt" and "length salt = 32" and "logN_ok logN"
    and "0 < length key" and "length key \<le> 4096"
    and "prefetch_read rp (key_iv cf) = Inr (nonce, rp')" and "nonce \<noteq> replicate (key_iv cf) 0"
  shows "\<exists>cf'. EncryptKey P rand_Read rp cf key password logN = Inr (cf', rp') \<and>
      DecryptMasterKey P cf' password = Inr key \<and>
      cf' = cf\<lparr>ScryptObject := ScryptObject cf', EncryptedKey := EncryptedKey cf'\<rparr>"
  using assms by (rule crypto_lib.EncryptKey_seals)

definition demo_conf :: ConfFile where
  "demo_conf = \<lparr>Creator = ''demo'', EncryptedKey = [],
     ScryptObject = \<lparr>Salt = [], ScryptN = 0, ScryptR = 0, ScryptP = 0, ScryptKeyLen = 0\<rparr>,
     Version = 2, FeatureFlags = create_flags False False [], TrezorPayload = [],
     conf_filename = ''gocryptfs.conf''\<rparr>"

lemma key_iv_demo: "key_iv demo_conf = 16"
  by (simp add: key_iv_def IsFeatureFlagSet_def demo_conf_def create_flags_def)

lemma EncryptKey_DecryptMasterKey_witness:
  "\<exists>cf' rp'. EncryptKey demo_prims (\<lambda>n. Inr (replicate n 3)) demo_rp demo_conf (replicate 32 9) [1, 2] 16 =
      Inr (cf', rp') \<and> DecryptMasterKey demo_prims cf' [1, 2] = Inr (replicate 32 9)"
proof -
  obtain rp' where rp: "prefetch_read demo_rp 16 = Inr (replicate 16 1, rp')"
    by (simp add: demo_rp_def prefetch_read_def prefetchN_def buffer_Read_def Let_def)
  show ?thesis
    using EncryptKey_DecryptMasterKey [OF demo_lib.crypto_lib_axioms, of "\<lambda>n. Inr (replicate n 3)" "replicate 32 3"
        16 "replicate 32 9" demo_rp demo_conf "replicate 16 1" rp' "[1, 2]"] rp
    by (auto simp: KeyLen_def logN_ok_def key_iv_demo replicate_eq_replicate)
qed

lemma Load_iff:
  "Load unmarshal lfs filename = Inr cf \<longleftrightarrow>
     (\<exists>js cf0. lfs filename = Some js \<and> js \<noteq> [] \<and> unmarshal js = Inr cf0 \<and>
        cf = cf0\<lparr>conf_filename := filename\<rparr> \<and> Version cf = CurrentVersion \<and>
        set (FeatureFlags cf) \<subseteq> range knownFlags \<and> IsFeatureFlagSet cf FlagGCMIV128 \<and>
        (IsFeatureFlagSet cf FlagPlaintextNames \<or>
         IsFeatureFlagSet cf FlagDirIV \<and> IsFeatureFlagSet cf FlagEMENames))"
proof -
  have known: "isFeatureFlagKnown c flag \<longleftrightarrow> flag \<in> range knownFlags" for c flag
    using set_all_flags by (auto simp: isFeatureFlagKnown_def)
  have find: "find (\<lambda>flag. \<not> isFeatureFlagKnown c flag) flags = None \<longleftrightarrow> set flags \<subseteq> range knownFlags"
    for c flags
    by (auto simp: find_None_iff known)
  show ?thesis
    by (auto simp: Load_def Let_def find requiredFlagsNormal_def requiredFlagsPlaintextNames_def
        split: option.splits sum.splits if_splits)
      (use find in \<open>metis option.distinct(1)\<close>)+
qed

text \<open>
  C34: \<^verbatim>\<open>Load\<close> accepts a config file exactly when it is readable, not empty, well-formed,
  of the supported version, has no unknown feature flag and has every required one; which flags
  are required depends on whether file names are encrypted.
\<close>

theorem Load_accepts_iff:
  "Load unmarshal lfs filename = Inr cf \<longleftrightarrow>
     (\<exists>js cf0. lfs filename = Some js \<and> js \<noteq> [] \<and> unmarshal js = Inr cf0 \<and>
        cf = cf0\<lparr>conf_filename := filename\<rparr> \<and> Version cf = CurrentVersion \<and>
        set (FeatureFlags cf) \<subseteq> range knownFlags \<and> IsFeatureFlagSet cf FlagGCMIV128 \<and>
        (IsFeatureFlagSet cf FlagPlaintextNames \<or>
         IsFeatureFlagSet cf FlagDirIV \<and> IsFeatureFlagSet cf FlagEMENames))"
  by (rule Load_iff)

text \<open>
  C29: a config file is replaced atomically: after \<^verbatim>\<open>WriteFile\<close>, whatever the operating
  system reported, the file under the config's name is the old one if there was an error and the
  complete new one, with a newline at the end, if there was none; apart from the temporary file
  nothing else changes.
\<close>

theorem WriteFile_atomic:
  assumes "WriteFile marshal flt lfs cf = (err, lfs')"
  shows "(err \<noteq> None \<longrightarrow> lfs' (conf_filename cf) = lfs (conf_filename cf)) \<and>
    (err = None \<longrightarrow> (\<exists>js. marshal cf = Inr js \<and> lfs' (conf_filename cf) = Some (js @ [10]))) \<and>
    (\<forall>path. path \<noteq> conf_filename cf \<and> path \<noteq> conf_filename cf @ ''.tmp'' \<longrightarrow> lfs' path = lfs path)"
  using assms
  by (auto simp: WriteFile_def Let_def split: option.splits sum.splits if_splits prod.splits)

theorem WriteFile_atomic_witness:
  "(snd (WriteFile (\<lambda>_. Inr [7]) \<lparr>open_err = None, write_err = Some (ExternalErr ''disk full'', 1),
      close_err = None, rename_err = None\<rparr> [''gocryptfs.conf'' \<mapsto> [1]] demo_conf)) ''gocryptfs.conf'' = Some [1]"
  using WriteFile_atomic [of "\<lambda>_. Inr [7]" "\<lparr>open_err = None, write_err = Some (ExternalErr ''disk full'', 1),
      close_err = None, rename_err = None\<rparr>" "[''gocryptfs.conf'' \<mapsto> [1]]" demo_conf
      "fst (WriteFile (\<lambda>_. Inr [7]) \<lparr>open_err = None, write_err = Some (ExternalErr ''disk full'', 1),
      close_err = None, rename_err = None\<rparr> [''gocryptfs.conf'' \<mapsto> [1]] demo_conf)"]
  by (simp add: WriteFile_def Let_def demo_conf_def)

text \<open>
  Weak scrypt parameters never reach scrypt: if any parameter of a config file is below
  its limit the process ends with the exit code for scrypt parameters; otherwise the derived
  key is exactly what scrypt returns for them.
\<close>

lemma DeriveKey_strong:
  "DeriveKey P s pw =
     (if ScryptN s < 1024 \<or> ScryptR s < 8 \<or> ScryptP s < 1 \<or> length (Salt s) < 32 \<or> ScryptKeyLen s < 32
      then Inl (OsExit 13)
      else case scrypt_Key P pw (Salt s) (ScryptN s) (ScryptR s) (ScryptP s) (ScryptKeyLen s) of
          Inl (Err e) \<Rightarrow> Inl (Panic (LogPanic ''DeriveKey failed: %v''))
        | r \<Rightarrow> r)"
  by (simp add: DeriveKey_def validateParams_def scryptMinLogN_def scryptMinR_def scryptMinP_def
      scryptMinSaltLen_def KeyLen_def)

text \<open>
  A config file with an empty encrypted key is accepted with every password: the block
  decryption returns an empty block as it is, so that the master key is empty. The length of the
  key is not checked before it reaches \<^verbatim>\<open>cryptocore.New\<close>, which panics.
\<close>

lemma DecryptMasterKey_empty:
  assumes "crypto_lib P" "EncryptedKey cf = []" "DeriveKey P (ScryptObject cf) password = Inr h" "length h = KeyLen"
  shows "DecryptMasterKey P cf password = Inr []" "panics (CryptoCore_New P [] BackendGoGCM 128 hkdf False)"
proof -
  obtain cc ce where "getKeyEncrypter P h (IsFeatureFlagSet cf FlagHKDF) = Inr ce" "enc_ok cc ce"
    "AEADBackend cc = BackendGoGCM"
    using crypto_lib.getKeyEncrypter_ok [OF assms(1,4)] by metis
  then show "DecryptMasterKey P cf password = Inr []"
    using assms(2,3) crypto_lib.ContentEnc_Wipe_gcm [OF assms(1)]
    by (simp add: DecryptMasterKey_def DecryptBlock_def)
  show "panics (CryptoCore_New P [] BackendGoGCM 128 hkdf False)"
    by (simp add: CryptoCore_New_def KeyLen_def)
qed

definition no_faults :: os_faults where
  "no_faults = \<lparr>open_err = None, write_err = None, close_err = None, rename_err = None\<rparr>"

text \<open>The config that \<^verbatim>\<open>Create\<close> fills in, without its key.\<close>

definition fresh_conf :: "string \<Rightarrow> string \<Rightarrow> bool \<Rightarrow> bool \<Rightarrow> bytes \<Rightarrow> ConfFile" where
  "fresh_conf filename creator plaintextNames aessiv trezorPayload =
     \<lparr>Creator = creator, EncryptedKey = [],
      ScryptObject = \<lparr>Salt = [], ScryptN = 0, ScryptR = 0, ScryptP = 0, ScryptKeyLen = 0\<rparr>,
      Version = CurrentVersion, FeatureFlags = create_flags plaintextNames aessiv trezorPayload,
      TrezorPayload = trezorPayload, conf_filename = filename\<rparr>"

lemma fresh_conf_flags:
  "IsFeatureFlagSet (fresh_conf f c p a t) FlagHKDF" "IsFeatureFlagSet (fresh_conf f c p a t) FlagGCMIV128"
  "IsFeatureFlagSet (fresh_conf f c p a t) FlagPlaintextNames \<or>
   IsFeatureFlagSet (fresh_conf f c p a t) FlagDirIV \<and> IsFeatureFlagSet (fresh_conf f c p a t) FlagEMENames"
  "set (FeatureFlags (fresh_conf f c p a t)) \<subseteq> range knownFlags"
  by (auto simp: IsFeatureFlagSet_def fresh_conf_def create_flags_def simp del: knownFlags.simps
      simp: knownFlags_inject)

lemma Load_fresh:
  assumes "lfs filename = Some js" "js \<noteq> []" "unmarshal js = Inr cf"
    and "cf = (fresh_conf filename c p a t)\<lparr>ScryptObject := s, EncryptedKey := k\<rparr>"
  shows "Load unmarshal lfs filename = Inr cf"
proof -
  have "IsFeatureFlagSet cf = IsFeatureFlagSet (fresh_conf filename c p a t)"
    "FeatureFlags cf = FeatureFlags (fresh_conf filename c p a t)" "Version cf = CurrentVersion"
    "cf = cf\<lparr>conf_filename := filename\<rparr>"
    using assms(4) by (simp_all add: IsFeatureFlagSet_def fun_eq_iff fresh_conf_def)
  then show ?thesis
    unfolding Load_iff using assms(1-3) fresh_conf_flags by auto
qed

text \<open>
  C15: a new config file unlocks: when \<^verbatim>\<open>Create\<close> is run with a password and the file
  operations succeed, loading the file it wrote and decrypting it with that password yields the
  master key that was generated, in every combination of the creation options.
\<close>

theorem Create_LoadAndDecrypt:
  assumes "crypto_lib P" and "logN_ok logN" and "password \<noteq> []"
    and "(if devrandom then dev_random KeyLen else key_rand KeyLen) = Inr key" and "length key = KeyLen"
    and "salt_rand KeyLen = Inr salt" and "length salt = 32" and "NewScryptKDF salt_rand logN = Inr kdf"
    and "prefetch_read rp 16 = Inr (nonce, rp')" and "nonce \<noteq> replicate 16 0"
    and "lfs (filename @ ''.tmp'') = None"
    and "\<forall>k. \<exists>js. marshal ((fresh_conf filename creator plainNames aessiv trezor)\<lparr>ScryptObject := kdf, EncryptedKey := k\<rparr>)
               = Inr js \<and> unmarshal (js @ [10]) =
             Inr ((fresh_conf filename creator plainNames aessiv trezor)\<lparr>ScryptObject := kdf, EncryptedKey := k\<rparr>)"
  shows "\<exists>lfs' cf. Create P marshal no_faults key_rand dev_random salt_rand rp lfs filename password plainNames logN
             creator aessiv devrandom trezor = Inr (None, lfs', rp') \<and>
           LoadAndDecrypt P unmarshal lfs' filename password = Inr (Some key, cf)"
proof -
  let ?cf = "fresh_conf filename creator plainNames aessiv trezor"
  have iv: "key_iv ?cf = 16"
    by (simp add: key_iv_def fresh_conf_flags)
  obtain cf where e: "EncryptKey P salt_rand rp ?cf key password logN = Inr (cf, rp')"
      "DecryptMasterKey P cf password = Inr key"
      "cf = ?cf\<lparr>ScryptObject := ScryptObject cf, EncryptedKey := EncryptedKey cf\<rparr>"
    using crypto_lib.EncryptKey_seals [of P salt_rand salt logN key rp ?cf nonce rp' password] assms iv
    by (auto simp: KeyLen_def)
  have "ScryptObject cf = kdf"
    using e(1) assms(8) by (auto simp: EncryptKey_def split: sum.splits)
  then have cf: "cf = ?cf\<lparr>ScryptObject := kdf, EncryptedKey := EncryptedKey cf\<rparr>"
    using e(3) by simp
  then obtain js where js: "marshal cf = Inr js" "unmarshal (js @ [10]) = Inr cf"
    using assms(12) by metis
  have name: "conf_filename cf = filename"
    by (subst e(3)) (simp add: fresh_conf_def)
  define lfs' where "lfs' = lfs(filename @ ''.tmp'' := None, filename \<mapsto> js @ [10])"
  have "WriteFile marshal no_faults lfs cf = (None, lfs')"
    using js(1) assms(11) name by (auto simp: WriteFile_def Let_def no_faults_def lfs'_def)
  moreover have "(if devrandom then randBytesDevRandom dev_random KeyLen else RandBytes key_rand KeyLen) = Inr key"
    using assms(4) by (auto simp: randBytesDevRandom_def RandBytes_def split: if_splits)
  moreover have "(if length trezor > 0 then trezor else []) = trezor"
    by simp
  ultimately have "Create P marshal no_faults key_rand dev_random salt_rand rp lfs filename password plainNames logN
      creator aessiv devrandom trezor = Inr (None, lfs', rp')"
    using e(1) unfolding Create_def fresh_conf_def by (simp only: Let_def) simp
  moreover have "Load unmarshal lfs' filename = Inr cf"
    using js(2) cf by (intro Load_fresh [where js = "js @ [10]" and k = "EncryptedKey cf"]) (simp_all add: lfs'_def)
  ultimately show ?thesis
    using e(2) assms(3) by (simp add: LoadAndDecrypt_def)
qed

definition demo_kdf :: ScryptKDF where
  "demo_kdf = \<lparr>Salt = replicate 32 3, ScryptN = 65536, ScryptR = 8, ScryptP = 1, ScryptKeyLen = 32\<rparr>"

definition demo_marshal :: "ConfFile \<Rightarrow> goerr + bytes" where
  "demo_marshal cf = Inr (EncryptedKey cf)"

definition demo_unmarshal :: "bytes \<Rightarrow> goerr + ConfFile" where
  "demo_unmarshal js =
     Inr ((fresh_conf ''c'' ''me'' False False [])\<lparr>ScryptObject := demo_kdf, EncryptedKey := butlast js\<rparr>)"

theorem Create_LoadAndDecrypt_witness:
  "\<exists>lfs' rp' cf. Create demo_prims demo_marshal no_faults (\<lambda>n. Inr (replicate n 9)) (\<lambda>n. Inl (Err IoEOF))
       (\<lambda>n. Inr (replicate n 3)) demo_rp Map.empty ''c'' [1] False 0 ''me'' False False [] = Inr (None, lfs', rp') \<and>
     LoadAndDecrypt demo_prims demo_unmarshal lfs' ''c'' [1] = Inr (Some (replicate 32 9), cf)"
proof -
  obtain rp' where rp: "prefetch_read demo_rp 16 = Inr (replicate 16 1, rp')"
    by (simp add: demo_rp_def prefetch_read_def prefetchN_def buffer_Read_def Let_def)
  have kdf: "NewScryptKDF (\<lambda>n. Inr (replicate n 3)) 0 = Inr demo_kdf"
    by (simp add: NewScryptKDF_def RandBytes_def demo_kdf_def ScryptDefaultLogN_def KeyLen_def)
  show ?thesis
    using Create_LoadAndDecrypt [OF demo_lib.crypto_lib_axioms, of 0 "[1]" False "\<lambda>n. Inl (Err IoEOF)"
        "\<lambda>n. Inr (replicate n 9)" "replicate 32 9" "\<lambda>n. Inr (replicate n 3)" "replicate 32 3" demo_kdf
        demo_rp "replicate 16 1" rp' Map.empty "''c''" demo_marshal "''me''" False False "[]" demo_unmarshal] rp kdf
    by (auto simp: KeyLen_def logN_ok_def replicate_eq_replicate demo_marshal_def demo_unmarshal_def)
qed

end
