(* ===== verification/FastCache.thy ===== *)
theory FastCache
  imports Gc_Prelude
begin

text \<open>
  \<^verbatim>\<open>filetree/fastcache.go\<close>: the cache of resolved directories, a hash map whose nodes are also
  linked into a list. The nodes live in a heap and the pointers are addresses, so that every
  write of the code is a write to the heap, in the order of the code. Dereferencing a nil
  pointer panics. The methods hold the cache's mutex from the first line to the return and are
  therefore atomic.
\<close>

section \<open>State\<close>

record DirMapping =
  PlaintextPath :: string
  CiphertextPath :: string
  dm_prev :: "nat option"
  dm_next :: "nat option"

record FastCache =
  storage :: "string \<Rightarrow> nat option"
  cacheSize :: int
  count :: int
  fc_head :: "nat option"
  fc_last :: "nat option"
  fc_heap :: "nat \<Rightarrow> DirMapping option"
  fc_alloc :: nat

definition NewFastCache :: "int \<Rightarrow> FastCache" where
  "NewFastCache n = \<lparr>storage = Map.empty, cacheSize = n, count = 0, fc_head = None, fc_last = None,
     fc_heap = Map.empty, fc_alloc = 0\<rparr>"

text \<open>Reading and writing a node through a pointer.\<close>

definition deref :: "FastCache \<Rightarrow> nat option \<Rightarrow> DirMapping result" where
  "deref f a =
     (case a of
        None \<Rightarrow> Inl (Panic NilDeref)
      | Some x \<Rightarrow> (case fc_heap f x of None \<Rightarrow> Inl (Panic NilDeref) | Some d \<Rightarrow> Inr d))"

definition write_node :: "FastCache \<Rightarrow> nat option \<Rightarrow> (DirMapping \<Rightarrow> DirMapping) \<Rightarrow> FastCache result" where
  "write_node f a g =
     (case a of
        None \<Rightarrow> Inl (Panic NilDeref)
      | Some x \<Rightarrow>
          (case fc_heap f x of
             None \<Rightarrow> Inl (Panic NilDeref)
           | Some d \<Rightarrow> Inr (f\<lparr>fc_heap := (fc_heap f)(x \<mapsto> g d)\<rparr>)))"

section \<open>Operations\<close>

definition refreshNode :: "FastCache \<Rightarrow> nat \<Rightarrow> FastCache result" where
  "refreshNode f d =
     (case deref f (Some d) of
        Inl e \<Rightarrow> Inl e
      | Inr node \<Rightarrow>
          if dm_next node = None then Inr f
          else
            case (if dm_prev node \<noteq> None
                  then write_node f (dm_prev node) (\<lambda>n. n\<lparr>dm_next := dm_next node\<rparr>)
                  else Inr (f\<lparr>fc_head := dm_next node\<rparr>)) of
              Inl e \<Rightarrow> Inl e
            | Inr f1 \<Rightarrow>
            case write_node f1 (Some d) (\<lambda>n. n\<lparr>dm_prev := fc_last f1, dm_next := None\<rparr>) of
              Inl e \<Rightarrow> Inl e
            | Inr f2 \<Rightarrow>
            case write_node f2 (fc_last f2) (\<lambda>n. n\<lparr>dm_next := Some d\<rparr>) of
              Inl e \<Rightarrow> Inl e
            | Inr f3 \<Rightarrow> Inr (f3\<lparr>fc_last := Some d\<rparr>))"

text \<open>A copy of the node that was found, and the cache.\<close>

definition Find :: "FastCache \<Rightarrow> string \<Rightarrow> (DirMapping option \<times> FastCache) result" where
  "Find f pPath =
     (case storage f pPath of
        None \<Rightarrow> Inr (None, f)
      | Some d \<Rightarrow>
          (case refreshNode f d of
             Inl e \<Rightarrow> Inl e
           | Inr f1 \<Rightarrow> (case deref f1 (Some d) of Inl e \<Rightarrow> Inl e | Inr node \<Rightarrow> Inr (Some node, f1))))"

definition Clear :: "FastCache \<Rightarrow> FastCache" where
  "Clear f = f\<lparr>fc_head := None, fc_last := None, storage := Map.empty, count := 0\<rparr>"

definition Store_found :: "FastCache \<Rightarrow> nat \<Rightarrow> string \<Rightarrow> FastCache result" where
  "Store_found f d cPath =
     (case refreshNode f d of
        Inl e \<Rightarrow> Inl e
      | Inr f1 \<Rightarrow> write_node f1 (Some d) (\<lambda>n. n\<lparr>CiphertextPath := cPath\<rparr>))"

text \<open>At the limit the node at the head is reused.\<close>

definition Store_evict :: "FastCache \<Rightarrow> string \<Rightarrow> string \<Rightarrow> FastCache result" where
  "Store_evict f pPath cPath =
     (case deref f (fc_head f) of
        Inl e \<Rightarrow> Inl e
      | Inr node \<Rightarrow>
      case fc_head f of
        None \<Rightarrow> Inl (Panic NilDeref)
      | Some d \<Rightarrow>
      case refreshNode f d of
        Inl e \<Rightarrow> Inl e
      | Inr f1 \<Rightarrow>
      case write_node f1 (Some d) (\<lambda>n. n\<lparr>PlaintextPath := pPath, CiphertextPath := cPath\<rparr>) of
        Inl e \<Rightarrow> Inl e
      | Inr f2 \<Rightarrow>
          Inr (f2\<lparr>count := cacheSize f2, storage := (storage f2)(PlaintextPath node := None, pPath \<mapsto> d)\<rparr>))"

definition Store_new :: "FastCache \<Rightarrow> string \<Rightarrow> string \<Rightarrow> FastCache result" where
  "Store_new f pPath cPath =
     (let a = fc_alloc f;
          newNode = \<lparr>PlaintextPath = pPath, CiphertextPath = cPath, dm_prev = None, dm_next = None\<rparr>;
          f1 = f\<lparr>fc_heap := (fc_heap f)(a \<mapsto> newNode), fc_alloc := Suc a, storage := (storage f)(pPath \<mapsto> a)\<rparr>
      in if fc_head f1 = None then Inr (f1\<lparr>fc_head := Some a, fc_last := Some a\<rparr>)
         else
           case write_node f1 (Some a) (\<lambda>n. n\<lparr>dm_prev := fc_last f1\<rparr>) of
             Inl e \<Rightarrow> Inl e
           | Inr f2 \<Rightarrow>
           case write_node f2 (fc_last f2) (\<lambda>n. n\<lparr>dm_next := Some a\<rparr>) of
             Inl e \<Rightarrow> Inl e
           | Inr f3 \<Rightarrow> Inr (f3\<lparr>fc_last := Some a\<rparr>))"

definition Store :: "FastCache \<Rightarrow> string \<Rightarrow> string \<Rightarrow> FastCache result" where
  "Store f pPath cPath =
     (case storage f pPath of
        Some d \<Rightarrow> Store_found f d cPath
      | None \<Rightarrow>
          let f1 = f\<lparr>count := count f + 1\<rparr> in
          if count f1 > cacheSize f1 then Store_evict f1 pPath cPath
          else Store_new f1 pPath cPath)"

section \<open>The invariant\<close>

text \<open>The nodes that the hash map refers to, and the contents of the cache.\<close>

definition live :: "FastCache \<Rightarrow> nat set" where
  "live f = ran (storage f)"

definition contents :: "FastCache \<Rightarrow> string \<Rightarrow> string option" where
  "contents f p =
     (case storage f p of
        None \<Rightarrow> None
      | Some a \<Rightarrow> (case fc_heap f a of None \<Rightarrow> None | Some d \<Rightarrow> Some (CiphertextPath d)))"

text \<open>
  Every key leads to a node that carries it; all pointers of the cache and of its nodes lead to
  such nodes; the last node, and no other, has no successor.
\<close>

definition keys_ok :: "FastCache \<Rightarrow> bool" where
  "keys_ok f \<longleftrightarrow> (\<forall>p a. storage f p = Some a \<longrightarrow> (\<exists>d. fc_heap f a = Some d \<and> PlaintextPath d = p))"

definition node_ok :: "FastCache \<Rightarrow> nat \<Rightarrow> DirMapping \<Rightarrow> bool" where
  "node_ok f a d \<longleftrightarrow> set_option (dm_prev d) \<subseteq> live f \<and> set_option (dm_next d) \<subseteq> live f \<and>
     (dm_next d = None \<longleftrightarrow> fc_last f = Some a)"

definition ends_ok :: "FastCache \<Rightarrow> bool" where
  "ends_ok f \<longleftrightarrow>
     (if storage f = Map.empty then fc_head f = None \<and> fc_last f = None
      else \<exists>h \<in> live f. \<exists>l \<in> live f. fc_head f = Some h \<and> fc_last f = Some l)"

definition linked :: "FastCache \<Rightarrow> bool" where
  "linked f \<longleftrightarrow> keys_ok f \<and> ends_ok f \<and> (\<forall>a \<in> live f. \<forall>d. fc_heap f a = Some d \<longrightarrow> node_ok f a d) \<and>
     (\<forall>a \<in> dom (fc_heap f). a < fc_alloc f)"

definition cache_inv :: "FastCache \<Rightarrow> bool" where
  "cache_inv f \<longleftrightarrow> linked f \<and> finite (dom (storage f)) \<and> count f = int (card (dom (storage f))) \<and>
     0 < cacheSize f \<and> count f \<le> cacheSize f"

lemma storage_node:
  assumes "linked f" "storage f p = Some a"
  obtains d where "fc_heap f a = Some d" "PlaintextPath d = p" "a \<in> live f"
proof -
  have "keys_ok f"
    using assms(1) unfolding linked_def by blast
  then show thesis
    using that assms(2) unfolding keys_ok_def live_def by (meson ranI)
qed

lemma live_node:
  assumes "linked f" "a \<in> live f"
  obtains d where "fc_heap f a = Some d" "storage f (PlaintextPath d) = Some a" "node_ok f a d"
proof -
  obtain p where p: "storage f p = Some a"
    using assms(2) by (auto simp: live_def ran_def)
  then obtain d where d: "fc_heap f a = Some d" "PlaintextPath d = p"
    using assms(1) storage_node by metis
  then have "node_ok f a d"
    using assms unfolding linked_def by blast
  then show thesis
    using that p d by blast
qed

lemma linked_ends:
  assumes "linked f" "a \<in> live f"
  obtains h l where "fc_head f = Some h" "h \<in> live f" "fc_last f = Some l" "l \<in> live f"
proof -
  have "storage f \<noteq> Map.empty"
    using assms(2) by (auto simp: live_def)
  then show thesis
    using assms(1) that unfolding linked_def ends_ok_def by auto
qed

text \<open>The counter plays no part in the link structure.\<close>

lemma live_count [simp]: "live (f\<lparr>count := n\<rparr>) = live f"
  by (simp add: live_def)

lemma node_ok_count [simp]: "node_ok (f\<lparr>count := n\<rparr>) = node_ok f"
  by (rule ext)+ (simp add: node_ok_def)

lemma linked_count [simp]: "linked (f\<lparr>count := n\<rparr>) = linked f"
  by (simp add: linked_def keys_ok_def ends_ok_def)

lemma contents_count [simp]: "contents (f\<lparr>count := n\<rparr>) = contents f"
  by (rule ext) (simp add: contents_def cong: option.case_cong)

lemma cache_inv_New: "0 < n \<Longrightarrow> cache_inv (NewFastCache n)"
  by (simp add: cache_inv_def linked_def keys_ok_def ends_ok_def NewFastCache_def live_def)

lemma cache_inv_Clear: "cache_inv f \<Longrightarrow> cache_inv (Clear f)"
  by (auto simp: cache_inv_def linked_def keys_ok_def ends_ok_def Clear_def live_def)

section \<open>Each operation\<close>

text \<open>The part of a cache that moving a node does not change.\<close>

definition node_paths :: "DirMapping \<Rightarrow> string \<times> string" where
  "node_paths d = (PlaintextPath d, CiphertextPath d)"

definition heap_paths :: "FastCache \<Rightarrow> nat \<Rightarrow> (string \<times> string) option" where
  "heap_paths f x = map_option node_paths (fc_heap f x)"

definition same_paths :: "FastCache \<Rightarrow> FastCache \<Rightarrow> bool" where
  "same_paths f f' \<longleftrightarrow> storage f' = storage f \<and> cacheSize f' = cacheSize f \<and> count f' = count f \<and>
     fc_alloc f' = fc_alloc f \<and> heap_paths f' = heap_paths f"

lemma same_paths_refl [simp]: "same_paths f f"
  by (simp add: same_paths_def)

lemma same_paths_trans: "same_paths f g \<Longrightarrow> same_paths g h \<Longrightarrow> same_paths f h"
  by (simp add: same_paths_def)

lemma contents_heap_paths: "contents f p = (case storage f p of None \<Rightarrow> None | Some a \<Rightarrow> map_option snd (heap_paths f a))"
  by (auto simp: contents_def heap_paths_def node_paths_def split: option.splits)

lemma same_paths_contents: "same_paths f f' \<Longrightarrow> contents f' = contents f"
  by (rule ext) (simp add: contents_heap_paths same_paths_def cong: option.case_cong)

lemma keys_ok_heap_paths: "keys_ok f \<longleftrightarrow> (\<forall>p a. storage f p = Some a \<longrightarrow> map_option fst (heap_paths f a) = Some p)"
  by (auto simp: keys_ok_def heap_paths_def node_paths_def)

lemma dom_heap_paths: "dom (fc_heap f) = dom (heap_paths f)"
  by (simp add: heap_paths_def dom_def)

text \<open>
  A link structure with the same keys is again linked if the node that becomes the last one is
  the only one without a successor and every pointer leads to a live node.
\<close>

lemma linked_relink:
  assumes f: "linked f" and s: "same_paths f f'" and last: "fc_last f' = Some a" "a \<in> live f"
    and hd: "fc_head f' = Some h" "h \<in> live f"
    and nodes: "\<And>b d. b \<in> live f \<Longrightarrow> fc_heap f' b = Some d \<Longrightarrow>
      set_option (dm_prev d) \<subseteq> live f \<and> set_option (dm_next d) \<subseteq> live f \<and> (dm_next d = None \<longleftrightarrow> b = a)"
  shows "linked f'"
proof -
  have st: "storage f' = storage f" "live f' = live f"
    using s by (simp_all add: same_paths_def live_def)
  have "storage f \<noteq> Map.empty"
    using last(2) by (auto simp: live_def)
  then have "ends_ok f'"
    using hd last st by (simp add: ends_ok_def)
  moreover have "keys_ok f'"
    using f s by (simp add: linked_def keys_ok_heap_paths same_paths_def)
  moreover have "\<forall>b \<in> dom (fc_heap f'). b < fc_alloc f'"
    using f s by (simp add: linked_def dom_heap_paths same_paths_def)
  moreover have "\<forall>b \<in> live f'. \<forall>d. fc_heap f' b = Some d \<longrightarrow> node_ok f' b d"
  proof (intro ballI allI impI)
    fix b d
    assume "b \<in> live f'" "fc_heap f' b = Some d"
    then have "set_option (dm_prev d) \<subseteq> live f \<and> set_option (dm_next d) \<subseteq> live f \<and> (dm_next d = None \<longleftrightarrow> b = a)"
      using nodes st(2) by simp
    then show "node_ok f' b d"
      using st(2) last(1) by (simp add: node_ok_def eq_commute)
  qed
  ultimately show ?thesis
    by (simp add: linked_def)
qed

lemma write_node_ok:
  "fc_heap f x = Some d \<Longrightarrow> write_node f (Some x) g = Inr (f\<lparr>fc_heap := (fc_heap f)(x \<mapsto> g d)\<rparr>)"
  by (simp add: write_node_def)

lemma same_paths_write:
  "fc_heap f x = Some d \<Longrightarrow> node_paths d' = node_paths d \<Longrightarrow> same_paths f (f\<lparr>fc_heap := (fc_heap f)(x \<mapsto> d')\<rparr>)"
  by (simp add: same_paths_def heap_paths_def fun_eq_iff)

lemma refreshNode_last:
  assumes "linked f" "a \<in> live f" "fc_heap f a = Some d" "dm_next d = None"
  shows "refreshNode f a = Inr f" "fc_last f = Some a"
proof -
  show "refreshNode f a = Inr f"
    using assms by (simp add: refreshNode_def deref_def)
  have "node_ok f a d"
    using assms(1-3) unfolding linked_def by blast
  then show "fc_last f = Some a"
    using assms(4) by (simp add: node_ok_def)
qed

text \<open>
  The heap after a node \<open>a\<close> with the successor \<open>nx\<close> has been moved behind the last node
  \<open>l\<close>: its predecessor \<open>p\<close>, if it has one, skips it.
\<close>

definition moved :: "FastCache \<Rightarrow> nat \<Rightarrow> DirMapping \<Rightarrow> nat \<Rightarrow> nat \<Rightarrow> FastCache" where
  "moved f a d nx l =
     (let h1 = (case dm_prev d of
            Some p \<Rightarrow> (fc_heap f)(p := map_option (dm_next_update (\<lambda>_. Some nx)) (fc_heap f p))
          | None \<Rightarrow> fc_heap f);
          h2 = h1(a := map_option (\<lambda>n. n\<lparr>dm_prev := Some l, dm_next := None\<rparr>) (h1 a));
          h3 = h2(l := map_option (dm_next_update (\<lambda>_. Some a)) (h2 l))
      in f\<lparr>fc_heap := h3, fc_last := Some a,
           fc_head := (if dm_prev d = None then Some nx else fc_head f)\<rparr>)"

lemma refreshNode_moved:
  assumes "linked f" "fc_heap f a = Some d" "dm_next d = Some nx" "fc_last f = Some l" "fc_heap f l = Some dl"
    and "\<And>p. dm_prev d = Some p \<Longrightarrow> \<exists>dp. fc_heap f p = Some dp"
  shows "refreshNode f a = Inr (moved f a d nx l)"
proof (cases "dm_prev d")
  case None
  then show ?thesis
    using assms by (auto simp: refreshNode_def deref_def write_node_def moved_def Let_def)
next
  case (Some p)
  then obtain dp where "fc_heap f p = Some dp"
    using assms(6) by blast
  with Some show ?thesis
    using assms by (auto simp: refreshNode_def deref_def write_node_def moved_def Let_def)
qed

lemma node_paths_update [simp]:
  "node_paths (dm_next_update g d) = node_paths d" "node_paths (dm_prev_update g d) = node_paths d"
  by (simp_all add: node_paths_def)

lemma moved_same_paths: "same_paths f (moved f a d nx l)"
  by (auto simp: same_paths_def moved_def Let_def heap_paths_def fun_eq_iff option.map_comp comp_def split: option.splits)

lemma moved_node:
  assumes "fc_heap (moved f a d nx l) b = Some d'" "a \<noteq> l"
  shows "\<exists>d0. fc_heap f b = Some d0 \<and> (dm_prev d' = dm_prev d0 \<or> b = a \<and> dm_prev d' = Some l) \<and>
    (b = a \<and> dm_next d' = None \<or> b = l \<and> dm_next d' = Some a \<or>
     b \<noteq> a \<and> b \<noteq> l \<and> (dm_next d' = dm_next d0 \<or> dm_next d' = Some nx))"
  using assms by (auto simp: moved_def Let_def split: option.splits if_splits)

lemma refreshNode_ok:
  assumes "linked f" "a \<in> live f"
  obtains f' where "refreshNode f a = Inr f'" "linked f'" "same_paths f f'" "fc_last f' = Some a"
proof -
  obtain d where d: "fc_heap f a = Some d" "node_ok f a d"
    using assms live_node by metis
  show thesis
  proof (cases "dm_next d")
    case None
    then show thesis
      using that [of f] assms refreshNode_last [OF assms d(1)] by simp
  next
    case (Some nx)
    obtain h l where hl: "fc_head f = Some h" "h \<in> live f" "fc_last f = Some l" "l \<in> live f"
      using assms by (rule linked_ends)
    obtain dl where dl: "fc_heap f l = Some dl"
      using assms(1) hl(4) live_node by metis
    have la: "a \<noteq> l" and nx: "nx \<in> live f"
      using d(2) Some hl(3) by (auto simp: node_ok_def)
    have p: "\<exists>dp. fc_heap f p = Some dp" if "dm_prev d = Some p" for p
    proof -
      have "p \<in> live f"
        using d(2) that by (simp add: node_ok_def)
      then show ?thesis
        using assms(1) live_node by metis
    qed
    let ?f = "moved f a d nx l"
    have "linked ?f"
    proof (rule linked_relink [OF assms(1) moved_same_paths _ assms(2)])
      show "fc_last ?f = Some a"
        by (simp add: moved_def Let_def)
      show "fc_head ?f = Some (if dm_prev d = None then nx else h)" "(if dm_prev d = None then nx else h) \<in> live f"
        using hl nx by (simp_all add: moved_def Let_def)
      fix b d'
      assume b: "b \<in> live f" "fc_heap ?f b = Some d'"
      obtain d0 where d0: "fc_heap f b = Some d0" "dm_prev d' = dm_prev d0 \<or> b = a \<and> dm_prev d' = Some l"
        "b = a \<and> dm_next d' = None \<or> b = l \<and> dm_next d' = Some a \<or>
         b \<noteq> a \<and> b \<noteq> l \<and> (dm_next d' = dm_next d0 \<or> dm_next d' = Some nx)"
        using moved_node [OF b(2) la] by blast
      have ok: "node_ok f b d0"
        using assms(1) b(1) d0(1) unfolding linked_def by blast
      have "set_option (dm_prev d') \<subseteq> live f"
        using d0(2) ok hl(4) by (auto simp: node_ok_def)
      moreover have "set_option (dm_next d') \<subseteq> live f"
        using d0(3) ok assms(2) nx by (auto simp: node_ok_def)
      moreover have "dm_next d' = None \<longleftrightarrow> b = a"
        using d0(3) ok hl(3) la by (auto simp: node_ok_def)
      ultimately show "set_option (dm_prev d') \<subseteq> live f \<and> set_option (dm_next d') \<subseteq> live f \<and> (dm_next d' = None \<longleftrightarrow> b = a)"
        by blast
    qed
    moreover have "refreshNode f a = Inr ?f"
      by (rule refreshNode_moved [OF assms(1) d(1) Some hl(3) dl p])
    ultimately show thesis
      using that moved_same_paths by (simp add: moved_def Let_def)
  qed
qed

lemma live_same_paths: "same_paths f f' \<Longrightarrow> live f' = live f"
  by (simp add: same_paths_def live_def)

lemma Find_ok:
  assumes "linked f"
  obtains f' where "Find f p = Inr (map_option (\<lambda>a. the (fc_heap f' a)) (storage f p), f')" "linked f'" "same_paths f f'"
    "\<And>a. storage f p = Some a \<Longrightarrow> \<exists>d. fc_heap f' a = Some d \<and> PlaintextPath d = p \<and> contents f p = Some (CiphertextPath d)"
proof (cases "storage f p")
  case None
  then show thesis
    using that [of f] assms by (simp add: Find_def)
next
  case (Some a)
  obtain "a \<in> live f"
    using assms Some by (rule storage_node)
  then obtain f' where f': "refreshNode f a = Inr f'" "linked f'" "same_paths f f'"
    using assms refreshNode_ok by metis
  have st: "storage f' p = Some a"
    using f'(3) Some by (simp add: same_paths_def)
  then obtain d where d: "fc_heap f' a = Some d" "PlaintextPath d = p"
    using f'(2) storage_node by metis
  have "contents f p = Some (CiphertextPath d)"
    using same_paths_contents [OF f'(3)] st d(1) by (metis contents_def option.simps(5))
  then show thesis
    using that [of f'] f' Some d by (simp add: Find_def deref_def)
qed

text \<open>A live node can be given another key and value; the links stay as they are.\<close>

definition renamed :: "FastCache \<Rightarrow> nat \<Rightarrow> DirMapping \<Rightarrow> string \<Rightarrow> string \<Rightarrow> FastCache" where
  "renamed f a d p c =
     f\<lparr>fc_heap := (fc_heap f)(a \<mapsto> d\<lparr>PlaintextPath := p, CiphertextPath := c\<rparr>),
       storage := (storage f)(PlaintextPath d := None, p \<mapsto> a)\<rparr>"

lemma renamed_ok:
  assumes f: "linked f" and a: "storage f (PlaintextPath d) = Some a" "fc_heap f a = Some d"
    and p: "p = PlaintextPath d \<or> storage f p = None"
  shows "linked (renamed f a d p c)" "contents (renamed f a d p c) = (contents f)(PlaintextPath d := None, p \<mapsto> c)"
    "dom (storage (renamed f a d p c)) = insert p (dom (storage f) - {PlaintextPath d})"
proof -
  let ?f = "renamed f a d p c"
  have other: "b \<noteq> a \<and> (\<exists>d. fc_heap f b = Some d \<and> PlaintextPath d = q)"
    if "storage f q = Some b" "q \<noteq> PlaintextPath d" for q b
    using f that a(2) storage_node [OF f that(1)] by (metis option.inject)
  have live: "live ?f = live f"
  proof -
    have "ran ((storage f)(PlaintextPath d := None, p \<mapsto> a)) = insert a (ran ((storage f)(PlaintextPath d := None)))"
      using p by (intro ran_map_upd) auto
    also have "\<dots> = ran (storage f)"
      using a(1) by (auto simp: ran_def) (metis option.inject)
    finally show ?thesis
      by (simp add: live_def renamed_def)
  qed
  have keys: "keys_ok ?f"
    unfolding keys_ok_def using other by (auto simp: renamed_def)
  have "ends_ok ?f"
  proof -
    have "a \<in> live f"
      using a(1) by (auto simp: live_def ran_def)
    then obtain h l where "fc_head f = Some h" "h \<in> live f" "fc_last f = Some l" "l \<in> live f"
      by (rule linked_ends [OF f])
    moreover have "storage ?f \<noteq> Map.empty"
      by (auto simp: renamed_def dest: fun_cong [of _ _ p])
    ultimately show ?thesis
      using live by (simp add: ends_ok_def) (simp add: renamed_def)
  qed
  moreover have "\<forall>b \<in> live ?f. \<forall>e. fc_heap ?f b = Some e \<longrightarrow> node_ok ?f b e"
  proof (intro ballI allI impI)
    fix b e
    assume b: "b \<in> live ?f" "fc_heap ?f b = Some e"
    then obtain e0 where e0: "fc_heap f b = Some e0" "dm_prev e = dm_prev e0" "dm_next e = dm_next e0"
      using a(2) by (cases "b = a") (auto simp: renamed_def)
    then have "node_ok f b e0"
      using f b(1) live unfolding linked_def by blast
    then show "node_ok ?f b e"
      using e0 live by (simp add: node_ok_def) (simp add: renamed_def)
  qed
  moreover have "\<forall>b \<in> dom (fc_heap ?f). b < fc_alloc ?f"
    using f a(2) by (auto simp: linked_def renamed_def)
  ultimately show "linked ?f"
    using keys by (simp add: linked_def)
  show "contents ?f = (contents f)(PlaintextPath d := None, p \<mapsto> c)"
  proof
    fix q
    show "contents ?f q = ((contents f)(PlaintextPath d := None, p \<mapsto> c)) q"
      using other [of q] by (cases "storage f q") (auto simp: contents_def renamed_def split: option.splits)
  qed
  show "dom (storage ?f) = insert p (dom (storage f) - {PlaintextPath d})"
    by (auto simp: renamed_def split: if_splits)
qed

lemma Store_found_ok:
  assumes "linked f" "storage f p = Some a"
  obtains f' where "Store_found f a c = Inr f'" "linked f'" "contents f' = (contents f)(p \<mapsto> c)"
    "dom (storage f') = dom (storage f)" "cacheSize f' = cacheSize f" "count f' = count f"
proof -
  obtain "a \<in> live f"
    using assms by (rule storage_node)
  then obtain f1 where f1: "refreshNode f a = Inr f1" "linked f1" "same_paths f f1"
    using assms(1) refreshNode_ok by metis
  have st: "storage f1 p = Some a"
    using f1(3) assms(2) by (simp add: same_paths_def)
  then obtain d where d: "fc_heap f1 a = Some d" "PlaintextPath d = p"
    using f1(2) storage_node by metis
  have "renamed f1 a d p c = f1\<lparr>fc_heap := (fc_heap f1)(a \<mapsto> d\<lparr>CiphertextPath := c\<rparr>)\<rparr>"
    using st d(2) by (auto simp: renamed_def fun_upd_idem)
  then have "Store_found f a c = Inr (renamed f1 a d p c)"
    using f1(1) d(1) by (simp add: Store_found_def write_node_def)
  moreover have "dom (storage (renamed f1 a d p c)) = dom (storage f)"
    using renamed_ok(3) [OF f1(2) _ d(1), of p c] st d(2) f1(3) by (auto simp: same_paths_def)
  ultimately show thesis
    using that [of "renamed f1 a d p c"] renamed_ok(1,2) [OF f1(2) _ d(1), of p c] st d(2) f1(3)
      same_paths_contents [OF f1(3)] by (simp add: renamed_def same_paths_def)
qed

lemma Store_evict_ok:
  assumes "linked f" "storage f p = None" "storage f \<noteq> Map.empty"
  obtains f' v where "Store_evict f p c = Inr f'" "linked f'" "v \<in> dom (storage f)"
    "contents f' = (contents f)(v := None, p \<mapsto> c)" "dom (storage f') = insert p (dom (storage f) - {v})"
    "cacheSize f' = cacheSize f" "count f' = cacheSize f"
proof -
  obtain q b where "storage f q = Some b"
    using assms(3) by fastforce
  then have "b \<in> live f"
    by (auto simp: live_def ran_def)
  then obtain a where a: "fc_head f = Some a" "a \<in> live f"
    using assms(1) linked_ends by metis
  obtain d0 where d0: "fc_heap f a = Some d0" "storage f (PlaintextPath d0) = Some a"
    using assms(1) a(2) live_node by metis
  obtain f1 where f1: "refreshNode f a = Inr f1" "linked f1" "same_paths f f1"
    using assms(1) a(2) refreshNode_ok by metis
  have st: "storage f1 = storage f"
    using f1(3) by (simp add: same_paths_def)
  obtain d where d: "fc_heap f1 a = Some d" "PlaintextPath d = PlaintextPath d0"
    using f1(2) d0(2) st storage_node by metis
  let ?f = "renamed f1 a d p c"
  have r: "linked ?f" "contents ?f = (contents f)(PlaintextPath d0 := None, p \<mapsto> c)"
    "dom (storage ?f) = insert p (dom (storage f) - {PlaintextPath d0})"
    using renamed_ok [OF f1(2) _ d(1), of p c] d0(2) st d(2) assms(2) same_paths_contents [OF f1(3)] by simp_all
  have "Store_evict f p c = Inr (?f\<lparr>count := cacheSize f\<rparr>)"
    using a(1) d0(1) f1 d by (simp add: Store_evict_def deref_def write_node_def renamed_def same_paths_def)
  moreover have "cacheSize ?f = cacheSize f"
    using f1(3) by (simp add: renamed_def same_paths_def)
  ultimately show thesis
    using that [of "?f\<lparr>count := cacheSize f\<rparr>" "PlaintextPath d0"] r d0(2) by auto
qed

text \<open>A node for a new key goes behind the last one.\<close>

lemma Store_new_unfold:
  assumes "linked f" "fc_last f = Some l" "fc_heap f l = Some dl" "fc_head f \<noteq> None"
  defines "a \<equiv> fc_alloc f"
  shows "Store_new f p c = Inr (f\<lparr>storage := (storage f)(p \<mapsto> a), fc_last := Some a, fc_alloc := Suc a,
     fc_heap := (fc_heap f)(a \<mapsto> \<lparr>PlaintextPath = p, CiphertextPath = c, dm_prev = Some l, dm_next = None\<rparr>,
                 l \<mapsto> dl\<lparr>dm_next := Some a\<rparr>)\<rparr>)" "l \<noteq> a"
proof -
  have "l \<in> dom (fc_heap f)"
    using assms(3) by auto
  then show "l \<noteq> a"
    using assms(1) unfolding a_def linked_def by blast
  then show "Store_new f p c = Inr (f\<lparr>storage := (storage f)(p \<mapsto> a), fc_last := Some a, fc_alloc := Suc a,
     fc_heap := (fc_heap f)(a \<mapsto> \<lparr>PlaintextPath = p, CiphertextPath = c, dm_prev = Some l, dm_next = None\<rparr>,
                 l \<mapsto> dl\<lparr>dm_next := Some a\<rparr>)\<rparr>)"
    using assms(2-4) unfolding a_def by (auto simp: Store_new_def Let_def write_node_def)
qed

lemma Store_new_linked:
  fixes c :: string
  assumes f: "linked f" and p: "storage f p = None" and l: "fc_last f = Some l" "l \<in> live f" "fc_heap f l = Some dl"
    and h: "fc_head f = Some h" "h \<in> live f"
  defines "a \<equiv> fc_alloc f"
  defines "f' \<equiv> f\<lparr>storage := (storage f)(p \<mapsto> a), fc_last := Some a, fc_alloc := Suc a,
     fc_heap := (fc_heap f)(a \<mapsto> \<lparr>PlaintextPath = p, CiphertextPath = c, dm_prev = Some l, dm_next = None\<rparr>,
                 l \<mapsto> dl\<lparr>dm_next := Some a\<rparr>)\<rparr>"
  shows "linked f'" "contents f' = (contents f)(p \<mapsto> c)"
proof -
  have fresh: "a \<notin> live f" "l \<noteq> a" "\<forall>b \<in> dom (fc_heap f). b < a"
  proof -
    show alloc: "\<forall>b \<in> dom (fc_heap f). b < a"
      using f unfolding linked_def a_def by blast
    show "l \<noteq> a"
      using alloc l(3) by auto
    show "a \<notin> live f"
    proof
      assume "a \<in> live f"
      then obtain d where "fc_heap f a = Some d"
        using f live_node by metis
      then show False
        using alloc by auto
    qed
  qed
  have live: "live f' = insert a (live f)"
    using p by (simp add: f'_def live_def ran_map_upd)
  have other: "b \<noteq> a \<and> (\<exists>d. fc_heap f b = Some d \<and> PlaintextPath d = q)" if "storage f q = Some b" for q b
    using storage_node [OF f that] fresh(1) by metis
  have "keys_ok f'"
    unfolding keys_ok_def using other l(3) fresh(2) by (fastforce simp: f'_def split: if_splits)
  moreover have "ends_ok f'"
    unfolding ends_ok_def live using h by (auto simp: f'_def dest: fun_cong [of _ _ p])
  moreover have "node_ok f' b d'" if b: "b \<in> live f'" "fc_heap f' b = Some d'" for b d'
  proof (cases "b = a")
    case True
    then have "d' = \<lparr>PlaintextPath = p, CiphertextPath = c, dm_prev = Some l, dm_next = None\<rparr>"
      using b(2) fresh(2) by (simp add: f'_def)
    with True show ?thesis
      using l(2) by (simp add: node_ok_def live) (simp add: f'_def)
  next
    case False
    then obtain d where d: "b \<in> live f" "fc_heap f b = Some d" "node_ok f b d"
      using b(1) live live_node [OF f] by blast
    then have "dm_prev d' = dm_prev d \<and> dm_next d' = (if b = l then Some a else dm_next d)"
      using b(2) False l(3) by (auto simp: f'_def split: if_splits)
    moreover have "fc_last f' = Some a"
      by (simp add: f'_def)
    ultimately show ?thesis
      using d(3) False l(1) by (auto simp: node_ok_def live)
  qed
  moreover have "\<forall>b \<in> dom (fc_heap f'). b < fc_alloc f'"
    using fresh(3) l(3) by (auto simp: f'_def less_Suc_eq)
  ultimately show "linked f'"
    by (simp add: linked_def)
  show "contents f' = (contents f)(p \<mapsto> c)"
  proof
    fix q
    show "contents f' q = ((contents f)(p \<mapsto> c)) q"
      using other [of q] l(3) fresh(2) by (cases "storage f q") (auto simp: contents_def f'_def)
  qed
qed

lemma Store_new_ok:
  assumes f: "linked f" and p: "storage f p = None"
  obtains f' where "Store_new f p c = Inr f'" "linked f'" "contents f' = (contents f)(p \<mapsto> c)"
    "dom (storage f') = insert p (dom (storage f))" "cacheSize f' = cacheSize f" "count f' = count f"
proof (cases "storage f = Map.empty")
  case True
  then have "fc_head f = None" "live f = {}" "\<forall>b \<in> dom (fc_heap f). b < fc_alloc f"
    using f by (simp_all add: linked_def ends_ok_def live_def)
  then show thesis
    using that True
    by (simp add: Store_new_def Let_def linked_def keys_ok_def ends_ok_def node_ok_def live_def contents_def fun_eq_iff
        less_Suc_eq)
next
  case False
  then obtain q b where "storage f q = Some b"
    by fastforce
  then have "b \<in> live f"
    by (auto simp: live_def ran_def)
  then obtain h l where hl: "fc_head f = Some h" "h \<in> live f" "fc_last f = Some l" "l \<in> live f"
    by (rule linked_ends [OF f])
  obtain dl where dl: "fc_heap f l = Some dl"
    using f hl(4) live_node by metis
  show thesis
    using that Store_new_unfold(1) [OF f hl(3) dl, of p c] Store_new_linked [OF f p hl(3,4) dl hl(1,2)] hl(1)
    by simp
qed

section \<open>The cache as a map that may forget\<close>

text \<open>
  What the users of the cache rely on: neither operation fails, a lookup returns what the
  contents say and leaves them alone, and a store adds its entry and changes nothing else,
  except that it may drop other entries.
\<close>

locale forgetful_map =
  fixes find :: "'c \<Rightarrow> 'k \<Rightarrow> ('e option \<times> 'c) result"
    and store :: "'c \<Rightarrow> 'k \<Rightarrow> 'v \<Rightarrow> 'c result"
    and val :: "'e \<Rightarrow> 'v"
    and abs :: "'c \<Rightarrow> 'k \<Rightarrow> 'v option"
    and inv :: "'c \<Rightarrow> bool"
  assumes find_ok: "inv c \<Longrightarrow> \<exists>r c'. find c k = Inr (r, c') \<and> inv c' \<and> abs c' = abs c \<and> map_option val r = abs c k"
    and store_ok: "inv c \<Longrightarrow> \<exists>c'. store c k v = Inr c' \<and> inv c' \<and> abs c' k = Some v \<and> abs c' \<subseteq>\<^sub>m (abs c)(k \<mapsto> v)"
begin

lemma findE:
  assumes "inv c"
  obtains r c' where "find c k = Inr (r, c')" "inv c'" "abs c' = abs c" "map_option val r = abs c k"
  using find_ok [OF assms] by blast

lemma storeE:
  assumes "inv c"
  obtains c' where "store c k v = Inr c'" "inv c'" "abs c' k = Some v" "abs c' \<subseteq>\<^sub>m (abs c)(k \<mapsto> v)"
  using store_ok [OF assms] by blast

lemma find_after_store:
  assumes "inv c"
  shows "\<exists>c' r c''. store c k v = Inr c' \<and> find c' k = Inr (Some r, c'') \<and> val r = v"
proof -
  obtain c' where c': "store c k v = Inr c'" "inv c'" "abs c' k = Some v"
    using assms by (rule storeE)
  obtain r c'' where "find c' k = Inr (r, c'')" "map_option val r = Some v"
    using c'(2,3) findE by metis
  then show ?thesis
    using c'(1) by auto
qed

text \<open>
  Any property of entries that holds of everything stored holds of everything found: a cache
  filled with correct answers only gives correct answers.
\<close>

lemma store_preserves:
  assumes "inv c" "\<forall>k v. abs c k = Some v \<longrightarrow> Q k v" "Q k v" "store c k v = Inr c'"
  shows "inv c' \<and> (\<forall>k v. abs c' k = Some v \<longrightarrow> Q k v)"
proof -
  obtain c'' where "store c k v = Inr c''" "inv c''" and le: "abs c'' \<subseteq>\<^sub>m (abs c)(k \<mapsto> v)"
    using assms(1) by (rule storeE)
  then have c'': "c'' = c'" "inv c'"
    using assms(4) by simp_all
  have "Q k' v'" if "abs c'' k' = Some v'" for k' v'
  proof -
    have "((abs c)(k \<mapsto> v)) k' = Some v'"
      using le that by (metis domI map_le_def)
    then show ?thesis
      using assms(2,3) by (auto split: if_splits)
  qed
  then show ?thesis
    using c'' by simp
qed

end

lemma contents_dom: "linked f \<Longrightarrow> contents f p = None \<longleftrightarrow> storage f p = None"
proof (cases "storage f p")
  case (Some a)
  assume "linked f"
  then obtain d where "fc_heap f a = Some d"
    using Some storage_node by metis
  then show ?thesis
    using Some by (simp add: contents_def)
qed (simp add: contents_def)

text \<open>What a store does, on each of its three paths.\<close>

lemma Store_ok:
  assumes inv: "cache_inv f"
  shows "\<exists>f'. Store f p c = Inr f' \<and> cache_inv f' \<and> cacheSize f' = cacheSize f \<and>
     (if p \<in> dom (contents f) \<or> count f < cacheSize f then contents f' = (contents f)(p \<mapsto> c)
      else \<exists>v \<in> dom (contents f). contents f' = (contents f)(v := None, p \<mapsto> c))"
proof -
  have l: "linked f" and fin: "finite (dom (storage f))" and cnt: "count f = int (card (dom (storage f)))"
    "0 < cacheSize f" "count f \<le> cacheSize f"
    using inv by (simp_all add: cache_inv_def)
  have dom: "dom (contents f) = dom (storage f)"
    using contents_dom [OF l] by (auto simp: dom_def)
  show ?thesis
  proof (cases "storage f p")
    case (Some a)
    obtain f' where "Store_found f a c = Inr f'" "linked f'" "contents f' = (contents f)(p \<mapsto> c)"
      "dom (storage f') = dom (storage f)" "cacheSize f' = cacheSize f" "count f' = count f"
      using l Some by (rule Store_found_ok)
    moreover have "p \<in> dom (contents f)"
      using Some dom by auto
    ultimately show ?thesis
      using Some fin cnt by (simp add: Store_def cache_inv_def)
  next
    case None
    then have np: "p \<notin> dom (storage f)"
      by auto
    let ?f = "f\<lparr>count := count f + 1\<rparr>"
    have l1: "linked ?f" "storage ?f p = None"
      using l None by simp_all
    show ?thesis
    proof (cases "count f < cacheSize f")
      case True
      obtain f' where f': "Store_new ?f p c = Inr f'" "linked f'" "contents f' = (contents ?f)(p \<mapsto> c)"
        "dom (storage f') = insert p (dom (storage ?f))" "cacheSize f' = cacheSize ?f" "count f' = count ?f"
        using l1 by (rule Store_new_ok)
      then have "cache_inv f'"
        using True np fin cnt by (simp add: cache_inv_def)
      then show ?thesis
        using True None f' by (simp add: Store_def)
    next
      case False
      then have full: "count f = cacheSize f"
        using cnt by simp
      then have "storage ?f \<noteq> Map.empty"
        using cnt by auto
      with l1 obtain f' v where f': "Store_evict ?f p c = Inr f'" "linked f'" "v \<in> dom (storage ?f)"
        "contents f' = (contents ?f)(v := None, p \<mapsto> c)" "dom (storage f') = insert p (dom (storage ?f) - {v})"
        "cacheSize f' = cacheSize ?f" "count f' = cacheSize ?f"
        by (rule Store_evict_ok)
      have "card (dom (storage f')) = card (dom (storage f))"
        using f'(3,5) np fin card_Suc_Diff1 [of "dom (storage f)" v] by simp
      then have "cache_inv f'"
        using f' fin cnt full by (simp add: cache_inv_def)
      then show ?thesis
        using False None f' full dom np by (simp add: Store_def) blast
    qed
  qed
qed

interpretation fastcache: forgetful_map Find Store CiphertextPath contents cache_inv
proof
  fix f :: FastCache and p c :: string
  assume inv: "cache_inv f"
  then have l: "linked f"
    by (simp add: cache_inv_def)
  obtain f' where f': "Find f p = Inr (map_option (\<lambda>a. the (fc_heap f' a)) (storage f p), f')" "linked f'" "same_paths f f'"
    "\<And>a. storage f p = Some a \<Longrightarrow> \<exists>d. fc_heap f' a = Some d \<and> PlaintextPath d = p \<and> contents f p = Some (CiphertextPath d)"
    using l by (rule Find_ok) blast
  have "cache_inv f'"
    using inv f'(2,3) by (simp add: cache_inv_def same_paths_def)
  moreover have "map_option CiphertextPath (map_option (\<lambda>a. the (fc_heap f' a)) (storage f p)) = contents f p"
  proof (cases "storage f p")
    case None
    then show ?thesis by (simp add: contents_def)
  next
    case (Some a)
    then show ?thesis using f'(4) by auto
  qed
  ultimately show "\<exists>r f'. Find f p = Inr (r, f') \<and> cache_inv f' \<and> contents f' = contents f \<and>
      map_option CiphertextPath r = contents f p"
    using f'(1) same_paths_contents [OF f'(3)] by blast
  show "\<exists>f'. Store f p c = Inr f' \<and> cache_inv f' \<and> contents f' p = Some c \<and> contents f' \<subseteq>\<^sub>m (contents f)(p \<mapsto> c)"
  proof -
    obtain f' where "Store f p c = Inr f'" "cache_inv f'"
      "if p \<in> dom (contents f) \<or> count f < cacheSize f then contents f' = (contents f)(p \<mapsto> c)
       else \<exists>v \<in> dom (contents f). contents f' = (contents f)(v := None, p \<mapsto> c)"
      using Store_ok [OF inv] by blast
    moreover have "(contents f)(v := None, p \<mapsto> c) \<subseteq>\<^sub>m (contents f)(p \<mapsto> c)" for v
      by (auto simp: map_le_def)
    ultimately show ?thesis
      by (auto split: if_splits)
  qed
qed

section \<open>Sequences of operations\<close>

text \<open>
  The operations in the order in which their callers get the mutex, with the ciphertext path
  that a lookup returns; and the same sequence on a map that never forgets.
\<close>

datatype cache_op = OpFind string | OpStore string string | OpClear

fun run_op :: "FastCache \<Rightarrow> cache_op \<Rightarrow> (string option \<times> FastCache) result" where
  "run_op f (OpFind p) =
     (case Find f p of Inl e \<Rightarrow> Inl e | Inr (r, f') \<Rightarrow> Inr (map_option CiphertextPath r, f'))"
| "run_op f (OpStore p c) = (case Store f p c of Inl e \<Rightarrow> Inl e | Inr f' \<Rightarrow> Inr (None, f'))"
| "run_op f OpClear = Inr (None, Clear f)"

fun run_ops :: "FastCache \<Rightarrow> cache_op list \<Rightarrow> (string option list \<times> FastCache) result" where
  "run_ops f [] = Inr ([], f)"
| "run_ops f (x # xs) =
     (case run_op f x of
        Inl e \<Rightarrow> Inl e
      | Inr (r, f') \<Rightarrow> (case run_ops f' xs of Inl e \<Rightarrow> Inl e | Inr (rs, f'') \<Rightarrow> Inr (r # rs, f'')))"

fun hist_op :: "(string \<Rightarrow> string option) \<Rightarrow> cache_op \<Rightarrow> string option \<times> (string \<Rightarrow> string option)" where
  "hist_op m (OpFind p) = (m p, m)"
| "hist_op m (OpStore p c) = (None, m(p \<mapsto> c))"
| "hist_op m OpClear = (None, Map.empty)"

fun hist_ops :: "(string \<Rightarrow> string option) \<Rightarrow> cache_op list \<Rightarrow> string option list" where
  "hist_ops m [] = []"
| "hist_ops m (x # xs) = (case hist_op m x of (r, m') \<Rightarrow> r # hist_ops m' xs)"

lemma run_op_ok:
  assumes "cache_inv f" "contents f \<subseteq>\<^sub>m m"
  shows "\<exists>r f'. run_op f x = Inr (r, f') \<and> cache_inv f' \<and> cacheSize f' = cacheSize f \<and>
    contents f' \<subseteq>\<^sub>m snd (hist_op m x) \<and> (r = None \<or> r = fst (hist_op m x))"
proof (cases x)
  case (OpFind p)
  obtain r f' where f': "Find f p = Inr (r, f')" "cache_inv f'" "contents f' = contents f"
    "map_option CiphertextPath r = contents f p"
    using assms(1) by (rule fastcache.findE)
  have "cacheSize f' = cacheSize f"
  proof -
    obtain g where "Find f p = Inr (map_option (\<lambda>a. the (fc_heap g a)) (storage f p), g)" "same_paths f g"
      using assms(1) Find_ok unfolding cache_inv_def by metis
    then show ?thesis
      using f'(1) by (simp add: same_paths_def)
  qed
  moreover have "contents f p = None \<or> contents f p = m p"
    using assms(2) by (metis domIff map_le_def)
  ultimately show ?thesis
    using OpFind f' assms(2) by auto
next
  case (OpStore p c)
  obtain f' where f': "Store f p c = Inr f'" "cache_inv f'" "cacheSize f' = cacheSize f"
    using Store_ok [OF assms(1)] by blast
  moreover have "contents f' \<subseteq>\<^sub>m (contents f)(p \<mapsto> c)"
    using fastcache.store_ok [OF assms(1), of p c] f'(1) by auto
  moreover have "(contents f)(p \<mapsto> c) \<subseteq>\<^sub>m m(p \<mapsto> c)"
    using assms(2) by (simp add: map_le_def)
  ultimately show ?thesis
    using OpStore map_le_trans by auto
next
  case OpClear
  then show ?thesis
    using assms(1) cache_inv_Clear by (simp add: contents_def Clear_def map_le_def)
qed

lemma run_ops_ok:
  assumes "cache_inv f" "contents f \<subseteq>\<^sub>m m"
  shows "\<exists>rs f'. run_ops f xs = Inr (rs, f') \<and> cache_inv f' \<and> cacheSize f' = cacheSize f \<and>
    list_all2 (\<lambda>r h. r = None \<or> r = h) rs (hist_ops m xs)"
  using assms
proof (induction xs arbitrary: f m)
  case Nil
  then show ?case by simp
next
  case (Cons x xs)
  obtain r f1 where 1: "run_op f x = Inr (r, f1)" "cache_inv f1" "cacheSize f1 = cacheSize f"
    "contents f1 \<subseteq>\<^sub>m snd (hist_op m x)" "r = None \<or> r = fst (hist_op m x)"
    using run_op_ok [OF Cons.prems] by metis
  obtain rs f2 where "run_ops f1 xs = Inr (rs, f2)" "cache_inv f2" "cacheSize f2 = cacheSize f1"
    "list_all2 (\<lambda>r h. r = None \<or> r = h) rs (hist_ops (snd (hist_op m x)) xs)"
    using Cons.IH [OF 1(2,4)] by blast
  then show ?case
    using 1 by (auto simp: case_prod_beta)
qed

text \<open>
  C21: the directory cache never fails and never lies: for any sequence of lookups, stores and
  clearings on a new cache of positive size, no operation panics, the number of entries stays
  within the limit, and every lookup either misses or returns the ciphertext path that was
  stored last for that directory since the last clearing.
\<close>

theorem FastCache_sound:
  assumes "0 < n"
  shows "\<exists>rs f. run_ops (NewFastCache n) ops = Inr (rs, f) \<and> cache_inv f \<and>
    int (card (dom (storage f))) \<le> n \<and>
    list_all2 (\<lambda>r h. r = None \<or> r = h) rs (hist_ops Map.empty ops)"
proof -
  have "contents (NewFastCache n) \<subseteq>\<^sub>m Map.empty"
    by (simp add: contents_def NewFastCache_def map_le_def)
  then obtain rs f where r: "run_ops (NewFastCache n) ops = Inr (rs, f)" "cache_inv f" "cacheSize f = cacheSize (NewFastCache n)"
    "list_all2 (\<lambda>r h. r = None \<or> r = h) rs (hist_ops Map.empty ops)"
    using run_ops_ok [OF cache_inv_New [OF assms]] by blast
  moreover have "int (card (dom (storage f))) \<le> n"
    using r(2,3) by (simp add: cache_inv_def NewFastCache_def)
  ultimately show ?thesis
    by blast
qed

theorem FastCache_sound_witness:
  "\<exists>rs f. run_ops (NewFastCache 2) [OpStore ''/a'' ''x'', OpFind ''/a''] = Inr (rs, f) \<and>
     int (card (dom (storage f))) \<le> 2 \<and>
     list_all2 (\<lambda>r h. r = None \<or> r = h) rs [None, Some ''x'']"
proof -
  have h: "hist_ops Map.empty [OpStore ''/a'' ''x'', OpFind ''/a''] = [None, Some ''x'']"
    by simp
  have "(0 :: int) < 2"
    by simp
  then show ?thesis
    using FastCache_sound [of 2 "[OpStore ''/a'' ''x'', OpFind ''/a'']"] unfolding h by blast
qed

definition found :: "(string option list \<times> FastCache) result \<Rightarrow> string option list option" where
  "found r = (case r of Inl _ \<Rightarrow> None | Inr (rs, _) \<Rightarrow> Some rs)"

text \<open>
  The cache is not the LRU cache its comments promise: moving a node to the end leaves the
  back pointer of its successor unchanged, and then a directory that was looked up a moment ago
  is evicted before older ones. After three stores and lookups of the first two, a fourth store
  evicts the directory that was used last and keeps the one that was used least recently.
\<close>

lemma FastCache_evicts_most_recent:
  "found (run_ops (NewFastCache 3)
      [OpStore ''A'' ''a'', OpStore ''B'' ''b'', OpStore ''C'' ''c'', OpFind ''A'', OpFind ''B'',
       OpStore ''D'' ''d'', OpFind ''B'', OpFind ''C'']) =
     Some [None, None, None, Some ''a'', Some ''b'', None, None, Some ''c'']"
  by code_simp

lemma Store_size_zero: "Store (NewFastCache 0) p c = Inl (Panic NilDeref)"
  by (simp add: NewFastCache_def Store_def Store_evict_def deref_def)

end
