(* ===== verification/SyncCache.thy ===== *)
theory SyncCache
  imports Gc_Prelude
begin

text \<open>
  \<^verbatim>\<open>requester/synccache.go\<close> and \<^verbatim>\<open>requester/complexkey.go\<close>: the caches of replies and the keys
  of decrypted names. Every method holds the cache's lock from its first to its last access
  and is one atomic operation, except \<^verbatim>\<open>ClearCache\<close>, which reads the keys and deletes them
  under two separate locks. SipHash is not in the repository and is an argument.
\<close>

section \<open>Replies and entries\<close>

text \<open>The parts of \<^verbatim>\<open>os.FileInfo\<close> that the program looks at.\<close>

record FileInfo =
  fi_name :: string
  fi_size :: int
  fi_isdir :: bool

text \<open>The values behind \<^verbatim>\<open>interface{}\<close>: file contents, listings and names.\<close>

datatype reply = RFile bytes | RDir "FileInfo list" | RName string

record genCacheEntry =
  e_data :: "reply option"
  e_err :: "goerr option"
  e_locker :: nat

section \<open>The cache\<close>

record syncCache =
  sc_m :: "string \<Rightarrow> genCacheEntry option"

definition newSyncCache :: "nat \<Rightarrow> syncCache" where
  "newSyncCache startingSize = \<lparr>sc_m = Map.empty\<rparr>"

definition sc_Get :: "syncCache \<Rightarrow> string \<Rightarrow> genCacheEntry option" where
  "sc_Get s key = sc_m s key"

text \<open>The entry that was there before, if any, and the cache.\<close>

definition sc_GetOrInsert :: "syncCache \<Rightarrow> string \<Rightarrow> genCacheEntry \<Rightarrow> genCacheEntry option \<times> syncCache" where
  "sc_GetOrInsert s key v =
     (case sc_m s key of
        None \<Rightarrow> (None, s\<lparr>sc_m := (sc_m s)(key \<mapsto> v)\<rparr>)
      | Some e \<Rightarrow> (Some e, s))"

definition sc_Set :: "syncCache \<Rightarrow> string \<Rightarrow> genCacheEntry \<Rightarrow> syncCache" where
  "sc_Set s key v = s\<lparr>sc_m := (sc_m s)(key \<mapsto> v)\<rparr>"

definition sc_Delete :: "syncCache \<Rightarrow> string \<Rightarrow> syncCache" where
  "sc_Delete s key = s\<lparr>sc_m := (sc_m s)(key := None)\<rparr>"

text \<open>The two critical sections of \<^verbatim>\<open>ClearCache\<close>; other operations may come between them.\<close>

definition ClearCache_keys :: "syncCache \<Rightarrow> string set" where
  "ClearCache_keys s = dom (sc_m s)"

definition ClearCache_delete :: "syncCache \<Rightarrow> string set \<Rightarrow> syncCache" where
  "ClearCache_delete s keys = s\<lparr>sc_m := (\<lambda>k. if k \<in> keys then None else sc_m s k)\<rparr>"

lemma sc_simps [simp]:
  "sc_Get (sc_Set s k v) k' = (if k' = k then Some v else sc_Get s k')"
  "sc_Get (sc_Delete s k) k' = (if k' = k then None else sc_Get s k')"
  "sc_Get (ClearCache_delete s K) k' = (if k' \<in> K then None else sc_Get s k')"
  "sc_Get (snd (sc_GetOrInsert s k v)) k' =
     (if k' = k then Some (case sc_Get s k of None \<Rightarrow> v | Some e \<Rightarrow> e) else sc_Get s k')"
  "fst (sc_GetOrInsert s k v) = sc_Get s k"
  "sc_Get (newSyncCache n) k' = None"
  by (auto simp: sc_Get_def sc_Set_def sc_Delete_def ClearCache_delete_def sc_GetOrInsert_def newSyncCache_def
      split: option.splits)

text \<open>
  Clearing a cache that nobody else uses empties it; an entry that is added between the two
  sections survives if its key was not there before.
\<close>

lemma ClearCache_empties: "sc_Get (ClearCache_delete s (ClearCache_keys s)) k = None"
  by (auto simp: ClearCache_keys_def ClearCache_delete_def sc_Get_def)

lemma ClearCache_keeps_new:
  "sc_Get s k = None \<Longrightarrow> sc_Get (ClearCache_delete (sc_Set s k v) (ClearCache_keys s)) k = Some v"
  by (simp add: ClearCache_keys_def sc_Get_def domIff sc_Set_def ClearCache_delete_def)

section \<open>Keys of decrypted names\<close>

definition sipHashKey1 :: u64 where "sipHashKey1 = 0xdda7806a4847ec61"
definition sipHashKey2 :: u64 where "sipHashKey2 = 0xb5940c2623a5aabd"

text \<open>The \<^verbatim>\<open>%x\<close> format.\<close>

definition hex_digit :: "nat \<Rightarrow> char" where
  "hex_digit n = ''0123456789abcdef'' ! n"

fun hex_nat :: "nat \<Rightarrow> string" where
  "hex_nat n = (if n < 16 then [hex_digit n] else hex_nat (n div 16) @ [hex_digit (n mod 16)])"

declare hex_nat.simps [simp del]

definition complexKey :: "(u64 \<Rightarrow> u64 \<Rightarrow> bytes \<Rightarrow> u64) \<Rightarrow> string \<Rightarrow> bytes \<Rightarrow> string" where
  "complexKey siphash s b = s @ ''+'' @ hex_nat (unat (siphash sipHashKey1 sipHashKey2 b))"

lemma hex_digit_inject: "m < 16 \<Longrightarrow> n < 16 \<Longrightarrow> hex_digit m = hex_digit n \<longleftrightarrow> m = n"
  by (simp add: hex_digit_def nth_eq_iff_index_eq)

lemma hex_digit_not_plus: "n < 16 \<Longrightarrow> hex_digit n \<noteq> CHR ''+''"
proof -
  assume "n < 16"
  then have "hex_digit n \<in> set ''0123456789abcdef''"
    unfolding hex_digit_def by (intro nth_mem) simp
  then show ?thesis by auto
qed

lemma hex_nat_not_plus: "CHR ''+'' \<notin> set (hex_nat n)"
proof (induction n rule: hex_nat.induct)
  case (1 n)
  then show ?case
    using hex_digit_not_plus [of n] hex_digit_not_plus [of "n mod 16"]
    by (subst hex_nat.simps) (auto simp: eq_commute)
qed

lemma hex_nat_not_Nil [simp]: "hex_nat n \<noteq> []"
  by (subst hex_nat.simps) simp

lemma Nil_not_hex_nat [simp]: "[] \<noteq> hex_nat n"
  using hex_nat_not_Nil by metis

lemma hex_nat_inject: "hex_nat m = hex_nat n \<longleftrightarrow> m = n"
proof
  show "hex_nat m = hex_nat n \<Longrightarrow> m = n"
  proof (induction m arbitrary: n rule: hex_nat.induct)
    case (1 m)
    show ?case
    proof (cases "m < 16 \<or> n < 16")
      case True
      then show ?thesis
        using 1(2) hex_digit_inject [of m n] by (auto simp: hex_nat.simps [of m] hex_nat.simps [of n] split: if_splits)
    next
      case False
      then have "hex_nat (m div 16) = hex_nat (n div 16)" "hex_digit (m mod 16) = hex_digit (n mod 16)"
        using 1(2) by (simp_all add: hex_nat.simps [of m] hex_nat.simps [of n])
      then have "m div 16 = n div 16" "m mod 16 = n mod 16"
        using 1(1) False hex_digit_inject by simp_all
      then show ?thesis
        by (metis div_mult_mod_eq)
    qed
  qed
qed simp

lemma last_plus_split:
  assumes "s @ ''+'' @ h = s' @ ''+'' @ h'" "CHR ''+'' \<notin> set h" "CHR ''+'' \<notin> set h'"
  shows "s = s' \<and> h = h'"
proof -
  have "rev h @ CHR ''+'' # rev s = rev h' @ CHR ''+'' # rev s'"
    using arg_cong [OF assms(1), of rev] by simp
  moreover have "takeWhile (\<lambda>c. c \<noteq> CHR ''+'') (rev x @ CHR ''+'' # y) = rev x"
    if "CHR ''+'' \<notin> set x" for x y
    using that by (subst takeWhile_append2) auto
  ultimately have "rev h = rev h'"
    using assms(2,3) by metis
  then show ?thesis
    using assms(1) by simp
qed

text \<open>
  Cache keys of decrypted names do not mix up names, whatever characters the names have.
\<close>

lemma complexKey_eq_iff:
  "complexKey siphash s b = complexKey siphash s' b' \<longleftrightarrow>
     s = s' \<and> siphash sipHashKey1 sipHashKey2 b = siphash sipHashKey1 sipHashKey2 b'"
proof
  assume "complexKey siphash s b = complexKey siphash s' b'"
  then have "s = s' \<and> hex_nat (unat (siphash sipHashKey1 sipHashKey2 b)) = hex_nat (unat (siphash sipHashKey1 sipHashKey2 b'))"
    unfolding complexKey_def by (rule last_plus_split) (rule hex_nat_not_plus)+
  then show "s = s' \<and> siphash sipHashKey1 sipHashKey2 b = siphash sipHashKey1 sipHashKey2 b'"
    by (simp add: hex_nat_inject word_unat_eq_iff)
qed (simp add: complexKey_def)

end
