(* ===== verification/Paths.thy ===== *)
theory Paths
  imports Gc_Prelude
begin

text \<open>
  The functions of Go's \<^verbatim>\<open>path/filepath\<close> that the file tree uses, on a Unix system:
  \<^verbatim>\<open>Clean\<close>, \<^verbatim>\<open>Dir\<close>, \<^verbatim>\<open>Base\<close> and \<^verbatim>\<open>Join\<close>. A path is processed by its components, as the
  lazy buffer of \<^verbatim>\<open>Clean\<close> does.
\<close>

section \<open>Components\<close>

fun split_slash :: "string \<Rightarrow> string list" where
  "split_slash [] = [[]]"
| "split_slash (c # s) =
     (if c = CHR ''/'' then [] # split_slash s
      else case split_slash s of x # xs \<Rightarrow> (c # x) # xs | [] \<Rightarrow> [[c]])"

fun join_slash :: "string list \<Rightarrow> string" where
  "join_slash [] = []"
| "join_slash [c] = c"
| "join_slash (c # cs) = c @ ''/'' @ join_slash cs"

text \<open>One path element, with the elements written so far in reverse.\<close>

definition clean_step :: "bool \<Rightarrow> string list \<Rightarrow> string \<Rightarrow> string list" where
  "clean_step rooted out c =
     (if c = [] \<or> c = ''.'' then out
      else if c = ''..'' then
        (case out of
           [] \<Rightarrow> if rooted then [] else [''..'']
         | x # xs \<Rightarrow> if x = ''..'' then ''..'' # out else xs)
      else c # out)"

definition clean_comps :: "bool \<Rightarrow> string list \<Rightarrow> string list" where
  "clean_comps rooted cs = rev (foldl (clean_step rooted) [] cs)"

definition abs_path :: "string list \<Rightarrow> string" where
  "abs_path cs = CHR ''/'' # join_slash cs"

definition is_abs :: "string \<Rightarrow> bool" where
  "is_abs p \<longleftrightarrow> (case p of c # _ \<Rightarrow> c = CHR ''/'' | [] \<Rightarrow> False)"

section \<open>The functions\<close>

definition Clean :: "string \<Rightarrow> string" where
  "Clean p =
     (if p = [] then ''.''
      else let out = clean_comps (is_abs p) (split_slash p) in
        if is_abs p then abs_path out
        else if out = [] then ''.''
        else join_slash out)"

text \<open>Everything up to the last slash, cleaned.\<close>

definition Dir :: "string \<Rightarrow> string" where
  "Dir p = Clean (rev (dropWhile (\<lambda>c. c \<noteq> CHR ''/'') (rev p)))"

definition Base :: "string \<Rightarrow> string" where
  "Base p =
     (if p = [] then ''.''
      else let q = rev (dropWhile (\<lambda>c. c = CHR ''/'') (rev p));
               b = rev (takeWhile (\<lambda>c. c \<noteq> CHR ''/'') (rev q))
           in if b = [] then ''/'' else b)"

definition Join :: "string list \<Rightarrow> string" where
  "Join elem =
     (case dropWhile (\<lambda>e. e = []) elem of
        [] \<Rightarrow> []
      | es \<Rightarrow> Clean (join_slash es))"

text \<open>\<^verbatim>\<open>nametransform.Dir\<close> in \<^verbatim>\<open>gocrypt/nametransform/diriv.go\<close>: the empty string for a bare name.\<close>

definition nametransform_Dir :: "string \<Rightarrow> string" where
  "nametransform_Dir path = (let d = Dir path in if d = ''.'' then [] else d)"

section \<open>Splitting and joining\<close>

lemma split_slash_not_Nil [simp]: "split_slash s \<noteq> []"
  by (cases s) (simp_all split: list.splits)

lemma split_slash_no_slash: "c \<in> set (split_slash s) \<Longrightarrow> CHR ''/'' \<notin> set c"
  by (induction s arbitrary: c) (auto split: list.splits if_splits)

lemma split_slash_append: "split_slash (s @ CHR ''/'' # t) = split_slash s @ split_slash t"
  by (induction s) (auto split: list.splits)

lemma split_slash_elem: "CHR ''/'' \<notin> set s \<Longrightarrow> split_slash s = [s]"
  by (induction s) auto

lemma join_slash_Cons: "cs \<noteq> [] \<Longrightarrow> join_slash (c # cs) = c @ CHR ''/'' # join_slash cs"
  by (cases cs) simp_all

lemma split_join_slash: "cs \<noteq> [] \<Longrightarrow> (\<And>c. c \<in> set cs \<Longrightarrow> CHR ''/'' \<notin> set c) \<Longrightarrow> split_slash (join_slash cs) = cs"
proof (induction cs)
  case (Cons c cs)
  then show ?case
    by (cases "cs = []") (simp_all add: split_slash_elem join_slash_Cons split_slash_append)
qed simp

lemma join_slash_snoc: "cs \<noteq> [] \<Longrightarrow> join_slash (cs @ [c]) = join_slash cs @ CHR ''/'' # c"
  by (induction cs rule: join_slash.induct) (simp_all add: join_slash_Cons)

section \<open>Clean components\<close>

definition plain_comp :: "string \<Rightarrow> bool" where
  "plain_comp c \<longleftrightarrow> c \<noteq> [] \<and> c \<noteq> ''.'' \<and> c \<noteq> ''..'' \<and> CHR ''/'' \<notin> set c"

definition canonical :: "string list \<Rightarrow> bool" where
  "canonical cs \<longleftrightarrow> (\<forall>c \<in> set cs. plain_comp c)"

lemma canonical_simps [simp]:
  "canonical []" "canonical (c # cs) \<longleftrightarrow> plain_comp c \<and> canonical cs" "canonical (cs @ ds) \<longleftrightarrow> canonical cs \<and> canonical ds"
  by (auto simp: canonical_def)

lemma clean_step_plain: "plain_comp c \<Longrightarrow> clean_step rooted out c = c # out"
  by (simp add: clean_step_def plain_comp_def)

lemma foldl_clean_plain: "canonical cs \<Longrightarrow> foldl (clean_step rooted) out cs = rev cs @ out"
  by (induction cs arbitrary: out) (simp_all add: clean_step_plain)

lemma clean_step_canonical:
  "canonical out \<Longrightarrow> CHR ''/'' \<notin> set c \<Longrightarrow> canonical (clean_step True out c)"
  by (auto simp: clean_step_def plain_comp_def split: list.splits)

lemma foldl_clean_canonical:
  "(\<And>c. c \<in> set cs \<Longrightarrow> CHR ''/'' \<notin> set c) \<Longrightarrow> canonical out \<Longrightarrow> canonical (foldl (clean_step True) out cs)"
  by (induction cs arbitrary: out) (simp_all add: clean_step_canonical)

lemma canonical_rev [simp]: "canonical (rev cs) = canonical cs"
  by (simp add: canonical_def)

lemma is_abs_simps [simp]: "is_abs (abs_path cs)" "is_abs (CHR ''/'' # s)" "\<not> is_abs []"
  by (simp_all add: is_abs_def abs_path_def)

text \<open>The components of a rooted path after cleaning.\<close>

definition path_comps :: "string \<Rightarrow> string list" where
  "path_comps p = clean_comps True (split_slash p)"

lemma canonical_path_comps [simp]: "canonical (path_comps p)"
  unfolding path_comps_def clean_comps_def canonical_rev
  by (rule foldl_clean_canonical) (use split_slash_no_slash in auto)

lemma Clean_abs: "is_abs p \<Longrightarrow> Clean p = abs_path (path_comps p)"
  by (auto simp: Clean_def path_comps_def)

lemma clean_comps_plain: "canonical cs \<Longrightarrow> clean_comps rooted cs = cs"
  by (simp add: clean_comps_def foldl_clean_plain)

lemma split_abs_path: "canonical cs \<Longrightarrow> split_slash (abs_path cs) = [] # (if cs = [] then [[]] else cs)"
  using split_join_slash [of cs] by (auto simp: abs_path_def canonical_def plain_comp_def)

lemma Clean_abs_path: "canonical cs \<Longrightarrow> Clean (abs_path cs) = abs_path cs"
  by (simp add: Clean_def split_abs_path clean_comps_def foldl_clean_plain clean_step_def)
    (simp add: abs_path_def)

lemma path_comps_abs_path [simp]: "canonical cs \<Longrightarrow> path_comps (abs_path cs) = cs"
  by (simp add: path_comps_def split_abs_path clean_comps_def foldl_clean_plain clean_step_def)

lemma abs_path_inject: "canonical cs \<Longrightarrow> canonical ds \<Longrightarrow> abs_path cs = abs_path ds \<longleftrightarrow> cs = ds"
  by (metis path_comps_abs_path)

lemma abs_path_snoc: "abs_path (cs @ [c]) = (if cs = [] then [] else abs_path cs) @ CHR ''/'' # c"
  by (simp add: abs_path_def join_slash_snoc)

lemma abs_path_root: "canonical cs \<Longrightarrow> abs_path cs = ''/'' \<longleftrightarrow> cs = []"
  using abs_path_inject [of cs "[]"] by (simp add: abs_path_def)

lemma Dir_abs_path: "canonical (cs @ [c]) \<Longrightarrow> Dir (abs_path (cs @ [c])) = abs_path cs"
proof -
  assume c: "canonical (cs @ [c])"
  then have "dropWhile (\<lambda>x. x \<noteq> CHR ''/'') (rev (abs_path (cs @ [c]))) = CHR ''/'' # rev (if cs = [] then [] else abs_path cs)"
    by (subst abs_path_snoc) (auto simp: plain_comp_def dropWhile_append)
  then have "Dir (abs_path (cs @ [c])) = Clean ((if cs = [] then [] else abs_path cs) @ ''/'')"
    by (simp add: Dir_def)
  moreover have "Clean (abs_path cs @ ''/'') = abs_path cs" if "cs \<noteq> []"
    using c that by (simp add: Clean_def split_slash_append split_abs_path clean_comps_def foldl_clean_plain clean_step_def)
      (simp add: abs_path_def)
  ultimately show ?thesis
    by (auto simp: Clean_def clean_comps_def clean_step_def)
qed

lemma Base_abs_path: "canonical (cs @ [c]) \<Longrightarrow> Base (abs_path (cs @ [c])) = c"
proof -
  assume "canonical (cs @ [c])"
  then have c: "c \<noteq> []" "CHR ''/'' \<notin> set c"
    by (simp_all add: plain_comp_def)
  obtain q where p: "abs_path (cs @ [c]) = q @ CHR ''/'' # c"
    using abs_path_snoc by blast
  have "rev c \<noteq> []" "hd (rev c) \<noteq> CHR ''/''"
    using c by (metis rev_is_Nil_conv, metis hd_in_set rev_is_Nil_conv set_rev)
  then have "dropWhile (\<lambda>x. x = CHR ''/'') (rev c @ CHR ''/'' # rev q) = rev c @ CHR ''/'' # rev q"
    by (cases "rev c") simp_all
  moreover have "takeWhile (\<lambda>x. x \<noteq> CHR ''/'') (rev c @ CHR ''/'' # rev q) = rev c"
    using c(2) by (subst takeWhile_append2) auto
  ultimately show ?thesis
    using c(1) unfolding p by (simp add: Base_def)
qed

lemma length_canonical: "canonical cs \<Longrightarrow> length cs < length (abs_path cs)"
proof (induction cs rule: join_slash.induct)
  case (3 c d ds)
  then show ?case by (simp add: abs_path_def)
qed (simp_all add: abs_path_def plain_comp_def Suc_le_eq)

lemma nametransform_Dir_abs: "canonical (cs @ [c]) \<Longrightarrow> nametransform_Dir (abs_path (cs @ [c])) = abs_path cs"
  by (simp add: nametransform_Dir_def Dir_abs_path Let_def) (simp add: abs_path_def)

section \<open>Relative paths\<close>

lemma clean_step_no_slash:
  "(\<forall>x \<in> set out. x \<noteq> [] \<and> CHR ''/'' \<notin> set x) \<Longrightarrow> CHR ''/'' \<notin> set c \<Longrightarrow>
   \<forall>x \<in> set (clean_step r out c). x \<noteq> [] \<and> CHR ''/'' \<notin> set x"
  by (auto simp: clean_step_def split: list.splits if_splits)

lemma foldl_clean_no_slash:
  "(\<forall>x \<in> set out. x \<noteq> [] \<and> CHR ''/'' \<notin> set x) \<Longrightarrow> (\<And>c. c \<in> set cs \<Longrightarrow> CHR ''/'' \<notin> set c) \<Longrightarrow>
   \<forall>x \<in> set (foldl (clean_step r) out cs). x \<noteq> [] \<and> CHR ''/'' \<notin> set x"
proof (induction cs arbitrary: out)
  case (Cons c cs)
  have "\<forall>x \<in> set (clean_step r out c). x \<noteq> [] \<and> CHR ''/'' \<notin> set x"
    by (rule clean_step_no_slash [OF Cons.prems(1)]) (rule Cons.prems(2), simp)
  from Cons.IH [OF this] Cons.prems(2) show ?case by simp
qed simp

lemma is_abs_append: "is_abs (q @ r) \<longleftrightarrow> is_abs q \<or> q = [] \<and> is_abs r"
  by (cases q) (simp_all add: is_abs_def)

lemma is_abs_comp: "CHR ''/'' \<notin> set c \<Longrightarrow> \<not> is_abs c"
  by (cases c) (auto simp: is_abs_def)

lemma join_slash_rel: "(\<forall>x \<in> set cs. x \<noteq> [] \<and> CHR ''/'' \<notin> set x) \<Longrightarrow> \<not> is_abs (join_slash cs)"
  by (cases cs rule: join_slash.cases) (simp_all add: is_abs_append is_abs_comp)

lemma Clean_rel: "\<not> is_abs p \<Longrightarrow> \<not> is_abs (Clean p)"
proof -
  assume p: "\<not> is_abs p"
  have "\<forall>x \<in> set (clean_comps False (split_slash p)). x \<noteq> [] \<and> CHR ''/'' \<notin> set x"
    unfolding clean_comps_def set_rev by (rule foldl_clean_no_slash) (simp_all add: split_slash_no_slash)
  from join_slash_rel [OF this] p show ?thesis
    by (simp add: Clean_def Let_def) (simp add: is_abs_def)
qed

lemma Dir_rel: "\<not> is_abs p \<Longrightarrow> \<not> is_abs (Dir p)"
proof -
  assume p: "\<not> is_abs p"
  let ?q = "rev (dropWhile (\<lambda>c. c \<noteq> CHR ''/'') (rev p))"
  have "p = ?q @ rev (takeWhile (\<lambda>c. c \<noteq> CHR ''/'') (rev p))"
    by (metis rev_append rev_rev_ident takeWhile_dropWhile_id)
  then have "\<not> is_abs ?q"
    using p is_abs_append by metis
  then show ?thesis
    unfolding Dir_def by (rule Clean_rel)
qed

end
