(* ===== verification/FileTree.thy ===== *)
theory FileTree
  imports FileDecrypt ConfigFile FastCache SyncCache Paths
begin

text \<open>
  \<^verbatim>\<open>filetree/filetree.go\<close> and \<^verbatim>\<open>filetree/fileinfo.go\<close>: the plaintext view of an encrypted
  directory tree. The file system behind it and the requester in front of that are arguments:
  an \<open>FSAccess\<close> holds their operations on a state \<open>'w\<close> that may change with every call. The
  tree's own state, the directory cache and the pools of the content encrypter, is passed
  explicitly. A recursion that does not end is the outcome \<open>Hang\<close>.
\<close>

section \<open>State and interfaces\<close>

definition tree_cacheSize :: int where "tree_cacheSize = 16"

text \<open>
  \<^verbatim>\<open>FSAccessor\<close> (the \<open>fs\<close> fields) and the requester in front of it (the \<open>req\<close> fields). Decrypting a name
  may not return: EME panics, in a worker and so for the whole process, if the initialization vector does not
  have 16 bytes or the name is too long.
\<close>

record 'w FSAccess =
  fs_ReadFile :: "string \<Rightarrow> 'w \<Rightarrow> (goerr + bytes) \<times> 'w"
  fs_Stat :: "string \<Rightarrow> 'w \<Rightarrow> (goerr + FileInfo) \<times> 'w"
  req_ReadFile :: "string \<Rightarrow> 'w \<Rightarrow> (goerr + gslice) \<times> 'w"
  req_ReadDir :: "string \<Rightarrow> 'w \<Rightarrow> (goerr + FileInfo list) \<times> 'w"
  req_DecryptName :: "string \<Rightarrow> bytes \<Rightarrow> 'w \<Rightarrow> ((goerr + string) \<times> 'w) result"

record FileTree =
  encryptedRoot :: string
  ft_masterKey :: "bytes option"
  ft_fastCache :: FastCache
  ft_cCore :: CryptoCore
  ft_cEnc :: ContentEnc
  ft_nTransform :: NameTransform

text \<open>
  A method of the tree: it returns a value or an error with the new states, or does not
  return normally.
\<close>

type_synonym ('a, 'w) tree_op = "FileTree \<Rightarrow> 'w \<Rightarrow> ((goerr + 'a) \<times> FileTree \<times> 'w) result"

definition tret :: "'a \<Rightarrow> ('a, 'w) tree_op" where
  "tret a = (\<lambda>t w. Inr (Inr a, t, w))"

definition terr :: "goerr \<Rightarrow> ('a, 'w) tree_op" where
  "terr e = (\<lambda>t w. Inr (Inl e, t, w))"

text \<open>Continue with the value, or leave early with a wrapped error.\<close>

definition tbind :: "('a, 'w) tree_op \<Rightarrow> (goerr \<Rightarrow> goerr) \<Rightarrow> ('a \<Rightarrow> ('b, 'w) tree_op) \<Rightarrow> ('b, 'w) tree_op" where
  "tbind m wrap k = (\<lambda>t w.
     (case m t w of
        Inl f \<Rightarrow> Inl f
      | Inr (Inl e, t', w') \<Rightarrow> Inr (Inl (wrap e), t', w')
      | Inr (Inr a, t', w') \<Rightarrow> k a t' w'))"

text \<open>A call of the accessor or the requester.\<close>

definition tcall :: "('w \<Rightarrow> (goerr + 'a) \<times> 'w) \<Rightarrow> ('a, 'w) tree_op" where
  "tcall f = (\<lambda>t w. case f w of (r, w') \<Rightarrow> Inr (r, t, w'))"

section \<open>File information\<close>

text \<open>\<^verbatim>\<open>plainFileInfo\<close>: the server's information with the plaintext name and size.\<close>

definition plainFileInfo :: "FileInfo \<Rightarrow> string \<Rightarrow> int \<Rightarrow> FileInfo" where
  "plainFileInfo info name sz = info\<lparr>fi_name := name, fi_size := sz\<rparr>"

text \<open>\<^verbatim>\<open>int64(f.cEnc.CipherSizeToPlainSize(uint64(info.Size())))\<close>\<close>

definition plain_size :: "FileTree \<Rightarrow> FileInfo \<Rightarrow> int result" where
  "plain_size t info =
     (case CipherSizeToPlainSize (ft_cEnc t) (word_of_int (fi_size info)) of
        Inl f \<Rightarrow> Inl f
      | Inr n \<Rightarrow> Inr (sint n))"

section \<open>Helpers\<close>

text \<open>
  The callback of \<^verbatim>\<open>rangeInDir\<close> changes variables of its caller; they are an accumulator. It
  returns whether the iteration shall end.
\<close>

fun range_loop ::
    "'w FSAccess \<Rightarrow> (FileTree \<Rightarrow> FileInfo \<Rightarrow> string \<Rightarrow> 's \<Rightarrow> (bool \<times> 's) result) \<Rightarrow> bytes \<Rightarrow> FileInfo list \<Rightarrow> 's \<Rightarrow>
     ('s, 'w) tree_op" where
  "range_loop A fn iv [] acc t w = Inr (Inr acc, t, w)"
| "range_loop A fn iv (info # rest) acc t w =
     (case req_DecryptName A (fi_name info) iv w of
        Inl f \<Rightarrow> Inl f
      | Inr (Inl e, w') \<Rightarrow> range_loop A fn iv rest acc t w'
      | Inr (Inr rName, w') \<Rightarrow>
          (case fn t info rName acc of
             Inl f \<Rightarrow> Inl f
           | Inr (True, acc') \<Rightarrow> Inr (Inr acc', t, w')
           | Inr (False, acc') \<Rightarrow> range_loop A fn iv rest acc' t w'))"

definition rangeInDir ::
    "'w FSAccess \<Rightarrow> string \<Rightarrow> (FileTree \<Rightarrow> FileInfo \<Rightarrow> string \<Rightarrow> 's \<Rightarrow> (bool \<times> 's) result) \<Rightarrow> 's \<Rightarrow> ('s, 'w) tree_op" where
  "rangeInDir A cipherPath fn acc =
     tbind (tcall (req_ReadFile A (Join [cipherPath, ''gocryptfs.diriv''])))
       (\<lambda>err. Errorf ''error reading directory IV: %s'' [FErr err]) (\<lambda>iv.
     tbind (tcall (req_ReadDir A cipherPath))
       (\<lambda>err. Errorf ''error listing directory: %s'' [FErr err]) (\<lambda>dirListing.
     range_loop A fn (sdata iv) dirListing acc))"

definition findInDir :: "'w FSAccess \<Rightarrow> string \<Rightarrow> string \<Rightarrow> (FileInfo, 'w) tree_op" where
  "findInDir A cipherPath plainName =
     tbind (rangeInDir A cipherPath
         (\<lambda>t info decryptedName item. Inr (if plainName = decryptedName then (True, Some info) else (False, item))) None)
       (\<lambda>err. Errorf ''error iterating %s: %s'' [FStr cipherPath, FErr err]) (\<lambda>item.
     case item of
       None \<Rightarrow> terr (Errorf ''%s not found in %s'' [FStr plainName, FStr cipherPath])
     | Some info \<Rightarrow> tret info)"

text \<open>The cache operations on the tree's state.\<close>

definition cache_Find :: "string \<Rightarrow> (DirMapping option, 'w) tree_op" where
  "cache_Find p = (\<lambda>t w.
     (case Find (ft_fastCache t) p of
        Inl f \<Rightarrow> Inl f
      | Inr (r, fc) \<Rightarrow> Inr (Inr r, t\<lparr>ft_fastCache := fc\<rparr>, w)))"

definition cache_Store :: "string \<Rightarrow> string \<Rightarrow> (unit, 'w) tree_op" where
  "cache_Store p c = (\<lambda>t w.
     (case Store (ft_fastCache t) p c of
        Inl f \<Rightarrow> Inl f
      | Inr fc \<Rightarrow> Inr (Inr (), t\<lparr>ft_fastCache := fc\<rparr>, w)))"

text \<open>
  \<^verbatim>\<open>findPath\<close> calls itself on the parent path; the number bounds the depth of that recursion.
\<close>

fun findPath_rec :: "'w FSAccess \<Rightarrow> nat \<Rightarrow> string \<Rightarrow> (string, 'w) tree_op" where
  "findPath_rec A 0 plainPath = (\<lambda>t w. Inl Hang)"
| "findPath_rec A (Suc depth) plainPath = (\<lambda>t w.
     (let cleanPath = Clean plainPath in
      if cleanPath = ''/'' then Inr (Inr (encryptedRoot t), t, w)
      else
        tbind (cache_Find cleanPath) id (\<lambda>dirMapping.
        case dirMapping of
          Some d \<Rightarrow> tret (CiphertextPath d)
        | None \<Rightarrow>
          tbind (findPath_rec A depth (Dir cleanPath)) id (\<lambda>cipherParentPath.
          tbind (findInDir A cipherParentPath (Base cleanPath)) id (\<lambda>item.
          let ciphertextPath = Join [cipherParentPath, fi_name item] in
          if \<not> fi_isdir item then terr (Errorf ''%s is not a directory'' [FStr ciphertextPath])
          else
            tbind (cache_Store cleanPath ciphertextPath) id (\<lambda>_. tret ciphertextPath)))) t w))"

text \<open>Each call shortens an absolute path, so this depth is never reached by one.\<close>

definition findPath :: "'w FSAccess \<Rightarrow> string \<Rightarrow> (string, 'w) tree_op" where
  "findPath A plainPath = findPath_rec A (Suc (length (Clean plainPath))) plainPath"

section \<open>Methods\<close>

definition tree_decryptFile :: "prims \<Rightarrow> gslice \<Rightarrow> (bytes, 'w) tree_op" where
  "tree_decryptFile P fileBytes = (\<lambda>t w.
     (case decryptFile P (ft_cEnc t) fileBytes of
        Inl f \<Rightarrow> Inl f
      | Inr (r, cEnc) \<Rightarrow> Inr (r, t\<lparr>ft_cEnc := cEnc\<rparr>, w)))"

definition readFileErr :: "goerr \<Rightarrow> goerr" where
  "readFileErr msg = Errorf ''ReadFile: %s'' [FErr msg]"

definition FileTree_ReadFile :: "prims \<Rightarrow> 'w FSAccess \<Rightarrow> string \<Rightarrow> (bytes, 'w) tree_op" where
  "FileTree_ReadFile P A plainPath =
     (let cleanPath = Clean plainPath in
      if cleanPath = ''/'' then terr (readFileErr (Errorf ''/ is a directory'' []))
      else
        tbind (findPath A (Dir cleanPath))
          (\<lambda>err. readFileErr (Errorf ''error finding parent path: %s'' [FErr err])) (\<lambda>cipherDirPath.
        tbind (findInDir A cipherDirPath (Base cleanPath)) readFileErr (\<lambda>item.
        let ciphertextPath = Join [cipherDirPath, fi_name item] in
        if fi_isdir item then terr (readFileErr (Errorf ''%s is a directory'' [FStr ciphertextPath]))
        else
          tbind (tcall (req_ReadFile A ciphertextPath))
            (\<lambda>err. readFileErr (Errorf ''error reading file %s: %s'' [FStr ciphertextPath, FErr err])) (\<lambda>fileBytes.
          tbind (tree_decryptFile P fileBytes)
            (\<lambda>err. readFileErr (Errorf ''error decrypting file %s: %s'' [FStr ciphertextPath, FErr err])) tret))))"

definition FileTree_WriteFile :: "string \<Rightarrow> bytes \<Rightarrow> (int, 'w) tree_op" where
  "FileTree_WriteFile plainPath data = terr (Errorf ''Not supported yet'' [])"

definition FileTree_ReadDir :: "'w FSAccess \<Rightarrow> string \<Rightarrow> (FileInfo list, 'w) tree_op" where
  "FileTree_ReadDir A plainPath =
     (let cleanPath = Clean plainPath;
          readDirErr = (\<lambda>msg. Errorf ''ReadDir: %s'' [FErr msg])
      in tbind (findPath A cleanPath)
           (\<lambda>err. readDirErr (Errorf ''error finding path %s: %s'' [FStr cleanPath, FErr err])) (\<lambda>ciphertextPath.
         tbind (rangeInDir A ciphertextPath
             (\<lambda>t info plainName listing.
                (case plain_size t info of
                   Inl f \<Rightarrow> Inl f
                 | Inr sz \<Rightarrow> Inr (False, listing @ [plainFileInfo info plainName sz]))) [])
           (\<lambda>err. readDirErr (Errorf ''error listing directory %s: %s'' [FStr ciphertextPath, FErr err])) tret))"

definition FileTree_Stat :: "'w FSAccess \<Rightarrow> string \<Rightarrow> (FileInfo, 'w) tree_op" where
  "FileTree_Stat A plainPath =
     (let cleanPath = Clean plainPath;
          statErr = (\<lambda>msg. Errorf ''Stat: %s'' [FErr msg])
      in tbind (findPath A cleanPath)
           (\<lambda>err. statErr (Errorf ''error finding path: %s'' [FErr err])) (\<lambda>cipherPath.
         tbind (tcall (fs_Stat A cipherPath))
           (\<lambda>err. statErr (Errorf ''error running stat on path: %s'' [FErr err])) (\<lambda>item.
         \<lambda>t w. case plain_size t item of
             Inl f \<Rightarrow> Inl f
           | Inr sz \<Rightarrow> Inr (Inr (plainFileInfo item (Base cleanPath) sz), t, w))))"

definition FileTree_Mkdir :: "string \<Rightarrow> (unit, 'w) tree_op" where
  "FileTree_Mkdir plainPath = tret ()"

definition FileTree_Rename :: "string \<Rightarrow> string \<Rightarrow> (unit, 'w) tree_op" where
  "FileTree_Rename plainPath target = terr (Errorf ''Not supported yet'' [])"

definition FileTree_Remove :: "string \<Rightarrow> (unit, 'w) tree_op" where
  "FileTree_Remove plainPath = terr (Errorf ''Not supported yet'' [])"

section \<open>Initialization\<close>

text \<open>What the operating system does for the temporary copy of the configuration.\<close>

record tmp_env =
  tmp_open :: "goerr + string"
  tmp_write_err :: "goerr option"
  tmp_close_err :: "goerr option"

definition tree_New :: "prims \<Rightarrow> string \<Rightarrow> bytes \<Rightarrow> ConfFile \<Rightarrow> FileTree result" where
  "tree_New P root masterKey conf =
     (case CryptoCore_New P masterKey BackendGoGCM DefaultIVBits (IsFeatureFlagSet conf FlagHKDF) False of
        Inl f \<Rightarrow> Inl f
      | Inr cCore \<Rightarrow>
      case ContentEnc_New cCore DefaultBS False of
        Inl f \<Rightarrow> Inl f
      | Inr cEnc \<Rightarrow>
      case EMECipher cCore of
        None \<Rightarrow> Inl (Panic NilDeref)
      | Some e \<Rightarrow>
          Inr \<lparr>encryptedRoot = root, ft_masterKey = None, ft_fastCache = NewFastCache tree_cacheSize,
               ft_cCore = cCore, ft_cEnc = cEnc,
               ft_nTransform = NameTransform_New e (IsFeatureFlagSet conf FlagLongNames) (IsFeatureFlagSet conf FlagRaw64)\<rparr>)"

definition FileTree_Init ::
    "prims \<Rightarrow> (bytes \<Rightarrow> goerr + ConfFile) \<Rightarrow> 'w FSAccess \<Rightarrow> tmp_env \<Rightarrow> string \<Rightarrow> bytes \<Rightarrow> localfs \<Rightarrow> 'w \<Rightarrow>
     ((goerr + FileTree) \<times> localfs \<times> 'w) result" where
  "FileTree_Init P unmarshal A T root password lfs w =
     (case fs_ReadFile A (Join [root, ''gocryptfs.conf'']) w of
        (Inl err, w') \<Rightarrow> Inr (Inl err, lfs, w')
      | (Inr confBytes, w') \<Rightarrow>
      case tmp_open T of
        Inl err \<Rightarrow> Inr (Inl err, lfs, w')
      | Inr name \<Rightarrow>
      case (tmp_write_err T, tmp_close_err T) of
        (Some err, _) \<Rightarrow> Inr (Inl err, lfs(name := None), w')
      | (None, Some err) \<Rightarrow> Inr (Inl err, lfs(name := None), w')
      | (None, None) \<Rightarrow>
      case LoadAndDecrypt P unmarshal (lfs(name \<mapsto> confBytes)) name password of
        Inl (Err err) \<Rightarrow> Inr (Inl err, lfs(name := None), w')
      | Inl f \<Rightarrow> Inl f
      | Inr (masterKey, conf) \<Rightarrow>
      case tree_New P root (case masterKey of None \<Rightarrow> [] | Some k \<Rightarrow> k) conf of
        Inl f \<Rightarrow> Inl f
      | Inr t \<Rightarrow> Inr (Inr t, lfs(name := None), w'))"

end
