(* ===== verification/FileTreeSpec.thy ===== *)
theory FileTreeSpec
  imports FileTree
begin

text \<open>
  The file tree against its specification. While the server's files do not change, the tree
  with its directory cache behaves like one that walks down from the root for every request;
  and whatever the server answers, its methods return.
\<close>

section \<open>Specifications of tree operations\<close>

text \<open>
  \<open>yields J m r\<close>: from every state with \<open>J\<close>, the operation \<open>m\<close> returns \<open>r\<close> and keeps \<open>J\<close>.
  \<open>returns F J m\<close>: it returns something and keeps \<open>J\<close>, or it ends the program with a fault of \<open>F\<close>.
\<close>

definition yields :: "(FileTree \<Rightarrow> 'w \<Rightarrow> bool) \<Rightarrow> ('a, 'w) tree_op \<Rightarrow> goerr + 'a \<Rightarrow> bool" where
  "yields J m r \<longleftrightarrow> (\<forall>t w. J t w \<longrightarrow> (\<exists>t' w'. m t w = Inr (r, t', w') \<and> J t' w'))"

definition returns :: "fault set \<Rightarrow> (FileTree \<Rightarrow> 'w \<Rightarrow> bool) \<Rightarrow> ('a, 'w) tree_op \<Rightarrow> bool" where
  "returns F J m \<longleftrightarrow> (\<forall>t w. J t w \<longrightarrow> (case m t w of Inl f \<Rightarrow> f \<in> F | Inr (r, t', w') \<Rightarrow> J t' w'))"

lemma yieldsD: "yields J m r \<Longrightarrow> J t w \<Longrightarrow> \<exists>t' w'. m t w = Inr (r, t', w') \<and> J t' w'"
  by (simp add: yields_def)

lemma returnsD: "returns F J m \<Longrightarrow> J t w \<Longrightarrow> case m t w of Inl f \<Rightarrow> f \<in> F | Inr (r, t', w') \<Rightarrow> J t' w'"
  by (simp add: returns_def)

lemma returns_mono: "returns F J m \<Longrightarrow> F \<subseteq> G \<Longrightarrow> returns G J m"
  by (fastforce simp: returns_def split: sum.splits)

lemma yields_ret [simp]: "yields J (tret a) (Inr a)"
  by (simp add: yields_def tret_def)

lemma yields_err [simp]: "yields J (terr e) (Inl e)"
  by (simp add: yields_def terr_def)

lemma returns_simps [simp]: "returns F J (tret a)" "returns F J (terr e)"
  by (simp_all add: returns_def tret_def terr_def)

lemma yields_bind:
  assumes "yields J m r" "\<And>a. r = Inr a \<Longrightarrow> yields J (k a) (q a)"
  shows "yields J (tbind m wrap k) (case r of Inl e \<Rightarrow> Inl (wrap e) | Inr a \<Rightarrow> q a)"
  unfolding yields_def
proof (intro allI impI)
  fix t w
  assume "J t w"
  then obtain t' w' where m: "m t w = Inr (r, t', w')" "J t' w'"
    using yieldsD [OF assms(1)] by blast
  show "\<exists>t' w'. tbind m wrap k t w = Inr (case r of Inl e \<Rightarrow> Inl (wrap e) | Inr a \<Rightarrow> q a, t', w') \<and> J t' w'"
    using m yieldsD [OF assms(2) m(2)] by (cases r) (auto simp: tbind_def)
qed

lemma returns_bind:
  assumes "returns F J m" "\<And>a. returns F J (k a)"
  shows "returns F J (tbind m wrap k)"
  unfolding returns_def
proof (intro allI impI)
  fix t w
  assume J: "J t w"
  show "case tbind m wrap k t w of Inl f \<Rightarrow> f \<in> F | Inr (r, t', w') \<Rightarrow> J t' w'"
  proof (cases "m t w")
    case (Inl f)
    then show ?thesis
      using returnsD [OF assms(1) J] by (simp add: tbind_def)
  next
    case (Inr x)
    then obtain r t' w' where m: "m t w = Inr (r, t', w')" "J t' w'"
      using returnsD [OF assms(1) J] by (cases x) auto
    then show ?thesis
      using returnsD [OF assms(2) m(2)] by (cases r) (auto simp: tbind_def)
  qed
qed

text \<open>After a call of the accessor, what it answered is known.\<close>

lemma returns_bind_call:
  assumes "\<And>t w w'. J t w \<Longrightarrow> J t w'" "\<And>a w w'. f w = (Inr a, w') \<Longrightarrow> returns F J (k a)"
  shows "returns F J (tbind (tcall f) wrap k)"
  unfolding returns_def
proof (intro allI impI)
  fix t w
  assume J: "J t w"
  obtain r w' where call: "f w = (r, w')"
    by fastforce
  have J': "J t w'"
    using assms(1) J .
  show "case tbind (tcall f) wrap k t w of Inl f \<Rightarrow> f \<in> F | Inr (r, t', w') \<Rightarrow> J t' w'"
  proof (cases r)
    case (Inl e)
    then show ?thesis
      using call J' by (simp add: tbind_def tcall_def)
  next
    case (Inr a)
    then show ?thesis
      using call returnsD [OF assms(2) J', of w a w'] by (simp add: tbind_def tcall_def)
  qed
qed

lemma yields_cong: "yields J m r \<Longrightarrow> r = r' \<Longrightarrow> yields J m r'"
  by simp

section \<open>The reference: walking down from the root\<close>

text \<open>
  What the server holds, and how its names decrypt; \<open>st_panics\<close> says on which names and initialization
  vectors the decrypter panics instead.
\<close>

record store =
  st_ReadFile :: "string \<Rightarrow> goerr + gslice"
  st_ReadDir :: "string \<Rightarrow> goerr + FileInfo list"
  st_DecryptName :: "string \<Rightarrow> bytes \<Rightarrow> goerr + string"
  st_panics :: "string \<Rightarrow> bytes \<Rightarrow> fault option"
  st_Stat :: "string \<Rightarrow> goerr + FileInfo"

text \<open>The entries of a directory with its initialization vector.\<close>

definition dir_entries :: "store \<Rightarrow> string \<Rightarrow> goerr + (bytes \<times> FileInfo list)" where
  "dir_entries S d =
     (case st_ReadFile S (Join [d, ''gocryptfs.diriv'']) of
        Inl e \<Rightarrow> Inl (Errorf ''error reading directory IV: %s'' [FErr e])
      | Inr iv \<Rightarrow>
          (case st_ReadDir S d of
             Inl e \<Rightarrow> Inl (Errorf ''error listing directory: %s'' [FErr e])
           | Inr l \<Rightarrow> Inr (sdata iv, l)))"

definition entry :: "store \<Rightarrow> string \<Rightarrow> string \<Rightarrow> goerr + FileInfo" where
  "entry S d name =
     (case dir_entries S d of
        Inl e \<Rightarrow> Inl (Errorf ''error iterating %s: %s'' [FStr d, FErr e])
      | Inr (iv, l) \<Rightarrow>
          (case find (\<lambda>i. st_DecryptName S (fi_name i) iv = Inr name) l of
             None \<Rightarrow> Inl (Errorf ''%s not found in %s'' [FStr name, FStr d])
           | Some i \<Rightarrow> Inr i))"

definition enter :: "store \<Rightarrow> string \<Rightarrow> string \<Rightarrow> goerr + string" where
  "enter S d name =
     (case entry S d name of
        Inl e \<Rightarrow> Inl e
      | Inr i \<Rightarrow>
          if fi_isdir i then Inr (Join [d, fi_name i])
          else Inl (Errorf ''%s is not a directory'' [FStr (Join [d, fi_name i])]))"

fun walk :: "store \<Rightarrow> string \<Rightarrow> string list \<Rightarrow> goerr + string" where
  "walk S d [] = Inr d"
| "walk S d (c # cs) = (case enter S d c of Inl e \<Rightarrow> Inl e | Inr d' \<Rightarrow> walk S d' cs)"

lemma walk_snoc: "walk S d (cs @ [c]) = (case walk S d cs of Inl e \<Rightarrow> Inl e | Inr d' \<Rightarrow> enter S d' c)"
  by (induction cs arbitrary: d) (auto split: sum.splits)

text \<open>
  The decrypter does not panic on the names that a directory lists, with the directory's
  initialization vector; and so for the directories that can be reached.
\<close>

definition calm_dir :: "store \<Rightarrow> string \<Rightarrow> bool" where
  "calm_dir S d \<longleftrightarrow> (\<forall>iv l. dir_entries S d = Inr (iv, l) \<longrightarrow> (\<forall>i \<in> set l. st_panics S (fi_name i) iv = None))"

definition calm :: "store \<Rightarrow> string \<Rightarrow> bool" where
  "calm S root \<longleftrightarrow> (\<forall>cs d. walk S root cs = Inr d \<longrightarrow> calm_dir S d)"

text \<open>The accessor answers from the store in every state with \<open>I\<close>, and panics where the decrypter does.\<close>

definition serves :: "'w FSAccess \<Rightarrow> ('w \<Rightarrow> bool) \<Rightarrow> store \<Rightarrow> bool" where
  "serves A I S \<longleftrightarrow> (\<forall>w. I w \<longrightarrow>
     (\<forall>p. fst (req_ReadFile A p w) = st_ReadFile S p \<and> I (snd (req_ReadFile A p w))) \<and>
     (\<forall>p. fst (req_ReadDir A p w) = st_ReadDir S p \<and> I (snd (req_ReadDir A p w))) \<and>
     (\<forall>n iv. case st_panics S n iv of
        Some f \<Rightarrow> req_DecryptName A n iv w = Inl f
      | None \<Rightarrow> \<exists>w'. req_DecryptName A n iv w = Inr (st_DecryptName S n iv, w') \<and> I w') \<and>
     (\<forall>p. fst (fs_Stat A p w) = st_Stat S p \<and> I (snd (fs_Stat A p w))))"

lemma calmD: "calm S root \<Longrightarrow> walk S root cs = Inr d \<Longrightarrow> calm_dir S d"
  by (auto simp: calm_def)

lemma servesD:
  assumes "serves A I S" "I w"
  shows "\<exists>w'. req_ReadFile A p w = (st_ReadFile S p, w') \<and> I w'" "\<exists>w'. req_ReadDir A p w = (st_ReadDir S p, w') \<and> I w'"
    "st_panics S n iv = None \<Longrightarrow> \<exists>w'. req_DecryptName A n iv w = Inr (st_DecryptName S n iv, w') \<and> I w'"
    "\<exists>w'. fs_Stat A p w = (st_Stat S p, w') \<and> I w'" "st_panics S n iv = Some f \<Longrightarrow> req_DecryptName A n iv w = Inl f"
proof -
  note all = assms(1) [unfolded serves_def, rule_format, OF assms(2)]
  note rd = conjunct1 [OF all, rule_format, of p] and dir = conjunct1 [OF conjunct2 [OF all], rule_format, of p]
  note name = conjunct1 [OF conjunct2 [OF conjunct2 [OF all]], rule_format, of n iv]
  note stat = conjunct2 [OF conjunct2 [OF conjunct2 [OF all]], rule_format, of p]
  show "\<exists>w'. req_ReadFile A p w = (st_ReadFile S p, w') \<and> I w'"
    using rd by (cases "req_ReadFile A p w") simp
  show "\<exists>w'. req_ReadDir A p w = (st_ReadDir S p, w') \<and> I w'"
    using dir by (cases "req_ReadDir A p w") simp
  show "\<exists>w'. fs_Stat A p w = (st_Stat S p, w') \<and> I w'"
    using stat by (cases "fs_Stat A p w") simp
  show "st_panics S n iv = None \<Longrightarrow> \<exists>w'. req_DecryptName A n iv w = Inr (st_DecryptName S n iv, w') \<and> I w'"
    "st_panics S n iv = Some f \<Longrightarrow> req_DecryptName A n iv w = Inl f"
    using name by simp_all
qed

section \<open>The invariant of the tree\<close>

text \<open>
  The cache is well-formed and its entries are right, and the content encrypter is the one
  that \<^verbatim>\<open>Init\<close> made.
\<close>

definition resolved :: "store \<Rightarrow> string \<Rightarrow> string \<Rightarrow> string \<Rightarrow> bool" where
  "resolved S root p c \<longleftrightarrow> (\<exists>cs. canonical cs \<and> p = abs_path cs \<and> walk S root cs = Inr c)"

definition tree_ok :: "FileTree \<Rightarrow> bool" where
  "tree_ok t \<longleftrightarrow> cache_inv (ft_fastCache t) \<and> tree_enc (ft_cCore t) (ft_cEnc t)"

definition tree_inv :: "store \<Rightarrow> ('w \<Rightarrow> bool) \<Rightarrow> string \<Rightarrow> CryptoCore \<Rightarrow> FileTree \<Rightarrow> 'w \<Rightarrow> bool" where
  "tree_inv S I root cc t w \<longleftrightarrow> I w \<and> encryptedRoot t = root \<and> ft_cCore t = cc \<and> tree_ok t \<and>
     (\<forall>p c. contents (ft_fastCache t) p = Some c \<longrightarrow> resolved S root p c)"

lemma tree_inv_cache:
  assumes "tree_inv S I root cc t w" "cache_inv fc" "\<forall>p c. contents fc p = Some c \<longrightarrow> resolved S root p c"
  shows "tree_inv S I root cc (t\<lparr>ft_fastCache := fc\<rparr>) w"
  using assms by (auto simp: tree_inv_def tree_ok_def)

lemma yields_call:
  assumes "\<And>w. I w \<Longrightarrow> \<exists>w'. f w = (r, w') \<and> I w'"
  shows "yields (tree_inv S I root cc) (tcall f) r"
  unfolding yields_def
proof (intro allI impI)
  fix t w
  assume J: "tree_inv S I root cc t w"
  then have "I w" by (simp add: tree_inv_def)
  then obtain w' where "f w = (r, w')" "I w'"
    using assms by blast
  then show "\<exists>t' w'. tcall f t w = Inr (r, t', w') \<and> tree_inv S I root cc t' w'"
    using J by (simp add: tcall_def tree_inv_def)
qed

lemma yields_calls:
  assumes "serves A I S"
  shows "yields (tree_inv S I root cc) (tcall (req_ReadFile A p)) (st_ReadFile S p)"
    "yields (tree_inv S I root cc) (tcall (req_ReadDir A p)) (st_ReadDir S p)"
    "yields (tree_inv S I root cc) (tcall (fs_Stat A p)) (st_Stat S p)"
  by (rule yields_call, erule servesD [OF assms])+

lemma yields_find:
  assumes "\<And>d. resolved S root p (CiphertextPath d) \<Longrightarrow> yields (tree_inv S I root cc) (k (Some d)) r"
    and "yields (tree_inv S I root cc) (k None) r"
  shows "yields (tree_inv S I root cc) (tbind (cache_Find p) wrap k) r"
  unfolding yields_def
proof (intro allI impI)
  fix t w
  assume J: "tree_inv S I root cc t w"
  then have inv: "cache_inv (ft_fastCache t)"
    by (simp add: tree_inv_def tree_ok_def)
  from inv obtain d fc where f: "Find (ft_fastCache t) p = Inr (d, fc)" "cache_inv fc"
    "contents fc = contents (ft_fastCache t)" "map_option CiphertextPath d = contents (ft_fastCache t) p"
    by (rule fastcache.findE [where k = p])
  then have J': "tree_inv S I root cc (t\<lparr>ft_fastCache := fc\<rparr>) w"
    using J by (intro tree_inv_cache) (auto simp: tree_inv_def)
  have "yields (tree_inv S I root cc) (k d) r"
    using f(4) J assms by (cases d) (auto simp: tree_inv_def)
  from yieldsD [OF this J'] show "\<exists>t' w'. tbind (cache_Find p) wrap k t w = Inr (r, t', w') \<and> tree_inv S I root cc t' w'"
    by (simp add: tbind_def cache_Find_def f(1))
qed

lemma yields_store:
  assumes "resolved S root p c"
  shows "yields (tree_inv S I root cc) (cache_Store p c) (Inr ())"
  unfolding yields_def
proof (intro allI impI)
  fix t w
  assume J: "tree_inv S I root cc t w"
  then have inv: "cache_inv (ft_fastCache t)" "\<forall>p c. contents (ft_fastCache t) p = Some c \<longrightarrow> resolved S root p c"
    by (simp_all add: tree_inv_def tree_ok_def)
  from inv(1) obtain fc where fc: "Store (ft_fastCache t) p c = Inr fc"
    by (rule fastcache.storeE)
  from fastcache.store_preserves [OF inv assms fc] tree_inv_cache [OF J]
  show "\<exists>t' w'. cache_Store p c t w = Inr (Inr (), t', w') \<and> tree_inv S I root cc t' w'"
    by (simp add: cache_Store_def fc)
qed

section \<open>Directories\<close>

text \<open>One entry of the loop, whatever the callback does with it.\<close>

lemma yields_range_Cons:
  assumes "serves A I S" and calm: "st_panics S (fi_name i) iv = None"
    and "\<And>e. st_DecryptName S (fi_name i) iv = Inl e \<Longrightarrow> yields (tree_inv S I root cc) (range_loop A fn iv l acc) r"
    and "\<And>n. st_DecryptName S (fi_name i) iv = Inr n \<Longrightarrow>
       (\<exists>x. r = Inr x \<and> (\<forall>t w. tree_inv S I root cc t w \<longrightarrow> fn t i n acc = Inr (True, x))) \<or>
       (\<exists>acc'. (\<forall>t w. tree_inv S I root cc t w \<longrightarrow> fn t i n acc = Inr (False, acc')) \<and>
          yields (tree_inv S I root cc) (range_loop A fn iv l acc') r)"
  shows "yields (tree_inv S I root cc) (range_loop A fn iv (i # l) acc) r"
  unfolding yields_def
proof (intro allI impI)
  fix t w
  assume J: "tree_inv S I root cc t w"
  obtain w' where call: "req_DecryptName A (fi_name i) iv w = Inr (st_DecryptName S (fi_name i) iv, w')" "I w'"
    using servesD(3) [OF assms(1) _ calm, of w] J by (auto simp: tree_inv_def)
  then have J': "tree_inv S I root cc t w'"
    using J by (simp add: tree_inv_def)
  show "\<exists>t' w'. range_loop A fn iv (i # l) acc t w = Inr (r, t', w') \<and> tree_inv S I root cc t' w'"
  proof (cases "st_DecryptName S (fi_name i) iv")
    case (Inl e)
    then show ?thesis
      using call yieldsD [OF assms(3) J', of e] by simp
  next
    case (Inr n)
    from assms(4) [OF Inr] show ?thesis
    proof (elim disjE exE conjE)
      fix x
      assume "r = Inr x" "\<forall>t w. tree_inv S I root cc t w \<longrightarrow> fn t i n acc = Inr (True, x)"
      then show ?thesis using J J' call Inr by auto
    next
      fix acc'
      assume fn: "\<forall>t w. tree_inv S I root cc t w \<longrightarrow> fn t i n acc = Inr (False, acc')"
        and y: "yields (tree_inv S I root cc) (range_loop A fn iv l acc') r"
      have "fn t i n acc = Inr (False, acc')"
        using fn J by blast
      then show ?thesis using yieldsD [OF y J'] call Inr by simp
    qed
  qed
qed

lemma yields_range_Nil: "yields J (range_loop A fn iv [] acc) (Inr acc)"
  by (simp add: yields_def)

abbreviation find_fn :: "string \<Rightarrow> FileTree \<Rightarrow> FileInfo \<Rightarrow> string \<Rightarrow> FileInfo option \<Rightarrow> (bool \<times> FileInfo option) result" where
  "find_fn name \<equiv> (\<lambda>t info n item. Inr (if name = n then (True, Some info) else (False, item)))"

lemma yields_range_find:
  assumes "serves A I S"
  shows "\<forall>i \<in> set l. st_panics S (fi_name i) iv = None \<Longrightarrow>
    yields (tree_inv S I root cc) (range_loop A (find_fn name) iv l None)
    (Inr (find (\<lambda>i. st_DecryptName S (fi_name i) iv = Inr name) l))"
proof (induction l)
  case Nil
  show ?case unfolding find.simps by (rule yields_range_Nil)
next
  case (Cons i l)
  show ?case
    by (rule yields_range_Cons [OF assms]) (use Cons in auto)
qed

lemma yields_rangeInDir:
  assumes "serves A I S"
    and "\<And>iv l. dir_entries S d = Inr (iv, l) \<Longrightarrow> yields (tree_inv S I root cc) (range_loop A fn iv l acc) (q iv l)"
  shows "yields (tree_inv S I root cc) (rangeInDir A d fn acc) (case dir_entries S d of Inl e \<Rightarrow> Inl e | Inr (iv, l) \<Rightarrow> q iv l)"
  unfolding rangeInDir_def
  by (rule yields_cong, rule yields_bind [OF yields_calls(1) [OF assms(1)]], rule yields_bind [OF yields_calls(2) [OF assms(1)]],
      rule assms(2))
    (auto simp: dir_entries_def split: sum.splits)

lemma yields_findInDir:
  assumes "serves A I S" "calm_dir S d"
  shows "yields (tree_inv S I root cc) (findInDir A d name) (entry S d name)"
proof -
  have "yields (tree_inv S I root cc) (case item of None \<Rightarrow> terr e | Some i \<Rightarrow> tret i)
      (case item of None \<Rightarrow> Inl e | Some i \<Rightarrow> Inr i)" for item e
    by (cases item) simp_all
  then show ?thesis
    unfolding findInDir_def
    by (intro yields_cong [OF yields_bind [OF yields_rangeInDir [OF assms(1) yields_range_find [OF assms(1)]]]])
      (use assms(2) in \<open>auto simp: entry_def calm_dir_def split: sum.splits prod.splits\<close>)
qed

section \<open>Paths\<close>

text \<open>The cached, recursive search agrees with the walk, errors included.\<close>

lemma yields_findPath_rec:
  assumes "serves A I S" "calm S root"
  shows "canonical cs \<Longrightarrow> length cs < n \<Longrightarrow> yields (tree_inv S I root cc) (findPath_rec A n (abs_path cs)) (walk S root cs)"
proof (induction n arbitrary: cs)
  case (Suc n)
  show ?case
  proof (cases cs rule: rev_cases)
    case Nil
    then show ?thesis
      by (simp add: yields_def Clean_abs_path abs_path_root tree_inv_def)
  next
    case (snoc ds c)
    have can: "canonical ds" "canonical (ds @ [c])" "length ds < n"
      using Suc.prems snoc by auto
    have p: "Clean (abs_path cs) = abs_path cs" "abs_path cs \<noteq> ''/''" "Dir (abs_path cs) = abs_path ds" "Base (abs_path cs) = c"
      using can snoc Suc.prems(1) Dir_abs_path [of ds c] Base_abs_path [of ds c] by (simp_all add: Clean_abs_path abs_path_root)
    have same: "walk S root cs = Inr c'" if "resolved S root (abs_path cs) c'" for c'
      using that Suc.prems(1) abs_path_inject unfolding resolved_def by metis
    have leaf: "yields (tree_inv S I root cc)
        (let ct = Join [d, fi_name i] in
         if \<not> fi_isdir i then terr (Errorf ''%s is not a directory'' [FStr ct])
         else tbind (cache_Store (abs_path cs) ct) id (\<lambda>_. tret ct)) (walk S root cs)"
      if "walk S root ds = Inr d" "entry S d c = Inr i" for d i
    proof (cases "fi_isdir i")
      case True
      then have "walk S root cs = Inr (Join [d, fi_name i])"
        using that snoc by (simp add: walk_snoc enter_def)
      moreover from this have "resolved S root (abs_path cs) (Join [d, fi_name i])"
        using Suc.prems(1) by (auto simp: resolved_def)
      from yields_bind [OF yields_store [OF this] yields_ret]
      have "yields (tree_inv S I root cc) (tbind (cache_Store (abs_path cs) (Join [d, fi_name i])) id (\<lambda>_. tret (Join [d, fi_name i])))
          (Inr (Join [d, fi_name i]))"
        by simp
      ultimately show ?thesis
        using True by (simp add: Let_def)
    next
      case False
      then show ?thesis
        using that snoc by (simp add: walk_snoc enter_def Let_def)
    qed
    have step: "findPath_rec A (Suc n) (abs_path cs) = tbind (cache_Find (abs_path cs)) id (\<lambda>dm. case dm of
        Some d \<Rightarrow> tret (CiphertextPath d)
      | None \<Rightarrow> tbind (findPath_rec A n (abs_path ds)) id (\<lambda>d. tbind (findInDir A d c) id (\<lambda>i.
          let ct = Join [d, fi_name i] in
          if \<not> fi_isdir i then terr (Errorf ''%s is not a directory'' [FStr ct])
          else tbind (cache_Store (abs_path cs) ct) id (\<lambda>_. tret ct))))"
      unfolding findPath_rec.simps Let_def p(1,3,4) using p(2) by simp
    show ?thesis
      unfolding step
    proof (rule yields_find)
      show "yields (tree_inv S I root cc) (case Some d of Some d \<Rightarrow> tret (CiphertextPath d) | None \<Rightarrow> m) (walk S root cs)"
        if "resolved S root (abs_path cs) (CiphertextPath d)" for d m
        using same [OF that] by simp
    next
      have "yields (tree_inv S I root cc) (tbind (findInDir A d c) id (\<lambda>i.
          let ct = Join [d, fi_name i] in
          if \<not> fi_isdir i then terr (Errorf ''%s is not a directory'' [FStr ct])
          else tbind (cache_Store (abs_path cs) ct) id (\<lambda>_. tret ct))) (walk S root cs)"
        if d: "walk S root ds = Inr d" for d
        by (rule yields_cong [OF yields_bind [OF yields_findInDir [OF assms(1) calmD [OF assms(2) d]] leaf [OF d]]])
          (use d snoc in \<open>auto simp: walk_snoc enter_def split: sum.splits\<close>)
      then show "yields (tree_inv S I root cc) (case None of Some d \<Rightarrow> tret (CiphertextPath d)
        | None \<Rightarrow> tbind (findPath_rec A n (abs_path ds)) id (\<lambda>d. tbind (findInDir A d c) id (\<lambda>i.
          let ct = Join [d, fi_name i] in
          if \<not> fi_isdir i then terr (Errorf ''%s is not a directory'' [FStr ct])
          else tbind (cache_Store (abs_path cs) ct) id (\<lambda>_. tret ct)))) (walk S root cs)"
        unfolding option.case
        by (intro yields_cong [OF yields_bind [OF Suc.IH [OF can(1,3)]]]) (use snoc in \<open>auto simp: walk_snoc split: sum.splits\<close>)
    qed
  qed
qed simp

lemma findPath_rec_Clean: "is_abs p \<Longrightarrow> findPath_rec A n p = findPath_rec A n (abs_path (path_comps p))"
  by (cases n) (simp_all add: Clean_abs Clean_abs_path)

lemma yields_findPath:
  assumes "serves A I S" "calm S root" "is_abs p"
  shows "yields (tree_inv S I root cc) (findPath A p) (walk S root (path_comps p))"
  unfolding findPath_def findPath_rec_Clean [OF assms(3)] Clean_abs [OF assms(3)]
  using length_canonical [of "path_comps p"] by (intro yields_findPath_rec [OF assms(1,2)]) simp_all

section \<open>Sizes\<close>

definition tree_size :: "CryptoCore \<Rightarrow> FileInfo \<Rightarrow> int" where
  "tree_size cc i = (case CipherSizeToPlainSize (file_enc cc) (word_of_int (fi_size i)) of Inl _ \<Rightarrow> 0 | Inr n \<Rightarrow> sint n)"

lemma CipherSizeToPlainSize_cong:
  "plainBS be = plainBS be' \<Longrightarrow> cipherBS be = cipherBS be' \<Longrightarrow> CipherSizeToPlainSize be = CipherSizeToPlainSize be'"
  by (auto simp: CipherSizeToPlainSize_def CipherOffToBlockNo_def BlockOverhead_def)

lemma CipherSizeToPlainSize_total:
  assumes "cipherBS be \<noteq> 0"
  shows "\<exists>n. CipherSizeToPlainSize be m = Inr n"
proof (cases "unat m \<le> 18")
  case True
  then show ?thesis using CipherSizeToPlainSize_short by simp
next
  case False
  then have "unat (m - 1) = unat m - 1"
    by (simp add: unat_u64_diff)
  then have "\<not> m - 1 < HeaderLen64"
    using False by (simp add: word_less_nat_alt)
  with False assms show ?thesis
    by (auto simp: CipherSizeToPlainSize_def CipherOffToBlockNo_def Let_def word_less_nat_alt)
qed

lemma plain_size_tree:
  assumes "tree_enc cc (ft_cEnc t)"
  shows "plain_size t i = Inr (tree_size cc i)"
proof -
  have "unat (cipherBS (ft_cEnc t)) = unat (4128 :: u64)" "plainBS (ft_cEnc t) = 4096"
    using assms by (simp_all add: tree_enc_def enc_ok_def)
  then have eq: "CipherSizeToPlainSize (ft_cEnc t) = CipherSizeToPlainSize (file_enc cc)"
    by (intro CipherSizeToPlainSize_cong) (simp_all add: file_enc_def word_unat_eq_iff)
  obtain n where "CipherSizeToPlainSize (file_enc cc) (word_of_int (fi_size i)) = Inr n"
    using CipherSizeToPlainSize_total [of "file_enc cc"] by (auto simp: file_enc_def)
  then show ?thesis
    by (simp add: plain_size_def tree_size_def eq)
qed

section \<open>Methods in an unchanging store\<close>

text \<open>A listing: the entries whose names decrypt, in order.\<close>

definition plain_listing :: "store \<Rightarrow> CryptoCore \<Rightarrow> bytes \<Rightarrow> FileInfo list \<Rightarrow> FileInfo list" where
  "plain_listing S cc iv l =
     concat (map (\<lambda>i. case st_DecryptName S (fi_name i) iv of
        Inl _ \<Rightarrow> [] | Inr n \<Rightarrow> [plainFileInfo i n (tree_size cc i)]) l)"

abbreviation list_fn :: "FileTree \<Rightarrow> FileInfo \<Rightarrow> string \<Rightarrow> FileInfo list \<Rightarrow> (bool \<times> FileInfo list) result" where
  "list_fn \<equiv> (\<lambda>t info plainName listing.
     (case plain_size t info of Inl f \<Rightarrow> Inl f | Inr sz \<Rightarrow> Inr (False, listing @ [plainFileInfo info plainName sz])))"

lemma yields_range_list:
  assumes "serves A I S"
  shows "\<forall>i \<in> set l. st_panics S (fi_name i) iv = None \<Longrightarrow> yields (tree_inv S I root cc) (range_loop A list_fn iv l acc) (Inr (acc @ plain_listing S cc iv l))"
proof (induction l arbitrary: acc)
  case Nil
  have "plain_listing S cc iv [] = []"
    by (simp add: plain_listing_def)
  then show ?case
    unfolding append_Nil2 by (simp only: append_Nil2 yields_range_Nil)
next
  case (Cons i l)
  have fn: "list_fn t i n acc = Inr (False, acc @ [plainFileInfo i n (tree_size cc i)])"
    if "tree_inv S I root cc t w" for t w n
    using that plain_size_tree [of cc t i] by (auto simp: tree_inv_def tree_ok_def)
  show ?case
  proof (rule yields_range_Cons [OF assms])
    show "st_panics S (fi_name i) iv = None"
      using Cons.prems by simp
    fix e
    assume "st_DecryptName S (fi_name i) iv = Inl e"
    then show "yields (tree_inv S I root cc) (range_loop A list_fn iv l acc) (Inr (acc @ plain_listing S cc iv (i # l)))"
      using Cons.IH [of acc] Cons.prems by (simp add: plain_listing_def)
  next
    fix n
    assume "st_DecryptName S (fi_name i) iv = Inr n"
    then show "(\<exists>x. Inr (acc @ plain_listing S cc iv (i # l)) = Inr x \<and>
          (\<forall>t w. tree_inv S I root cc t w \<longrightarrow> list_fn t i n acc = Inr (True, x))) \<or>
        (\<exists>acc'. (\<forall>t w. tree_inv S I root cc t w \<longrightarrow> list_fn t i n acc = Inr (False, acc')) \<and>
          yields (tree_inv S I root cc) (range_loop A list_fn iv l acc') (Inr (acc @ plain_listing S cc iv (i # l))))"
      using Cons.IH [of "acc @ [plainFileInfo i n (tree_size cc i)]"] Cons.prems fn by (intro disjI2) (auto simp: plain_listing_def)
  qed
qed

lemma yields_ReadDir:
  assumes "serves A I S" "calm S root" "is_abs p" "walk S root (path_comps p) = Inr d" "dir_entries S d = Inr (iv, l)"
  shows "yields (tree_inv S I root cc) (FileTree_ReadDir A p) (Inr (plain_listing S cc iv l))"
proof -
  have abs: "is_abs (Clean p)" "path_comps (Clean p) = path_comps p"
    using assms(3) by (simp_all add: Clean_abs)
  have "yields (tree_inv S I root cc) (rangeInDir A d list_fn []) (Inr (plain_listing S cc iv l))"
    by (rule yields_cong [OF yields_rangeInDir [OF assms(1) yields_range_list [OF assms(1)]]])
      (use calmD [OF assms(2,4)] assms(5) in \<open>simp_all add: calm_dir_def\<close>)
  from yields_bind [OF this yields_ret]
  have "yields (tree_inv S I root cc) (tbind (rangeInDir A d list_fn []) wrap tret) (Inr (plain_listing S cc iv l))" for wrap
    by simp
  then show ?thesis
    unfolding FileTree_ReadDir_def Let_def
    by (intro yields_cong [OF yields_bind [OF yields_findPath [OF assms(1,2) abs(1)]]]) (auto simp: abs assms(4))
qed

lemma yields_decryptFile:
  assumes "\<And>be. tree_enc cc be \<Longrightarrow> \<exists>be'. decryptFile P be f = Inr (Inr plain, be') \<and> tree_enc cc be'"
  shows "yields (tree_inv S I root cc) (tree_decryptFile P f) (Inr plain)"
  unfolding yields_def
proof (intro allI impI)
  fix t w
  assume J: "tree_inv S I root cc t w"
  then have "tree_enc cc (ft_cEnc t)"
    by (auto simp: tree_inv_def tree_ok_def)
  then obtain be' where "decryptFile P (ft_cEnc t) f = Inr (Inr plain, be')" "tree_enc cc be'"
    using assms by blast
  then show "\<exists>t' w'. tree_decryptFile P f t w = Inr (Inr plain, t', w') \<and> tree_inv S I root cc t' w'"
    using J by (auto simp: tree_decryptFile_def tree_inv_def tree_ok_def)
qed

lemma yields_ReadFile:
  assumes "serves A I S" "calm S root" "is_abs p" "path_comps p = cs @ [c]" "walk S root cs = Inr d" "entry S d c = Inr i" "\<not> fi_isdir i"
    "st_ReadFile S (Join [d, fi_name i]) = Inr f"
    "\<And>be. tree_enc cc be \<Longrightarrow> \<exists>be'. decryptFile P be f = Inr (Inr plain, be') \<and> tree_enc cc be'"
  shows "yields (tree_inv S I root cc) (FileTree_ReadFile P A p) (Inr plain)"
proof -
  have can: "canonical (cs @ [c])"
    using canonical_path_comps [of p] assms(4) by simp
  then have p: "Clean p = abs_path (cs @ [c])" "abs_path (cs @ [c]) \<noteq> ''/''" "Dir (abs_path (cs @ [c])) = abs_path cs"
    "Base (abs_path (cs @ [c])) = c"
    using assms(3,4) by (simp_all only: Clean_abs Dir_abs_path Base_abs_path abs_path_root) simp
  have "yields (tree_inv S I root cc) (tbind (tree_decryptFile P f) wrap tret) (Inr plain)" for wrap
    using yields_bind [OF yields_decryptFile [OF assms(9)] yields_ret] by simp
  then have "yields (tree_inv S I root cc) (tbind (tcall (req_ReadFile A (Join [d, fi_name i]))) wrap
      (\<lambda>f. tbind (tree_decryptFile P f) wrap' tret)) (Inr plain)" for wrap wrap'
    by (intro yields_cong [OF yields_bind [OF yields_calls(1) [OF assms(1)]]]) (auto simp: assms(8))
  then have "yields (tree_inv S I root cc) (tbind (findInDir A d c) readFileErr (\<lambda>i.
      if fi_isdir i then terr (E i) else tbind (tcall (req_ReadFile A (Join [d, fi_name i]))) (wrap i)
        (\<lambda>f. tbind (tree_decryptFile P f) (wrap' i) tret))) (Inr plain)" for E wrap wrap'
    by (intro yields_cong [OF yields_bind [OF yields_findInDir [OF assms(1) calmD [OF assms(2,5)]]]]) (auto simp: assms(6,7))
  then show ?thesis
    unfolding FileTree_ReadFile_def Let_def p if_not_P [OF p(2)]
    by (intro yields_cong [OF yields_bind [OF yields_findPath [OF assms(1,2)]]]) (use can in \<open>auto simp: assms(5)\<close>)
qed

lemma yields_Stat_file:
  assumes "serves A I S" "calm S root" "is_abs p" "path_comps p = cs @ [c]" "walk S root cs = Inr d" "entry S d c = Inr i" "\<not> fi_isdir i"
  shows "yields (tree_inv S I root cc) (FileTree_Stat A p) (Inl (Errorf ''Stat: %s'' [FErr (Errorf ''error finding path: %s''
    [FErr (Errorf ''%s is not a directory'' [FStr (Join [d, fi_name i])])])]))"
proof -
  have "is_abs (Clean p)" "path_comps (Clean p) = cs @ [c]"
    using assms(3,4) canonical_path_comps [of p] by (simp_all add: Clean_abs)
  then have "yields (tree_inv S I root cc) (findPath A (Clean p)) (Inl (Errorf ''%s is not a directory'' [FStr (Join [d, fi_name i])]))"
    using yields_findPath [OF assms(1,2), of "Clean p" cc] assms(5-7) by (simp add: walk_snoc enter_def)
  from yields_bind [OF this] show ?thesis
    unfolding FileTree_Stat_def Let_def by simp
qed

section \<open>Any server\<close>

text \<open>For every accessor, however its answers change: only the tree's own state matters.\<close>

definition any_inv :: "CryptoCore \<Rightarrow> FileTree \<Rightarrow> 'w \<Rightarrow> bool" where
  "any_inv cc t w \<longleftrightarrow> tree_ok t \<and> ft_cCore t = cc"

lemma plain_size_ok: "tree_ok t \<Longrightarrow> plain_size t i = Inr (tree_size (ft_cCore t) i)"
  by (simp add: tree_ok_def plain_size_tree)

lemma any_inv_any: "any_inv cc t w \<Longrightarrow> any_inv cc t w'"
  by (simp add: any_inv_def)

lemma returns_call: "returns F (any_inv cc) (tcall f)"
  by (auto simp: returns_def tcall_def any_inv_def split: prod.splits)

lemma returns_Find: "returns F (any_inv cc) (cache_Find p)"
  unfolding returns_def
proof (intro allI impI)
  fix t and w :: 'a
  assume J: "any_inv cc t w"
  then have "cache_inv (ft_fastCache t)"
    by (simp add: any_inv_def tree_ok_def)
  then obtain d fc where "Find (ft_fastCache t) p = Inr (d, fc)" "cache_inv fc"
    by (rule fastcache.findE)
  then show "case cache_Find p t w of Inl f \<Rightarrow> f \<in> F | Inr (r, t', w') \<Rightarrow> any_inv cc t' w'"
    using J by (auto simp: cache_Find_def any_inv_def tree_ok_def)
qed

lemma returns_Store: "returns F (any_inv cc) (cache_Store p c)"
  unfolding returns_def
proof (intro allI impI)
  fix t and w :: 'a
  assume J: "any_inv cc t w"
  then have "cache_inv (ft_fastCache t)"
    by (simp add: any_inv_def tree_ok_def)
  then obtain fc where "Store (ft_fastCache t) p c = Inr fc" "cache_inv fc"
    by (rule fastcache.storeE)
  then show "case cache_Store p c t w of Inl f \<Rightarrow> f \<in> F | Inr (r, t', w') \<Rightarrow> any_inv cc t' w'"
    using J by (auto simp: cache_Store_def any_inv_def tree_ok_def)
qed

text \<open>The panics of the decrypter on what the server has answered for a directory.\<close>

definition name_faults :: "'w FSAccess \<Rightarrow> fault set" where
  "name_faults A = {f. \<exists>d s l i w1 w1' w2 w2' w3. req_ReadFile A (Join [d, ''gocryptfs.diriv'']) w1 = (Inr s, w1') \<and>
     req_ReadDir A d w2 = (Inr l, w2') \<and> i \<in> set l \<and> req_DecryptName A (fi_name i) (sdata s) w3 = Inl f}"

lemma name_faultsI:
  "req_ReadFile A (Join [d, ''gocryptfs.diriv'']) w1 = (Inr s, w1') \<Longrightarrow> req_ReadDir A d w2 = (Inr l, w2') \<Longrightarrow> i \<in> set l \<Longrightarrow>
     req_DecryptName A (fi_name i) (sdata s) w3 = Inl f \<Longrightarrow> f \<in> name_faults A"
  unfolding name_faults_def mem_Collect_eq by (intro exI conjI)

lemma returns_range:
  fixes A :: "'w FSAccess"
  assumes "\<And>t i n acc. tree_ok t \<Longrightarrow> \<exists>x. fn t i n acc = Inr x"
  shows "(\<And>i w f. i \<in> set l \<Longrightarrow> req_DecryptName A (fi_name i) iv w = Inl f \<Longrightarrow> f \<in> F) \<Longrightarrow>
    returns F (any_inv cc) (range_loop A fn iv l acc)"
proof (induction l arbitrary: acc)
  case Nil
  show ?case by (simp add: returns_def)
next
  case (Cons i l)
  have IH: "returns F (any_inv cc) (range_loop A fn iv l acc)" for acc
  proof (rule Cons.IH)
    fix j w f
    assume "j \<in> set l" "req_DecryptName A (fi_name j) iv w = Inl f"
    then show "f \<in> F"
      using Cons.prems [of j w f] by simp
  qed
  show ?case
    unfolding returns_def
  proof (intro allI impI)
    fix t and w :: 'w
    assume J: "any_inv cc t w"
    show "case range_loop A fn iv (i # l) acc t w of Inl f \<Rightarrow> f \<in> F | Inr (r, t', w') \<Rightarrow> any_inv cc t' w'"
    proof (cases "req_DecryptName A (fi_name i) iv w")
      case (Inl f)
      then show ?thesis using Cons.prems [of i w f] by simp
    next
      case (Inr x)
      obtain r w' where call: "req_DecryptName A (fi_name i) iv w = Inr (r, w')"
        using Inr by (cases x) simp
      note J' = any_inv_any [OF J, of w']
      show ?thesis
      proof (cases r)
        case (Inl e)
        then show ?thesis using returnsD [OF IH J', of acc] call by simp
      next
        case (Inr n)
        obtain b acc' where "fn t i n acc = Inr (b, acc')"
          using assms J by (metis any_inv_def surj_pair)
        then show ?thesis using returnsD [OF IH J', of acc'] call Inr J' by (cases b) auto
      qed
    qed
  qed
qed

lemma returns_rangeInDir:
  assumes "\<And>t i n acc. tree_ok t \<Longrightarrow> \<exists>x. fn t i n acc = Inr x"
  shows "returns (name_faults A) (any_inv cc) (rangeInDir A d fn acc)"
proof -
  have "returns (name_faults A) (any_inv cc) (range_loop A fn (sdata s) l acc)"
    if "req_ReadFile A (Join [d, ''gocryptfs.diriv'']) w1 = (Inr s, w1')" "req_ReadDir A d w2 = (Inr l, w2')" for s l w1 w1' w2 w2'
    using that name_faultsI by (intro returns_range assms) blast+
  then show ?thesis
    unfolding rangeInDir_def by (intro returns_bind_call) (auto simp: any_inv_any)
qed

lemma returns_findInDir: "returns (name_faults A) (any_inv cc) (findInDir A d name)"
  unfolding findInDir_def by (intro returns_bind returns_rangeInDir) (auto split: option.splits)

lemma returns_findPath_rec:
  "canonical cs \<Longrightarrow> length cs < n \<Longrightarrow> returns (name_faults A) (any_inv cc) (findPath_rec A n (abs_path cs))"
proof (induction n arbitrary: cs)
  case (Suc n)
  show ?case
  proof (cases cs rule: rev_cases)
    case Nil
    then show ?thesis
      by (simp add: returns_def Clean_abs_path abs_path_root)
  next
    case (snoc ds c)
    have can: "canonical ds" "length ds < n" and p: "Clean (abs_path cs) = abs_path cs" "abs_path cs \<noteq> ''/''"
      "Dir (abs_path cs) = abs_path ds"
      using Suc.prems snoc Dir_abs_path [of ds c] by (simp_all add: Clean_abs_path abs_path_root)
    have "returns (name_faults A) (any_inv cc) (\<lambda>t w. tbind (cache_Find (abs_path cs)) id (\<lambda>dm. case dm of
        Some d \<Rightarrow> tret (CiphertextPath d)
      | None \<Rightarrow> tbind (findPath_rec A n (abs_path ds)) id (\<lambda>d. tbind (findInDir A d (Base (abs_path cs))) id (\<lambda>i.
          if \<not> fi_isdir i then terr (Errorf ''%s is not a directory'' [FStr (Join [d, fi_name i])])
          else tbind (cache_Store (abs_path cs) (Join [d, fi_name i])) id (\<lambda>_. tret (Join [d, fi_name i]))))) t w)"
      by (intro returns_bind returns_Find) (auto intro!: returns_bind returns_findInDir returns_Store Suc.IH can split: option.splits)
    then show ?thesis
      unfolding findPath_rec.simps Let_def p(1,3) using p(2) by simp
  qed
qed simp

lemma returns_findPath: "is_abs p \<Longrightarrow> returns (name_faults A) (any_inv cc) (findPath A p)"
  unfolding findPath_def
  using length_canonical [of "path_comps p"] by (simp only: findPath_rec_Clean Clean_abs) (intro returns_findPath_rec, simp_all)

lemma returns_ReadDir: "is_abs p \<Longrightarrow> returns (name_faults A) (any_inv cc) (FileTree_ReadDir A p)"
  unfolding FileTree_ReadDir_def Let_def
  by (intro returns_bind returns_findPath returns_rangeInDir) (auto simp: Clean_abs plain_size_ok simp del: split_paired_Ex)

lemma returns_Stat: "is_abs p \<Longrightarrow> returns (name_faults A) (any_inv cc) (FileTree_Stat A p)"
proof -
  have "returns F (any_inv cc) (\<lambda>t w. case plain_size t i of Inl f \<Rightarrow> Inl f | Inr sz \<Rightarrow> Inr (Inr (plainFileInfo i n sz), t, w))" for F i n
    by (simp add: returns_def any_inv_def plain_size_ok)
  then show "is_abs p \<Longrightarrow> returns (name_faults A) (any_inv cc) (FileTree_Stat A p)"
    unfolding FileTree_Stat_def Let_def
    by (intro returns_bind returns_findPath returns_call) (simp_all add: Clean_abs)
qed

text \<open>
  \<^verbatim>\<open>ReadFile\<close> may also panic, in \<^verbatim>\<open>decryptFile\<close>; see the property of that function.
\<close>

definition big_free :: "'w FSAccess \<Rightarrow> bool" where
  "big_free A \<longleftrightarrow> (\<forall>p w f w'. req_ReadFile A p w = (Inr f, w') \<longrightarrow> length (sdata f) < 2 ^ 62)"

definition read_faults :: "'w FSAccess \<Rightarrow> fault set" where
  "read_faults A = insert (Panic IndexOutOfRange) (name_faults A)"

lemma returns_decryptFile:
  assumes "core_aead P cc" "length (sdata f) < 2 ^ 62"
  shows "returns (read_faults A) (any_inv cc) (tree_decryptFile P f)"
  unfolding returns_def
proof (intro allI impI)
  fix t and w :: 'a
  assume J: "any_inv cc t w"
  then have "tree_enc cc (ft_cEnc t)"
    by (auto simp: any_inv_def tree_ok_def)
  from decryptFile_cases [OF this assms]
  consider "decryptFile P (ft_cEnc t) f = Inl (Panic IndexOutOfRange)"
    | r be' where "decryptFile P (ft_cEnc t) f = Inr (r, be')" "tree_enc cc be'"
    by (auto split: if_splits)
  then show "case tree_decryptFile P f t w of Inl f \<Rightarrow> f \<in> read_faults A | Inr (r, t', w') \<Rightarrow> any_inv cc t' w'"
    using J by cases (auto simp: tree_decryptFile_def any_inv_def tree_ok_def read_faults_def)
qed

lemma returns_read_decrypt:
  assumes "core_aead P cc" "big_free A"
  shows "returns (read_faults A) (any_inv cc) (tbind (tcall (req_ReadFile A p)) wrap (\<lambda>f. tbind (tree_decryptFile P f) wrap' tret))"
  using assms(2) by (intro returns_bind_call returns_bind returns_decryptFile assms(1)) (auto simp: any_inv_any big_free_def)

lemma returns_ReadFile:
  assumes "core_aead P cc" "big_free A" "is_abs p"
  shows "returns (read_faults A) (any_inv cc) (FileTree_ReadFile P A p)"
proof (cases "Clean p = ''/''")
  case True
  then show ?thesis by (simp add: FileTree_ReadFile_def)
next
  case False
  have dir: "is_abs (Dir (Clean p))"
  proof (cases "path_comps p" rule: rev_cases)
    case Nil
    then show ?thesis using False assms(3) by (simp add: Clean_abs abs_path_def)
  next
    case (snoc cs c)
    then show ?thesis
      using assms(3) canonical_path_comps [of p] by (simp add: Clean_abs Dir_abs_path)
  qed
  have sub: "name_faults A \<subseteq> read_faults A"
    by (auto simp: read_faults_def)
  have "returns (read_faults A) (any_inv cc) (if fi_isdir i then terr e else
      tbind (tcall (req_ReadFile A q)) wrap (\<lambda>f. tbind (tree_decryptFile P f) wrap' tret))" for i e q wrap wrap'
    by (simp add: returns_read_decrypt [OF assms(1,2)])
  then show ?thesis
    unfolding FileTree_ReadFile_def Let_def if_not_P [OF False]
    by (intro returns_bind returns_mono [OF returns_findPath [OF dir] sub] returns_mono [OF returns_findInDir sub])
qed

text \<open>
  The panics that are left when names are decrypted by a name transformer whose EME keeps to its
  documentation: the server has answered an initialization vector that does not have 16 bytes, or a name
  that decodes to more than 2048 bytes.
\<close>

definition bad_dir :: "'w FSAccess \<Rightarrow> NameTransform \<Rightarrow> fault \<Rightarrow> bool" where
  "bad_dir A nt f \<longleftrightarrow> (\<exists>d s l i w1 w1' w2 w2' bin. req_ReadFile A (Join [d, ''gocryptfs.diriv'']) w1 = (Inr s, w1') \<and>
     req_ReadDir A d w2 = (Inr l, w2') \<and> i \<in> set l \<and> b64_decode (B64 nt) (fi_name i) = Inr bin \<and>
     eme_Decrypt (emeCipher nt) (sdata s) bin = Inl f \<and> (length (sdata s) \<noteq> 16 \<or> 2048 < length bin))"

definition decrypts_names :: "'w FSAccess \<Rightarrow> NameTransform \<Rightarrow> bool" where
  "decrypts_names A nt \<longleftrightarrow> (\<forall>n iv w f. req_DecryptName A n iv w = Inl f \<longrightarrow> panic_of (DecryptName nt n iv) = Some f)"

lemma name_faults_bad:
  assumes "decrypts_names A nt" "eme_documented (emeCipher nt)" "f \<in> name_faults A"
  shows "bad_dir A nt f"
proof -
  obtain d s l i w1 w1' w2 w2' w3 where f: "req_ReadFile A (Join [d, ''gocryptfs.diriv'']) w1 = (Inr s, w1')"
    "req_ReadDir A d w2 = (Inr l, w2')" "i \<in> set l" "req_DecryptName A (fi_name i) (sdata s) w3 = Inl f"
    using assms(3) unfolding name_faults_def by blast
  then have "panic_of (DecryptName nt (fi_name i) (sdata s)) = Some f"
    using assms(1) unfolding decrypts_names_def by blast
  then obtain bin where bin: "b64_decode (B64 nt) (fi_name i) = Inr bin" "bin \<noteq> []" "length bin mod 16 = 0"
    "eme_Decrypt (emeCipher nt) (sdata s) bin = Inl f"
    by (rule DecryptName_panics)
  then have "length (sdata s) \<noteq> 16 \<or> 2048 < length bin"
    using assms(2) unfolding eme_documented_def eme_block_data_def by (meson not_le)
  then show ?thesis
    using f(1-3) bin unfolding bad_dir_def by blast
qed

text \<open>How a method ends: it returns with the tree intact, or it ends the program with one of the faults.\<close>

definition ends_in :: "fault set \<Rightarrow> ((goerr + 'a) \<times> FileTree \<times> 'w) result \<Rightarrow> bool" where
  "ends_in F r \<longleftrightarrow> (case r of Inl f \<Rightarrow> f \<in> F | Inr (_, t, _) \<Rightarrow> tree_ok t)"

lemma returns_ends: "returns F (any_inv (ft_cCore t)) m \<Longrightarrow> F \<subseteq> G \<Longrightarrow> tree_ok t \<Longrightarrow> ends_in G (m t w)"
  using returnsD [of F "any_inv (ft_cCore t)" m t w] by (auto simp: ends_in_def any_inv_def split: sum.splits)

section \<open>Relative paths\<close>

text \<open>The recursion of \<^verbatim>\<open>findPath\<close> never ends for a relative path: it reaches ``.'' and stays.\<close>

lemma findPath_relative_hangs:
  assumes "\<not> is_abs p" "cache_inv (ft_fastCache t)" "\<And>q c. contents (ft_fastCache t) q = Some c \<Longrightarrow> is_abs q"
  shows "findPath_rec A n p t w = Inl Hang"
  using assms
proof (induction n arbitrary: p t)
  case (Suc n)
  have rel: "\<not> is_abs (Clean p)" "\<not> is_abs (Dir (Clean p))" "Clean p \<noteq> ''/''"
    using Clean_rel [OF Suc.prems(1)] Dir_rel [OF Clean_rel [OF Suc.prems(1)]] by auto
  have "contents (ft_fastCache t) (Clean p) = None"
    using Suc.prems(3) rel(1) by (cases "contents (ft_fastCache t) (Clean p)") auto
  then obtain fc where fc: "Find (ft_fastCache t) (Clean p) = Inr (None, fc)" "cache_inv fc" "contents fc = contents (ft_fastCache t)"
    using Suc.prems(2) by (auto elim: fastcache.findE [where k = "Clean p"])
  have "findPath_rec A n (Dir (Clean p)) (t\<lparr>ft_fastCache := fc\<rparr>) w = Inl Hang"
    using Suc.prems(3) fc rel(2) by (intro Suc.IH) auto
  then show ?case
    using rel(3) fc(1) by (simp add: Let_def tbind_def cache_Find_def)
qed simp

section \<open>A small tree\<close>

text \<open>A directory with a subdirectory and a file, whose names decrypt to lower case.\<close>

definition demo_file :: "string \<Rightarrow> bool \<Rightarrow> FileInfo" where
  "demo_file n d = \<lparr>fi_name = n, fi_size = 4000, fi_isdir = d\<rparr>"

definition demo_store :: "gslice \<Rightarrow> store" where
  "demo_store f = \<lparr>st_ReadFile = (\<lambda>p. if p = ''/c/F'' then Inr f else Inr (make_slice 16)),
     st_ReadDir = (\<lambda>p. Inr (if p = ''/c'' then [demo_file ''gocryptfs.conf'' False, demo_file ''D'' True, demo_file ''F'' False] else [])),
     st_DecryptName = (\<lambda>n iv. if n = ''D'' then Inr ''d'' else if n = ''F'' then Inr ''f'' else Inl (Errno EBADMSG)),
     st_panics = (\<lambda>_ _. None),
     st_Stat = (\<lambda>p. Inr (demo_file p True))\<rparr>"

definition demo_access :: "gslice \<Rightarrow> unit FSAccess" where
  "demo_access f = \<lparr>fs_ReadFile = (\<lambda>p w. (Inl (ExternalErr p), w)), fs_Stat = (\<lambda>p w. (st_Stat (demo_store f) p, w)),
     req_ReadFile = (\<lambda>p w. (st_ReadFile (demo_store f) p, w)), req_ReadDir = (\<lambda>p w. (st_ReadDir (demo_store f) p, w)),
     req_DecryptName = (\<lambda>n iv w. Inr (st_DecryptName (demo_store f) n iv, w))\<rparr>"

definition demo_tree :: FileTree where
  "demo_tree = \<lparr>encryptedRoot = ''/c'', ft_masterKey = None, ft_fastCache = NewFastCache tree_cacheSize,
     ft_cCore = demo_core, ft_cEnc = file_enc demo_core, ft_nTransform = NameTransform_New demo_eme True True\<rparr>"

lemma demo_serves: "serves (demo_access f) (\<lambda>_. True) (demo_store f)"
  by (simp add: serves_def demo_access_def demo_store_def)

lemma demo_calm: "calm (demo_store f) root"
  by (simp add: calm_def calm_dir_def demo_store_def)

lemma demo_tree_ok: "tree_ok demo_tree"
  by (simp add: tree_ok_def demo_tree_def tree_cacheSize_def cache_inv_New core_aead_file)

lemma demo_tree_inv: "tree_inv (demo_store f) (\<lambda>_. True) ''/c'' demo_core demo_tree w"
  using demo_tree_ok by (simp add: tree_inv_def) (simp add: demo_tree_def contents_def NewFastCache_def)

lemma demo_paths:
  "is_abs ''/x/../f''" "path_comps ''/x/../f'' = [''f'']" "is_abs ''/d/e''" "path_comps ''/d/e'' = [''d'', ''e'']"
  "is_abs ''/''" "path_comps ''/'' = []"
  by (simp_all add: is_abs_def path_comps_def clean_comps_def clean_step_def)

lemma demo_Join: "Join [''/c'', ''gocryptfs.diriv''] = ''/c/gocryptfs.diriv''" "Join [''/c'', ''F''] = ''/c/F''"
  "Join [''/c'', ''D''] = ''/c/D''" "Join [''/c/D'', ''gocryptfs.diriv''] = ''/c/D/gocryptfs.diriv''"
  by (simp_all add: Join_def Clean_def Let_def abs_path_def clean_comps_def clean_step_def is_abs_def)

lemma demo_entries: "dir_entries (demo_store f) ''/c'' =
    Inr (replicate 16 0, [demo_file ''gocryptfs.conf'' False, demo_file ''D'' True, demo_file ''F'' False])"
  by (simp add: dir_entries_def demo_Join demo_store_def make_slice_def)

lemma demo_entry: "entry (demo_store f) ''/c'' ''f'' = Inr (demo_file ''F'' False)"
  by (simp add: entry_def demo_entries) (simp add: demo_store_def demo_file_def)

section \<open>Properties\<close>

text \<open>
  C7: while the server's files do not change, looking up a path with the directory cache gives exactly
  what walking down from the root without a cache gives, for every absolute path, errors
  included; and it leaves only correct entries in the cache. (The name decrypter must not panic on what the
  directories hold, see the property on all servers.)
\<close>

theorem findPath_equals_walk:
  assumes "serves A I S" and "calm S root" and "is_abs p" and "tree_inv S I root cc t w"
  shows "\<exists>t' w'. findPath A p t w = Inr (walk S root (path_comps p), t', w') \<and> tree_inv S I root cc t' w'"
  using yieldsD [OF yields_findPath [OF assms(1-3)] assms(4)] .

theorem findPath_equals_walk_witness:
  "\<exists>t' w'. findPath (demo_access nil_slice) ''/d/e'' demo_tree () =
     Inr (walk (demo_store nil_slice) ''/c'' [''d'', ''e''], t', w')"
  using findPath_equals_walk [OF demo_serves demo_calm demo_paths(3) demo_tree_inv] unfolding demo_paths by blast

text \<open>
  C6: files are read back end to end: the path is cleaned, its directories are found by their
  decrypted names, and a regular file whose contents are a packed header and the blocks that the
  encrypter wrote, under any interleaving of its goroutines, is returned as its plaintext.
\<close>

theorem ReadFile_plaintext:
  assumes "serves A I S" and "calm S root" and "tree_inv S I root cc t w" and "core_aead P cc"
    and "is_abs p" and "path_comps p = cs @ [c]" and "walk S root cs = Inr d" and "entry S d c = Inr i" and "\<not> fi_isdir i"
    and "st_ReadFile S (Join [d, fi_name i]) = Inr f" and "sdata f = hdr @ sdata out"
    and "Pack h = Inr hdr" and "header_wf h"
    and "tree_enc cc be" and "fair_sched sched" and "0 < numCPU"
    and "prefetch_reads rp (replicate (length blocks) (IVLen cc)) = Inr (nonces, rp')" and "replicate (IVLen cc) 0 \<notin> set nonces"
    and "EncryptBlocks P sched numCPU be blocks 0 (Some (hID h)) rp = Inr (out, be1, rp')"
    and "well_blocked 4096 (map sdata blocks)" and "blocks \<noteq> []"
    and "length (concat (map sdata blocks)) + 32 * length blocks + 18 < 2 ^ 62"
  shows "\<exists>t' w'. FileTree_ReadFile P A p t w = Inr (Inr (concat (map sdata blocks)), t', w') \<and> tree_inv S I root cc t' w'"
proof -
  have bs: "unat (plainBS be') = 4096" if "tree_enc cc be'" for be'
    using that by (simp add: tree_enc_def)
  have hdr: "ParseHeader hdr = Inr h" "length hdr = 18"
    using file_header.dec_enc [OF assms(13,12)] Pack_length [OF assms(12)] by simp_all
  have wb: "well_blocked (unat (plainBS be)) (map sdata blocks)"
    using bs [OF assms(14)] assms(20) by simp
  obtain out' xs be2 where e: "EncryptBlocks P sched numCPU be blocks 0 (Some (hID h)) rp = Inr (out', be2, rp')"
    "sdata out' = concat xs" "sealed_run P cc (Some (hID h)) 0 (map sdata blocks) xs"
    by (rule EncryptBlocks_file [OF assms(14,4,15,16) ParseHeader_fid [OF hdr(1)] wb assms(17,18)])
  then have xs: "sdata out = concat xs" "sealed_run P cc (Some (hID h)) 0 (map sdata blocks) xs"
    using assms(19) by simp_all
  obtain cap where f: "f = \<lparr>sdata = hdr @ concat xs, scap = cap\<rparr>"
    using assms(11) xs(1) by (cases f) simp
  have "\<exists>be''. decryptFile P be' f = Inr (Inr (concat (map sdata blocks)), be'') \<and> tree_enc cc be''" if "tree_enc cc be'" for be'
    unfolding f by (rule decryptFile_sealed [OF that assms(4) hdr _ _ xs(2)]; use assms(20-22) bs [OF that] in simp)
  from yieldsD [OF yields_ReadFile [OF assms(1,2,5-10) this] assms(3)] show ?thesis .
qed

theorem ReadFile_plaintext_witness:
  "\<exists>f t' w'. FileTree_ReadFile demo_prims (demo_access f) ''/x/../f'' demo_tree () =
     Inr (Inr (replicate 4096 0 @ [1, 2, 3]), t', w')"
proof -
  let ?blocks = "[make_slice 4096, \<lparr>sdata = [1, 2, 3], scap = 3\<rparr>]"
  let ?h = "\<lparr>hVersion = 2, hID = replicate 16 (5 :: byte)\<rparr>"
  have wf: "header_wf ?h"
    by (simp add: header_wf_def CurrentVersion_def headerIDLen_def allZeroFileID_def replicate_eq_replicate)
  then obtain hdr where hdr: "Pack ?h = Inr hdr" "ParseHeader hdr = Inr ?h"
    using file_header.roundtrip by blast
  obtain rp' where rp: "prefetch_reads demo_rp [16, 16] = Inr ([replicate 16 1, replicate 16 1], rp')"
    using demo_rp_reads by blast
  then have rp: "prefetch_reads demo_rp (replicate (length ?blocks) (IVLen demo_core)) =
      Inr ([replicate 16 1, replicate 16 1], rp')"
    by (simp add: demo_core_def)
  have fresh: "replicate (IVLen demo_core) 0 \<notin> set [replicate 16 (1 :: byte), replicate 16 1]"
    by (simp add: demo_core_def replicate_eq_replicate)
  have wb: "well_blocked 4096 (map sdata ?blocks)" "well_blocked (unat (plainBS (file_enc demo_core))) (map sdata ?blocks)"
    by (simp_all add: make_slice_def file_enc_def)
  have cpu: "(0 :: nat) < 8" by simp
  obtain out cs be1 where e: "EncryptBlocks demo_prims concat 8 (file_enc demo_core) ?blocks 0 (Some (hID ?h)) demo_rp = Inr (out, be1, rp')"
    by (rule EncryptBlocks_file [OF core_aead_file core_aead_demo fair_sched_concat cpu ParseHeader_fid [OF hdr(2)] wb(2) rp fresh])
  let ?f = "\<lparr>sdata = hdr @ sdata out, scap = 0\<rparr>"
  have "\<exists>t' w'. FileTree_ReadFile demo_prims (demo_access ?f) ''/x/../f'' demo_tree () =
      Inr (Inr (concat (map sdata ?blocks)), t', w') \<and> tree_inv (demo_store ?f) (\<lambda>_. True) ''/c'' demo_core t' w'"
  proof (rule ReadFile_plaintext [where f = ?f, OF demo_serves demo_calm demo_tree_inv core_aead_demo demo_paths(1) _ _ demo_entry _ _ _ hdr(1) wf
        core_aead_file fair_sched_concat _ rp fresh e wb(1)])
    show "path_comps ''/x/../f'' = [] @ [''f'']"
      by (simp add: demo_paths)
  qed (simp_all add: demo_file_def demo_Join demo_store_def make_slice_def)
  then show ?thesis by (auto simp: make_slice_def)
qed

text \<open>
  A listing shows exactly the entries of the directory whose names decrypt, in the server's
  order, with their plaintext names and the plaintext sizes that follow from the ciphertext sizes.
\<close>

lemma ReadDir_listing:
  assumes "serves A I S" and "calm S root" and "tree_inv S I root cc t w" and "is_abs p" and "walk S root (path_comps p) = Inr d"
    and "dir_entries S d = Inr (iv, l)"
  shows "\<exists>t' w'. FileTree_ReadDir A p t w = Inr (Inr (plain_listing S cc iv l), t', w') \<and> tree_inv S I root cc t' w'"
  using yieldsD [OF yields_ReadDir [OF assms(1,2,4-6)] assms(3)] .

lemma ReadDir_listing_witness:
  "\<exists>t' w'. FileTree_ReadDir (demo_access nil_slice) ''/'' demo_tree () =
     Inr (Inr [\<lparr>fi_name = ''d'', fi_size = 3950, fi_isdir = True\<rparr>, \<lparr>fi_name = ''f'', fi_size = 3950, fi_isdir = False\<rparr>], t', w')"
proof -
  have "tree_size demo_core (demo_file n b) = 3950" for n b
    by (simp add: tree_size_def demo_file_def CipherSizeToPlainSize_def CipherOffToBlockNo_def BlockOverhead_def file_enc_def)
  then have "plain_listing (demo_store nil_slice) demo_core (replicate 16 0)
      [demo_file ''gocryptfs.conf'' False, demo_file ''D'' True, demo_file ''F'' False] =
    [\<lparr>fi_name = ''d'', fi_size = 3950, fi_isdir = True\<rparr>, \<lparr>fi_name = ''f'', fi_size = 3950, fi_isdir = False\<rparr>]"
    by (simp add: plain_listing_def demo_store_def) (simp add: demo_file_def plainFileInfo_def)
  then show ?thesis
    using ReadDir_listing [OF demo_serves [of nil_slice] demo_calm demo_tree_inv demo_paths(5) _ demo_entries] by (auto simp: demo_paths)
qed

text \<open>
  C16: whatever the server answers, and however its answers change, the tree's methods return for
  every absolute path: no recursion runs away, and the cache and the encrypter stay intact. There are two
  exceptions. The name decrypter panics when the server has answered a directory's initialization vector that
  does not have 16 bytes, or a name that decodes to more than 2048 bytes, and only then, if EME keeps to
  its documentation; and \<^verbatim>\<open>ReadFile\<close> may panic with the index error of \<^verbatim>\<open>decryptFile\<close>.
\<close>

theorem tree_methods_return:
  assumes "tree_ok t" and "core_aead P (ft_cCore t)" and "big_free A" and "is_abs p"
    and "decrypts_names A nt" and "eme_documented (emeCipher nt)"
  shows "ends_in {f. bad_dir A nt f} (findPath A p t w) \<and>
    ends_in {f. bad_dir A nt f} (FileTree_ReadDir A p t w) \<and>
    ends_in {f. bad_dir A nt f} (FileTree_Stat A p t w) \<and>
    ends_in (insert (Panic IndexOutOfRange) {f. bad_dir A nt f}) (FileTree_ReadFile P A p t w)"
proof -
  have faults: "name_faults A \<subseteq> {f. bad_dir A nt f}"
    using name_faults_bad [OF assms(5,6)] by blast
  then have read: "read_faults A \<subseteq> insert (Panic IndexOutOfRange) {f. bad_dir A nt f}"
    by (auto simp: read_faults_def)
  note ends = returns_ends [OF _ faults assms(1)]
  show ?thesis
    by (intro conjI ends returns_findPath returns_ReadDir returns_Stat assms(4)
        returns_ends [OF returns_ReadFile [OF assms(2-4)] read assms(1)])
qed

theorem tree_methods_return_witness:
  "\<exists>r t' w'. FileTree_Stat (demo_access nil_slice) ''/d/e'' demo_tree () = Inr (r, t', w') \<and> tree_ok t'"
proof -
  let ?A = "demo_access nil_slice" and ?nt = "NameTransform_New demo_eme True True"
  have "big_free ?A" "decrypts_names ?A ?nt"
    by (auto simp: big_free_def decrypts_names_def demo_access_def demo_store_def nil_slice_def make_slice_def split: if_splits)
  moreover have "core_aead demo_prims (ft_cCore demo_tree)"
    by (simp add: demo_tree_def core_aead_demo)
  moreover have "eme_documented (emeCipher ?nt)" "\<not> bad_dir ?A ?nt f" for f
    by (simp_all add: eme_documented_def bad_dir_def NameTransform_New_def demo_eme_def)
  ultimately have "ends_in {} (FileTree_Stat ?A ''/d/e'' demo_tree ())"
    using tree_methods_return [OF demo_tree_ok _ _ demo_paths(3), of demo_prims ?A ?nt "()"] by simp
  then show ?thesis
    by (auto simp: ends_in_def split: sum.splits)
qed

text \<open>The panic does happen: listing the root ends the program if the decrypter panics on one of its names.\<close>

lemma range_list_panics:
  assumes "serves A I S"
  shows "\<exists>i \<in> set l. st_panics S (fi_name i) iv \<noteq> None \<Longrightarrow> tree_inv S I root cc t w \<Longrightarrow>
    \<exists>i f. i \<in> set l \<and> st_panics S (fi_name i) iv = Some f \<and> range_loop A list_fn iv l acc t w = Inl f"
proof (induction l arbitrary: acc w)
  case (Cons i l)
  have I: "I w"
    using Cons.prems(2) by (simp add: tree_inv_def)
  show ?case
  proof (cases "st_panics S (fi_name i) iv")
    case (Some f)
    then have "req_DecryptName A (fi_name i) iv w = Inl f"
      using servesD(5) [OF assms I] by blast
    then show ?thesis
      using Some by (intro exI [of _ i] exI [of _ f]) simp
  next
    case None
    then obtain w' where w': "req_DecryptName A (fi_name i) iv w = Inr (st_DecryptName S (fi_name i) iv, w')" "I w'"
      using servesD(3) [OF assms I] by blast
    have rest: "\<exists>k f. k \<in> set l \<and> st_panics S (fi_name k) iv = Some f \<and> range_loop A list_fn iv l acc' t w' = Inl f" for acc'
      using Cons.IH [of w' acc'] Cons.prems None w'(2) by (simp add: tree_inv_def)
    obtain sz where "plain_size t i = Inr sz"
      using plain_size_tree [of cc t i] Cons.prems(2) by (auto simp: tree_inv_def tree_ok_def)
    then have "range_loop A list_fn iv (i # l) acc t w = range_loop A list_fn iv l (case st_DecryptName S (fi_name i) iv of
        Inl e \<Rightarrow> acc | Inr n \<Rightarrow> acc @ [plainFileInfo i n sz]) t w'"
      using w'(1) by (cases "st_DecryptName S (fi_name i) iv") simp_all
    then show ?thesis
      using rest by fastforce
  qed
qed simp

lemma ReadDir_root_panics:
  assumes "serves A I S" and "tree_inv S I root cc t w" and "dir_entries S root = Inr (iv, l)"
    and "\<exists>i \<in> set l. st_panics S (fi_name i) iv \<noteq> None"
  shows "\<exists>i f. i \<in> set l \<and> st_panics S (fi_name i) iv = Some f \<and> FileTree_ReadDir A ''/'' t w = Inl f"
proof -
  have I: "I w" "encryptedRoot t = root"
    using assms(2) by (simp_all add: tree_inv_def)
  obtain s where files: "st_ReadFile S (Join [root, ''gocryptfs.diriv'']) = Inr s" "iv = sdata s" "st_ReadDir S root = Inr l"
    using assms(3) by (auto simp: dir_entries_def split: sum.splits)
  obtain w1 where w1: "req_ReadFile A (Join [root, ''gocryptfs.diriv'']) w = (Inr s, w1)" "I w1"
    using servesD(1) [OF assms(1) I(1)] files(1) by metis
  obtain w2 where w2: "req_ReadDir A root w1 = (Inr l, w2)" "I w2"
    using servesD(2) [OF assms(1) w1(2)] files(3) by metis
  have "tree_inv S I root cc t w2"
    using assms(2) w2(2) by (simp add: tree_inv_def)
  then obtain i f where f: "i \<in> set l" "st_panics S (fi_name i) iv = Some f" "range_loop A list_fn iv l [] t w2 = Inl f"
    using range_list_panics [OF assms(1,4)] by blast
  then have "rangeInDir A root list_fn [] t w = Inl f"
    using w1(1) w2(1) files(2) by (simp add: rangeInDir_def tbind_def tcall_def)
  moreover have "Clean ''/'' = ''/''"
    by (simp add: Clean_abs demo_paths abs_path_def)
  then have "findPath A (Clean ''/'') t w = Inr (Inr root, t, w)"
    using I(2) by (simp add: findPath_def)
  ultimately have "FileTree_ReadDir A ''/'' t w = Inl f"
    unfolding FileTree_ReadDir_def Let_def by (simp add: tbind_def)
  then show ?thesis
    using f(1,2) by blast
qed

text \<open>
  \<^verbatim>\<open>Stat\<close> works for directories only: for every regular file of the tree, although it
  exists and \<^verbatim>\<open>ReadFile\<close> reads it, the call ends with ``is not a directory''.
\<close>

lemma Stat_of_file_fails:
  assumes "serves A I S" and "calm S root" and "tree_inv S I root cc t w" and "is_abs p" and "path_comps p = cs @ [c]" and "walk S root cs = Inr d"
    and "entry S d c = Inr i" and "\<not> fi_isdir i"
  shows "\<exists>t' w'. FileTree_Stat A p t w = Inr (Inl (Errorf ''Stat: %s'' [FErr (Errorf ''error finding path: %s''
    [FErr (Errorf ''%s is not a directory'' [FStr (Join [d, fi_name i])])])]), t', w')"
  using yieldsD [OF yields_Stat_file [OF assms(1,2,4-8)] assms(3)] by blast

lemma Stat_of_file_fails_witness:
  "\<exists>t' w'. FileTree_Stat (demo_access nil_slice) ''/x/../f'' demo_tree () = Inr (Inl (Errorf ''Stat: %s''
    [FErr (Errorf ''error finding path: %s'' [FErr (Errorf ''%s is not a directory'' [FStr ''/c/F''])])]), t', w')"
  using Stat_of_file_fails [OF demo_serves [of nil_slice] demo_calm demo_tree_inv demo_paths(1) _ _ demo_entry, of "[]"]
  by (simp add: demo_paths demo_file_def demo_Join)

section \<open>Initialization\<close>

lemma tree_New_ok:
  assumes "crypto_lib P" "length key = KeyLen"
  obtains t where "tree_New P root key conf = Inr t" "tree_inv S (\<lambda>_. True) root (ft_cCore t) t w" "core_aead P (ft_cCore t)"
    "ft_masterKey t = None"
proof -
  obtain cc where cc: "CryptoCore_New P key BackendGoGCM DefaultIVBits (IsFeatureFlagSet conf FlagHKDF) False = Inr cc"
    "IVLen cc = 16" "nonceLen (IVGenerator cc) = 16" "core_aead P cc" "EMECipher cc \<noteq> None"
    by (rule crypto_lib.CryptoCore_New_gcm [OF assms, where bits = DefaultIVBits]) (auto simp: DefaultIVBits_def)
  from cc(5) obtain e where e: "EMECipher cc = Some e" by blast
  show thesis
  proof (rule that)
    show "tree_New P root key conf = Inr \<lparr>encryptedRoot = root, ft_masterKey = None, ft_fastCache = NewFastCache tree_cacheSize,
        ft_cCore = cc, ft_cEnc = file_enc cc,
        ft_nTransform = NameTransform_New e (IsFeatureFlagSet conf FlagLongNames) (IsFeatureFlagSet conf FlagRaw64)\<rparr>"
      using cc(1,2) e by (simp add: tree_New_def ContentEnc_New_file_enc)
  qed (use cc tree_enc_file_enc [of cc] in \<open>simp_all add: tree_inv_def tree_ok_def cache_inv_New tree_cacheSize_def\<close>,
      simp add: contents_def NewFastCache_def)
qed

text \<open>A configuration of the example library that unlocks with a password.\<close>

lemma demo_unlocks:
  "\<exists>cf. LoadAndDecrypt demo_prims (\<lambda>_. Inr cf) ([''c'' \<mapsto> [1]]) ''c'' [1] = Inr (Some (replicate 32 9), cf)"
proof -
  let ?c0 = "fresh_conf ''c'' ''me'' False False []"
  obtain rp' where rp: "prefetch_read demo_rp 16 = Inr (replicate 16 1, rp')"
    by (simp add: demo_rp_def prefetch_read_def prefetchN_def buffer_Read_def Let_def)
  have iv: "key_iv ?c0 = 16"
    by (simp add: key_iv_def fresh_conf_flags)
  obtain cf where cf: "DecryptMasterKey demo_prims cf [1] = Inr (replicate 32 9)"
      "cf = ?c0\<lparr>ScryptObject := ScryptObject cf, EncryptedKey := EncryptedKey cf\<rparr>"
    using crypto_lib.EncryptKey_seals [OF demo_lib.crypto_lib_axioms, of "\<lambda>n. Inr (replicate n 3)" "replicate 32 3" 0
        "replicate 32 9" demo_rp ?c0 "replicate 16 1" rp' "[1]"] rp iv
    by (auto simp: KeyLen_def logN_ok_def replicate_eq_replicate)
  have "Load (\<lambda>_. Inr cf) ([''c'' \<mapsto> [1]]) ''c'' = Inr cf"
    by (rule Load_fresh [OF _ _ _ cf(2), of _ "[1]"]) simp_all
  then have "LoadAndDecrypt demo_prims (\<lambda>_. Inr cf) ([''c'' \<mapsto> [1]]) ''c'' [1] = Inr (Some (replicate 32 9), cf)"
    using cf(1) by (simp add: LoadAndDecrypt_def)
  then show ?thesis by blast
qed

text \<open>
  C26: when the configuration can be fetched and unlocked, \<^verbatim>\<open>Init\<close> returns a tree that satisfies
  the invariant of all the methods, with an empty cache, ready for any server; the temporary copy
  of the configuration is gone and the master key is not kept. The key must have 32
  bytes: otherwise, and in particular without a password, \<^verbatim>\<open>Init\<close> panics.
\<close>

theorem Init_mounts:
  assumes "crypto_lib P" and "fs_ReadFile A (Join [root, ''gocryptfs.conf'']) w = (Inr confBytes, w')"
    and "tmp_open T = Inr name" and "tmp_write_err T = None" and "tmp_close_err T = None"
    and "LoadAndDecrypt P unmarshal (lfs(name \<mapsto> confBytes)) name password = Inr (masterKey, conf)"
  shows "if \<exists>key. masterKey = Some key \<and> length key = 32
    then \<exists>t. FileTree_Init P unmarshal A T root password lfs w = Inr (Inr t, lfs(name := None), w') \<and>
      tree_inv S (\<lambda>_. True) root (ft_cCore t) t w' \<and> core_aead P (ft_cCore t) \<and> ft_masterKey t = None
    else panics (FileTree_Init P unmarshal A T root password lfs w)"
proof -
  let ?key = "case masterKey of None \<Rightarrow> [] | Some k \<Rightarrow> k"
  have init: "FileTree_Init P unmarshal A T root password lfs w =
      (case tree_New P root ?key conf of Inl f \<Rightarrow> Inl f | Inr t \<Rightarrow> Inr (Inr t, lfs(name := None), w'))"
    using assms(2-6) by (simp add: FileTree_Init_def)
  show ?thesis
  proof (cases "\<exists>key. masterKey = Some key \<and> length key = 32")
    case True
    then have "length ?key = KeyLen"
      by (auto simp: KeyLen_def)
    then obtain t where t: "tree_New P root ?key conf = Inr t" "tree_inv S (\<lambda>_. True) root (ft_cCore t) t w'"
      "core_aead P (ft_cCore t)" "ft_masterKey t = None"
      by (rule tree_New_ok [OF assms(1)])
    then show ?thesis
      using True init by auto
  next
    case False
    then have "length ?key \<noteq> KeyLen"
      by (auto simp: KeyLen_def split: option.splits)
    then show ?thesis
      using False init by (simp add: tree_New_def CryptoCore_New_def)
  qed
qed

theorem Init_mounts_witness:
  "\<exists>cf t. FileTree_Init demo_prims (\<lambda>_. Inr cf) ((demo_access nil_slice)\<lparr>fs_ReadFile := (\<lambda>p w. (Inr [1], w))\<rparr>)
      \<lparr>tmp_open = Inr ''c'', tmp_write_err = None, tmp_close_err = None\<rparr> ''/c'' [1] Map.empty () = Inr (Inr t, Map.empty, ()) \<and>
    tree_ok t"
proof -
  obtain cf where "LoadAndDecrypt demo_prims (\<lambda>_. Inr cf) ([''c'' \<mapsto> [1]]) ''c'' [1] = Inr (Some (replicate 32 9), cf)"
    using demo_unlocks by blast
  from Init_mounts [OF demo_lib.crypto_lib_axioms _ _ _ _ this, where S = "demo_store nil_slice" and root = "''/c''" and w = "()" and w' = "()"
      and A = "(demo_access nil_slice)\<lparr>fs_ReadFile := (\<lambda>p w. (Inr [1], w))\<rparr>"
      and T = "\<lparr>tmp_open = Inr ''c'', tmp_write_err = None, tmp_close_err = None\<rparr>"]
  show ?thesis by (auto simp: tree_inv_def)
qed

end
