(* ===== verification/Handlers.thy ===== *)
theory Handlers
  imports FileTreeSpec
begin

text \<open>
  \<^verbatim>\<open>handlers/decrypt.go\<close> and \<^verbatim>\<open>handlers/proxy.go\<close>: the callbacks of the SFTP server on a
  decrypted tree, the reference callbacks that pass requests on to a client of the real server, and
  the paging of listings. A missing interface value (\<^verbatim>\<open>nil\<close>) is \<open>None\<close>. The client of the real
  server is an argument.
\<close>

section \<open>Requests and listings\<close>

record Request =
  req_Method :: string
  req_Filepath :: string
  req_Target :: string

text \<open>
  \<^verbatim>\<open>listerat.ListAt\<close>: the entries copied into a slice of length \<open>n\<close> from \<open>offset\<close> on, their
  number and the error.
\<close>

definition ListAt :: "FileInfo list \<Rightarrow> nat \<Rightarrow> int \<Rightarrow> (FileInfo list \<times> nat \<times> goerr option) result" where
  "ListAt f n offset =
     (if offset \<ge> int (length f) then Inr ([], 0, Some IoEOF)
      else if offset < 0 then Inl (Panic SliceOutOfRange)
      else let copied = take n (drop (nat offset) f) in
        Inr (copied, length copied, if length copied < n then Some IoEOF else None))"

section \<open>The decrypting handlers\<close>

definition decrypt_Fileread :: "prims \<Rightarrow> 'w FSAccess \<Rightarrow> Request \<Rightarrow> (bytes, 'w) tree_op" where
  "decrypt_Fileread P A req = FileTree_ReadFile P A (req_Filepath req)"

definition decrypt_Filewrite :: "Request \<Rightarrow> (unit, 'w) tree_op" where
  "decrypt_Filewrite req = terr (Errorf ''Writing not supported for path: %s'' [FStr (req_Filepath req)])"

definition Filecmd_error :: "Request \<Rightarrow> goerr option" where
  "Filecmd_error req =
     (let path = FStr (req_Filepath req); target = FStr (req_Target req) in
      if req_Method req = ''Setstat'' then Some (Errorf ''Setstat not supported. path: %s'' [path])
      else if req_Method req = ''Rename'' then Some (Errorf ''Renaming not supported. path: %s, target: %s'' [path, target])
      else if req_Method req = ''Rmdir'' \<or> req_Method req = ''Remove''
      then Some (Errorf ''Removing not supported. path: %s'' [path])
      else if req_Method req = ''Mkdir'' then Some (Errorf ''Mkdir not supported. path: %s'' [path])
      else if req_Method req = ''Symlink'' then Some (Errorf ''Symlink not supported. path: %s, target %s'' [path, target])
      else None)"

definition decrypt_Filecmd :: "Request \<Rightarrow> (unit, 'w) tree_op" where
  "decrypt_Filecmd req = (case Filecmd_error req of None \<Rightarrow> tret () | Some e \<Rightarrow> terr e)"

definition decrypt_Filelist :: "'w FSAccess \<Rightarrow> Request \<Rightarrow> (FileInfo list option, 'w) tree_op" where
  "decrypt_Filelist A req =
     (if req_Method req = ''List'' then tbind (FileTree_ReadDir A (req_Filepath req)) id (\<lambda>l. tret (Some l))
      else if req_Method req = ''Stat'' then tbind (FileTree_Stat A (req_Filepath req)) id (\<lambda>i. tret (Some [i]))
      else if req_Method req = ''Readlink''
      then terr (Errorf ''ReadLink not supported. path: %s'' [FStr (req_Filepath req)])
      else tret None)"

text \<open>\<^verbatim>\<open>DecryptHandler\<close> only sets up the tree.\<close>

definition DecryptHandler ::
    "prims \<Rightarrow> (bytes \<Rightarrow> goerr + ConfFile) \<Rightarrow> 'w FSAccess \<Rightarrow> tmp_env \<Rightarrow> string \<Rightarrow> bytes \<Rightarrow> localfs \<Rightarrow> 'w \<Rightarrow>
     ((goerr + FileTree) \<times> localfs \<times> 'w) result" where
  "DecryptHandler P unmarshal A T root password lfs w = FileTree_Init P unmarshal A T root password lfs w"

section \<open>The reference handlers\<close>

record client =
  cl_Open_WriteTo :: "string \<Rightarrow> goerr + bytes"
  cl_ReadDir :: "string \<Rightarrow> goerr + FileInfo list"
  cl_Stat :: "string \<Rightarrow> goerr + FileInfo"
  cl_ReadLink :: "string \<Rightarrow> goerr + string"

definition proxy_Fileread :: "client \<Rightarrow> Request \<Rightarrow> goerr + bytes" where
  "proxy_Fileread C req = cl_Open_WriteTo C (req_Filepath req)"

definition proxy_Filewrite :: "client \<Rightarrow> Request \<Rightarrow> goerr + unit" where
  "proxy_Filewrite C req = Inl (Errorf ''Writing not supported for path: %s'' [FStr (req_Filepath req)])"

definition proxy_Filecmd :: "client \<Rightarrow> Request \<Rightarrow> goerr option" where
  "proxy_Filecmd C req = Filecmd_error req"

definition proxy_Filelist :: "client \<Rightarrow> Request \<Rightarrow> goerr + FileInfo list option" where
  "proxy_Filelist C req =
     (if req_Method req = ''List'' then map_sum id Some (cl_ReadDir C (req_Filepath req))
      else if req_Method req = ''Stat'' then map_sum id (\<lambda>i. Some [i]) (cl_Stat C (req_Filepath req))
      else if req_Method req = ''Readlink''
      then (case cl_ReadLink C (req_Filepath req) of
              Inl e \<Rightarrow> Inl e
            | Inr target \<Rightarrow> map_sum id (\<lambda>i. Some [i]) (cl_Stat C target))
      else Inr None)"

section \<open>Paging\<close>

text \<open>
  A reader of a listing asks for pages of \<open>n\<close> entries, each at the offset behind the previous one,
  until it gets an error; the depth bounds the number of pages.
\<close>

fun list_pages :: "nat \<Rightarrow> FileInfo list \<Rightarrow> nat \<Rightarrow> nat \<Rightarrow> (FileInfo list \<times> goerr) result" where
  "list_pages 0 f n offset = Inl Hang"
| "list_pages (Suc k) f n offset =
     (case ListAt f n (int offset) of
        Inl x \<Rightarrow> Inl x
      | Inr (page, m, Some e) \<Rightarrow> Inr (page, e)
      | Inr (page, m, None) \<Rightarrow>
          (case list_pages k f n (offset + m) of
             Inl x \<Rightarrow> Inl x
           | Inr (rest, e) \<Rightarrow> Inr (page @ rest, e)))"

lemma ListAt_nat:
  "ListAt f n (int offset) =
     (if offset \<ge> length f then Inr ([], 0, Some IoEOF)
      else Inr (take n (drop offset f), min n (length f - offset), if length f - offset < n then Some IoEOF else None))"
  by (auto simp: ListAt_def Let_def)

lemma list_pages_all: "0 < n \<Longrightarrow> length f - offset < k \<Longrightarrow> list_pages k f n offset = Inr (drop offset f, IoEOF)"
proof (induction k arbitrary: offset)
  case (Suc k)
  show ?case
  proof (cases "length f \<le> offset \<or> length f - offset < n")
    case True
    then show ?thesis by (auto simp: ListAt_nat)
  next
    case False
    then have "list_pages k f n (offset + n) = Inr (drop (offset + n) f, IoEOF)"
      using Suc by (intro Suc.IH) auto
    moreover have "drop offset f = take n (drop offset f) @ drop (offset + n) f"
      by (metis append_take_drop_id drop_drop add.commute)
    ultimately show ?thesis
      using False by (simp add: ListAt_nat min_def)
  qed
qed simp

text \<open>
  C36: paging through a listing is lossless and ends: with any page size above zero, reading
  page after page until \<^verbatim>\<open>io.EOF\<close> yields every entry exactly once and in order, after at most
  as many pages as entries and one more.
\<close>

theorem ListAt_pages:
  assumes "0 < n"
  shows "list_pages (Suc (length f)) f n 0 = Inr (f, IoEOF)"
  using list_pages_all [OF assms, of f 0 "Suc (length f)"] by (simp del: list_pages.simps)

theorem ListAt_pages_witness:
  "list_pages 4 [demo_file ''a'' False, demo_file ''b'' True, demo_file ''c'' False] 2 0 =
     Inr ([demo_file ''a'' False, demo_file ''b'' True, demo_file ''c'' False], IoEOF)"
  using ListAt_pages [of 2 "[demo_file ''a'' False, demo_file ''b'' True, demo_file ''c'' False]"]
  by (simp add: numeral_eq_Suc del: list_pages.simps)

text \<open>
  The served tree is read-only: no request changes it, neither a write nor any command,
  each of the known commands is refused with an error that names the path, and both sets of
  handlers agree on what they refuse.
\<close>

lemma handlers_read_only:
  "(\<exists>e. decrypt_Filewrite req t w = Inr (Inl e, t, w)) \<and>
   (\<exists>r. decrypt_Filecmd req t w = Inr (r, t, w) \<and>
      ((\<exists>e. r = Inl e) \<longleftrightarrow> req_Method req \<in> {''Setstat'', ''Rename'', ''Rmdir'', ''Remove'', ''Mkdir'', ''Symlink''}) \<and>
      (r = (case proxy_Filecmd C req of None \<Rightarrow> Inr () | Some e \<Rightarrow> Inl e)))"
  by (auto simp: decrypt_Filewrite_def decrypt_Filecmd_def proxy_Filecmd_def Filecmd_error_def terr_def tret_def Let_def)

end
