(* ===== verification/Config.thy ===== *)
theory Config
  imports Gc_Prelude
begin

text \<open>
  \<^verbatim>\<open>config/config.go\<close>: the program's configuration and the loading of the SSH key, which may be
  protected by a passphrase. The JSON and PEM decoders, the key parsers, the file system and the
  terminal are arguments; the terminal has a state. So is the struct validator, which gets the fields
  with their tags.
\<close>

record RemoteConfig =
  Addr :: string
  FileRoot :: string
  User :: string
  PrivateKeyPath :: string

record Config =
  ProxyUser :: string
  ProxyPassword :: string
  KnownHostsPath :: string
  Remote :: RemoteConfig

definition LoadConfig :: "(string \<Rightarrow> goerr + bytes) \<Rightarrow> (bytes \<Rightarrow> goerr + Config) \<Rightarrow> string \<Rightarrow> goerr + Config" where
  "LoadConfig read_file unmarshal path =
     (case read_file path of
        Inl err \<Rightarrow> Inl err
      | Inr configBytes \<Rightarrow> unmarshal configBytes)"

text \<open>
  \<^verbatim>\<open>Validate\<close>, which nothing calls: the fields of the structs, their values and their \<^verbatim>\<open>validate\<close> tags
  go to the validation library.
\<close>

definition validate_tags :: "Config \<Rightarrow> (string \<times> string \<times> string list) list" where
  "validate_tags c =
     [(''ProxyUser'', ProxyUser c, [''required'']), (''ProxyPassword'', ProxyPassword c, [''required'']),
      (''KnownHostsPath'', KnownHostsPath c, [''required'', ''file'']), (''Remote.Addr'', Addr (Remote c), [''required'']),
      (''Remote.FileRoot'', FileRoot (Remote c), [''required'']), (''Remote.User'', User (Remote c), [''required'']),
      (''Remote.PrivateKeyPath'', PrivateKeyPath (Remote c), [''required'', ''file''])]"

definition Validate :: "((string \<times> string \<times> string list) list \<Rightarrow> goerr option) \<Rightarrow> Config \<Rightarrow> goerr option" where
  "Validate validate c = validate (validate_tags c)"

text \<open>The library's view of a key: its PEM block, if it has one, and the two parsers.\<close>

record ('b, 's) keylib =
  pem_Decode :: "bytes \<Rightarrow> 'b option"
  IsEncryptedPEMBlock :: "'b \<Rightarrow> bool"
  ParsePrivateKey :: "bytes \<Rightarrow> goerr + 's"
  ParsePrivateKeyWithPassphrase :: "bytes \<Rightarrow> bytes \<Rightarrow> goerr + 's"

text \<open>The library looks into the block without checking that there is one.\<close>

definition isPrivateKeyEncrypted :: "('b, 's) keylib \<Rightarrow> bytes \<Rightarrow> bool result" where
  "isPrivateKeyEncrypted L key =
     (case pem_Decode L key of
        None \<Rightarrow> Inl (Panic NilDeref)
      | Some block \<Rightarrow> Inr (IsEncryptedPEMBlock L block))"

text \<open>The terminal: a prompt is answered with a passphrase or an error.\<close>

type_synonym 'w reader = "string \<Rightarrow> 'w \<Rightarrow> (goerr + bytes) \<times> 'w"

text \<open>
  \<^verbatim>\<open>stdinPasswordReader\<close>: the prompt, the library's reading without echo, and a line end, with the
  texts written so far as part of the state.
\<close>

definition stdin_ReadPassword :: "('w \<Rightarrow> (goerr + bytes) \<times> 'w) \<Rightarrow> (string list \<times> 'w) reader" where
  "stdin_ReadPassword read_tty prompt s =
     (case s of (out, w) \<Rightarrow> (case read_tty w of (r, w') \<Rightarrow> (r, (out @ [prompt, [CHR 0x0A]], w'))))"

fun key_attempts :: "('b, 's) keylib \<Rightarrow> 'w reader \<Rightarrow> string \<Rightarrow> bytes \<Rightarrow> nat \<Rightarrow> 'w \<Rightarrow> (goerr + 's) \<times> 'w" where
  "key_attempts L pwReader prompt privateBytes 0 w = (Inl IncorrectPasswordError, w)"
| "key_attempts L pwReader prompt privateBytes (Suc n) w =
     (case pwReader prompt w of
        (Inl err, w') \<Rightarrow> (Inl err, w')
      | (Inr passphrase, w') \<Rightarrow>
          (case ParsePrivateKeyWithPassphrase L privateBytes passphrase of
             Inr signer \<Rightarrow> (Inr signer, w')
           | Inl err \<Rightarrow>
               if err \<noteq> IncorrectPasswordError then (Inl err, w')
               else key_attempts L pwReader prompt privateBytes n w'))"

definition LoadSSHKey ::
    "('b, 's) keylib \<Rightarrow> (string \<Rightarrow> goerr + bytes) \<Rightarrow> 'w reader \<Rightarrow> Config \<Rightarrow> 'w \<Rightarrow> ((goerr + 's) \<times> 'w) result" where
  "LoadSSHKey L read_file pwReader c w =
     (let path = PrivateKeyPath (Remote c) in
      case read_file path of
        Inl err \<Rightarrow> Inr (Inl (Errorf ''failed to load private key: %s'' [FErr err]), w)
      | Inr privateBytes \<Rightarrow>
      case isPrivateKeyEncrypted L privateBytes of
        Inl f \<Rightarrow> Inl f
      | Inr encrypted \<Rightarrow>
          if encrypted
          then Inr (key_attempts L pwReader (''Enter passphrase for key '' @ [CHR 0x27] @ path @ [CHR 0x27] @ '': '') privateBytes 3 w)
          else Inr (ParsePrivateKey L privateBytes, w))"

definition GetDecrpytionPassphrase :: "'w reader \<Rightarrow> Config \<Rightarrow> 'w \<Rightarrow> (goerr + bytes) \<times> 'w" where
  "GetDecrpytionPassphrase pwReader c w =
     pwReader (''Enter passphrase for gocryptfs root at '' @ [CHR 0x27] @ FileRoot (Remote c) @ [CHR 0x27] @ '': '') w"

section \<open>Attempts\<close>

text \<open>
  The outcome of the answer to a prompt: an error of the terminal, a signer or a decisive parser
  error end the loop; a wrong passphrase does not.
\<close>

definition attempt_outcome :: "('b, 's) keylib \<Rightarrow> bytes \<Rightarrow> goerr + bytes \<Rightarrow> (goerr + 's) option" where
  "attempt_outcome L key answer =
     (case answer of
        Inl err \<Rightarrow> Some (Inl err)
      | Inr passphrase \<Rightarrow>
          (case ParsePrivateKeyWithPassphrase L key passphrase of
             Inr signer \<Rightarrow> Some (Inr signer)
           | Inl err \<Rightarrow> if err = IncorrectPasswordError then None else Some (Inl err)))"

text \<open>A terminal that gives the answers of a list one after the other.\<close>

definition scripted :: "(goerr + bytes) list reader" where
  "scripted prompt w = (case w of [] \<Rightarrow> (Inl IoEOF, []) | a # w' \<Rightarrow> (a, w'))"

lemma key_attempts_scripted:
  "n \<le> length as \<Longrightarrow> key_attempts L scripted prompt key n as =
     (let k = length (takeWhile (\<lambda>a. attempt_outcome L key a = None) (take n as)) in
      if k < n then (the (attempt_outcome L key (as ! k)), drop (Suc k) as)
      else (Inl IncorrectPasswordError, drop n as))"
proof (induction n arbitrary: as)
  case (Suc n)
  then obtain a as' where as: "as = a # as'" "n \<le> length as'"
    by (cases as) auto
  show ?case
    using Suc.IH [OF as(2)] by (auto simp: as(1) scripted_def attempt_outcome_def Let_def split: sum.splits)
qed simp

text \<open>
  C37: an encrypted key is tried with at most three passphrases: the first answer that is an error of
  the terminal, the right passphrase, or a passphrase the parser rejects for another reason decides
  and no further answer is read; after three wrong passphrases the error is that the password
  is incorrect.
\<close>

theorem LoadSSHKey_attempts:
  assumes "read_file (PrivateKeyPath (Remote c)) = Inr key" and "pem_Decode L key = Some block" and "IsEncryptedPEMBlock L block"
    and "3 \<le> length answers"
  shows "LoadSSHKey L read_file scripted c answers =
    (let k = length (takeWhile (\<lambda>a. attempt_outcome L key a = None) (take 3 answers)) in
     Inr (if k < 3 then (the (attempt_outcome L key (answers ! k)), drop (Suc k) answers)
          else (Inl IncorrectPasswordError, drop 3 answers)))"
  using assms key_attempts_scripted [OF assms(4), of L _ key] by (simp add: LoadSSHKey_def isPrivateKeyEncrypted_def Let_def)

definition demo_keylib :: "(unit, bytes) keylib" where
  "demo_keylib = \<lparr>pem_Decode = (\<lambda>_. Some ()), IsEncryptedPEMBlock = (\<lambda>_. True), ParsePrivateKey = (\<lambda>k. Inr k),
     ParsePrivateKeyWithPassphrase = (\<lambda>k p. if p = [1] then Inr k else Inl IncorrectPasswordError)\<rparr>"

theorem LoadSSHKey_attempts_witness:
  "LoadSSHKey demo_keylib (\<lambda>_. Inr [9]) scripted
     \<lparr>ProxyUser = [], ProxyPassword = [], KnownHostsPath = [], Remote = \<lparr>Addr = [], FileRoot = [], User = [], PrivateKeyPath = ''k''\<rparr>\<rparr>
     [Inr [0], Inr [1], Inr [2]] = Inr (Inr [9], [Inr [2]])"
  using LoadSSHKey_attempts [of "\<lambda>_. Inr [9]" _ "[9]" demo_keylib "()" "[Inr [0], Inr [1], Inr [2]]"]
  by (simp add: demo_keylib_def attempt_outcome_def)

end
