(* ===== verification/Server.thy ===== *)
theory Server
  imports Handlers Config
begin

text \<open>
  \<^verbatim>\<open>main.go\<close>: the start of the server, the authentication of its clients and the treatment of
  their channels. The SSH library, the listener and the SFTP request server are arguments, as far as
  the code looks at what they return.
\<close>

section \<open>Authentication\<close>


section \<open>Channels\<close>

record ssh_request =
  sr_Type :: string
  sr_Payload :: bytes

text \<open>The goroutine that answers a session's requests: the replies, or the panic.\<close>

fun serve_requests :: "ssh_request list \<Rightarrow> bool list result" where
  "serve_requests [] = Inr []"
| "serve_requests (req # rest) =
     (case (if sr_Type req = ''subsystem''
            then if length (sr_Payload req) < 4 then Inl (Panic SliceOutOfRange)
                 else Inr (of_bytes (drop 4 (sr_Payload req)) = ''sftp'')
            else Inr False) of
        Inl f \<Rightarrow> Inl f
      | Inr ok \<Rightarrow>
          (case serve_requests rest of
             Inl f \<Rightarrow> Inl f
           | Inr oks \<Rightarrow> Inr (ok # oks)))"

datatype channel_end = ChanRejected | ChanNotAccepted goerr | ChanServed "bool list" bool

text \<open>
  The type of the channel, the result of accepting it, its requests, and the error with which the
  SFTP server ends; on \<^verbatim>\<open>io.EOF\<close> it is closed. A panic in the goroutine ends the process.
\<close>

definition handleChannel ::
    "string \<Rightarrow> goerr option \<Rightarrow> ssh_request list \<Rightarrow> goerr option \<Rightarrow> channel_end result" where
  "handleChannel channelType accept reqs serve =
     (if channelType \<noteq> ''session'' then Inr ChanRejected
      else case accept of
          Some err \<Rightarrow> Inr (ChanNotAccepted err)
        | None \<Rightarrow>
            (case serve_requests reqs of
               Inl f \<Rightarrow> Inl f
             | Inr oks \<Rightarrow> Inr (ChanServed oks (serve = Some IoEOF))))"



section \<open>The accept loop\<close>





section \<open>Start\<close>

text \<open>Every error on the way to the accept loop is a \<^verbatim>\<open>log.Fatal\<close>, exit code 1.\<close>

record ('b, 's, 'u) main_env =
  me_read_file :: "string \<Rightarrow> goerr + bytes"
  me_unmarshal :: "bytes \<Rightarrow> goerr + Config"
  me_keys :: "('b, 's) keylib"
  me_reader :: "'u reader"
  me_known_hosts :: "string \<Rightarrow> goerr option"
  me_listen :: "goerr option"

definition main_init ::
    "('b, 's, 'u) main_env \<Rightarrow> prims \<Rightarrow> (bytes \<Rightarrow> goerr + ConfFile) \<Rightarrow> 'w FSAccess \<Rightarrow> tmp_env \<Rightarrow> string \<Rightarrow> localfs \<Rightarrow> 'u \<Rightarrow> 'w \<Rightarrow>
     (Config \<times> FileTree \<times> localfs \<times> 'w) result" where
  "main_init M P unmarshal A T configPath lfs u w =
     (case LoadConfig (me_read_file M) (me_unmarshal M) configPath of
        Inl err \<Rightarrow> Inl (OsExit 1)
      | Inr cfg \<Rightarrow>
      case LoadSSHKey (me_keys M) (me_read_file M) (me_reader M) cfg u of
        Inl f \<Rightarrow> Inl f
      | Inr (Inl err, _) \<Rightarrow> Inl (OsExit 1)
      | Inr (Inr private, u1) \<Rightarrow>
      case me_known_hosts M (KnownHostsPath cfg) of
        Some err \<Rightarrow> Inl (OsExit 1)
      | None \<Rightarrow>
      case GetDecrpytionPassphrase (me_reader M) cfg u1 of
        (Inl err, _) \<Rightarrow> Inl (OsExit 1)
      | (Inr decryptPass, _) \<Rightarrow>
      case DecryptHandler P unmarshal A T (FileRoot (Remote cfg)) decryptPass lfs w of
        Inl f \<Rightarrow> Inl f
      | Inr (Inl err, _) \<Rightarrow> Inl (OsExit 1)
      | Inr (Inr t, lfs', w') \<Rightarrow>
      case me_listen M of
        Some err \<Rightarrow> Inl (OsExit 1)
      | None \<Rightarrow> Inr (cfg, t, lfs', w'))"

section \<open>Properties of channels\<close>

lemma serve_requests_cases:
  "serve_requests reqs =
     (if \<exists>req \<in> set reqs. sr_Type req = ''subsystem'' \<and> length (sr_Payload req) < 4 then Inl (Panic SliceOutOfRange)
      else Inr (map (\<lambda>req. sr_Type req = ''subsystem'' \<and> of_bytes (drop 4 (sr_Payload req)) = ''sftp'') reqs))"
  by (induction reqs) auto

text \<open>
  A session offers nothing but the SFTP subsystem: every request is refused except a subsystem
  request for it, and other channel types are rejected. But a subsystem request with a payload of
  fewer than four bytes, which any authenticated client can send, panics and ends the whole server.
\<close>

lemma handleChannel_outcome:
  "handleChannel channelType accept reqs serve =
     (if channelType \<noteq> ''session'' then Inr ChanRejected
      else case accept of
          Some err \<Rightarrow> Inr (ChanNotAccepted err)
        | None \<Rightarrow>
            if \<exists>req \<in> set reqs. sr_Type req = ''subsystem'' \<and> length (sr_Payload req) < 4
            then Inl (Panic SliceOutOfRange)
            else Inr (ChanServed (map (\<lambda>req. sr_Type req = ''subsystem'' \<and> of_bytes (drop 4 (sr_Payload req)) = ''sftp'') reqs)
                   (serve = Some IoEOF)))"
proof (cases "\<exists>req \<in> set reqs. sr_Type req = ''subsystem'' \<and> length (sr_Payload req) < 4")
  case True
  show ?thesis
    unfolding handleChannel_def serve_requests_cases if_P [OF True] sum.case ..
next
  case False
  show ?thesis
    unfolding handleChannel_def serve_requests_cases if_not_P [OF False] sum.case ..
qed

lemma handleChannel_outcome_witness:
  "handleChannel ''session'' None [\<lparr>sr_Type = ''shell'', sr_Payload = []\<rparr>, \<lparr>sr_Type = ''subsystem'', sr_Payload = [0, 0]\<rparr>] None =
     Inl (Panic SliceOutOfRange)"
  unfolding handleChannel_outcome by simp

section \<open>Properties of connections\<close>










end
