(* ===== verification/ServedTree.thy ===== *)
theory ServedTree
  imports Server
begin

text \<open>
  The server's handlers over a whole session: any sequence of requests on the tree that the start
  of the program set up, one after the other.
\<close>

section \<open>Keeping the invariant\<close>

definition keeps :: "(FileTree \<Rightarrow> 'w \<Rightarrow> bool) \<Rightarrow> ('a, 'w) tree_op \<Rightarrow> bool" where
  "keeps J m \<longleftrightarrow> (\<forall>t w r t' w'. J t w \<longrightarrow> m t w = Inr (r, t', w') \<longrightarrow> J t' w')"

lemma keepsD: "keeps J m \<Longrightarrow> J t w \<Longrightarrow> m t w = Inr (r, t', w') \<Longrightarrow> J t' w'"
  by (simp add: keeps_def)

lemma keeps_simps [simp]: "keeps J (tret a)" "keeps J (terr e)"
  by (simp_all add: keeps_def tret_def terr_def)

lemma yields_keeps: "yields J m r \<Longrightarrow> keeps J m"
  unfolding yields_def keeps_def by fastforce

text \<open>After an operation whose result is known, only the continuation for that result matters.\<close>

lemma keeps_bind:
  assumes "yields J m r" "\<And>a. r = Inr a \<Longrightarrow> keeps J (k a)"
  shows "keeps J (tbind m wrap k)"
  unfolding keeps_def
proof (intro allI impI)
  fix t w q t'' w''
  assume J: "J t w" and run: "tbind m wrap k t w = Inr (q, t'', w'')"
  from J obtain t' w' where m: "m t w = Inr (r, t', w')" "J t' w'"
    using yieldsD [OF assms(1)] by blast
  show "J t'' w''"
    using run m keepsD [OF assms(2) m(2)] by (cases r) (auto simp: tbind_def)
qed

definition small_files :: "store \<Rightarrow> bool" where
  "small_files S \<longleftrightarrow> (\<forall>p f. st_ReadFile S p = Inr f \<longrightarrow> length (sdata f) < 2 ^ 62)"

lemma keeps_decryptFile:
  assumes "core_aead P cc" "length (sdata f) < 2 ^ 62"
  shows "keeps (tree_inv S I root cc) (tbind (tree_decryptFile P f) wrap tret)"
  unfolding keeps_def
proof (intro allI impI)
  fix t w r t' w'
  assume J: "tree_inv S I root cc t w" and run: "tbind (tree_decryptFile P f) wrap tret t w = Inr (r, t', w')"
  then have "tree_enc cc (ft_cEnc t)"
    by (auto simp: tree_inv_def tree_ok_def)
  from decryptFile_cases [OF this assms]
  consider "decryptFile P (ft_cEnc t) f = Inl (Panic IndexOutOfRange)"
    | q be' where "decryptFile P (ft_cEnc t) f = Inr (q, be')" "tree_enc cc be'"
    by (auto split: if_splits)
  then show "tree_inv S I root cc t' w'"
    using J run by cases (auto simp: tbind_def tree_decryptFile_def tret_def tree_inv_def tree_ok_def split: sum.splits)
qed

lemma is_abs_Clean: "is_abs p \<Longrightarrow> is_abs (Clean p)"
  by (simp add: Clean_abs)

lemma is_abs_Dir_Clean: "is_abs p \<Longrightarrow> Clean p \<noteq> ''/'' \<Longrightarrow> is_abs (Dir (Clean p))"
  using canonical_path_comps [of p]
  by (cases "path_comps p" rule: rev_cases) (auto simp: Clean_abs Dir_abs_path abs_path_root)

lemma keeps_ReadFile:
  assumes "serves A I S" "calm S root" "core_aead P cc" "small_files S" "is_abs p"
  shows "keeps (tree_inv S I root cc) (FileTree_ReadFile P A p)"
proof (cases "Clean p = ''/''")
  case True
  then show ?thesis by (simp add: FileTree_ReadFile_def)
next
  case False
  have "keeps (tree_inv S I root cc) (tbind (tcall (req_ReadFile A q)) wrap (\<lambda>f. tbind (tree_decryptFile P f) wrap' tret))" for q wrap wrap'
    by (rule keeps_bind [OF yields_calls(1) [OF assms(1)]]) (use assms(3,4) in \<open>auto simp: small_files_def intro: keeps_decryptFile\<close>)
  then have "keeps (tree_inv S I root cc) (if fi_isdir i then terr e else
      tbind (tcall (req_ReadFile A q)) wrap (\<lambda>f. tbind (tree_decryptFile P f) wrap' tret))" for i e q wrap wrap'
    by simp
  then show ?thesis
    unfolding FileTree_ReadFile_def Let_def if_not_P [OF False]
    by (intro keeps_bind [OF yields_findPath [OF assms(1,2) is_abs_Dir_Clean [OF assms(5) False]]]
        keeps_bind [OF yields_findInDir [OF assms(1) calmD [OF assms(2)]]])
qed

lemma keeps_ReadDir:
  assumes "serves A I S" "calm S root" "is_abs p"
  shows "keeps (tree_inv S I root cc) (FileTree_ReadDir A p)"
proof -
  have "yields (tree_inv S I root cc) (range_loop A list_fn iv l []) (Inr ([] @ plain_listing S cc iv l))"
    if "walk S root cs = Inr d" "dir_entries S d = Inr (iv, l)" for cs d iv l
    by (rule yields_range_list [OF assms(1)]) (use calmD [OF assms(2) that(1)] that(2) in \<open>simp add: calm_dir_def\<close>)
  note list = this
  show ?thesis
    unfolding FileTree_ReadDir_def Let_def
    by (intro keeps_bind [OF yields_findPath [OF assms(1,2) is_abs_Clean [OF assms(3)]]]
        keeps_bind [OF yields_rangeInDir [OF assms(1) list]] keeps_simps)
qed

lemma keeps_Stat:
  assumes "serves A I S" "calm S root" "is_abs p"
  shows "keeps (tree_inv S I root cc) (FileTree_Stat A p)"
proof -
  have "keeps (tree_inv S I root cc) (\<lambda>t w. case plain_size t i of Inl f \<Rightarrow> Inl f | Inr sz \<Rightarrow> Inr (Inr (plainFileInfo i n sz), t, w))" for i n
    by (auto simp: keeps_def split: sum.splits)
  then show ?thesis
    unfolding FileTree_Stat_def Let_def
    by (intro keeps_bind [OF yields_findPath [OF assms(1,2) is_abs_Clean [OF assms(3)]]] keeps_bind [OF yields_calls(3) [OF assms(1)]])
qed

section \<open>Sessions\<close>

text \<open>The requests that reach the handlers; the SFTP library makes their paths absolute.\<close>

datatype sftp_op = OpGet Request | OpPut Request | OpCmd Request | OpList Request

fun op_request :: "sftp_op \<Rightarrow> Request" where
  "op_request (OpGet r) = r" | "op_request (OpPut r) = r" | "op_request (OpCmd r) = r" | "op_request (OpList r) = r"

fun handle_op :: "prims \<Rightarrow> 'w FSAccess \<Rightarrow> sftp_op \<Rightarrow> FileTree \<Rightarrow> 'w \<Rightarrow> (FileTree \<times> 'w) result" where
  "handle_op P A (OpGet r) t w = map_sum id snd (decrypt_Fileread P A r t w)"
| "handle_op P A (OpPut r) t w = map_sum id snd (decrypt_Filewrite r t w)"
| "handle_op P A (OpCmd r) t w = map_sum id snd (decrypt_Filecmd r t w)"
| "handle_op P A (OpList r) t w = map_sum id snd (decrypt_Filelist A r t w)"

fun session :: "prims \<Rightarrow> 'w FSAccess \<Rightarrow> sftp_op list \<Rightarrow> FileTree \<Rightarrow> 'w \<Rightarrow> (FileTree \<times> 'w) result" where
  "session P A [] t w = Inr (t, w)"
| "session P A (r # rs) t w = (case handle_op P A r t w of Inl f \<Rightarrow> Inl f | Inr (t', w') \<Rightarrow> session P A rs t' w')"

lemma keeps_Filelist:
  assumes "serves A I S" "calm S root" "is_abs (req_Filepath r)"
  shows "keeps (tree_inv S I root cc) (decrypt_Filelist A r)"
proof -
  have bind: "keeps J (tbind m id (\<lambda>l. tret (g l)))" if "keeps J m" for J and m :: "('x, 'w) tree_op" and g :: "'x \<Rightarrow> 'y"
    using that unfolding keeps_def tbind_def tret_def by (fastforce split: sum.splits)
  show ?thesis
    using keeps_ReadDir [OF assms] keeps_Stat [OF assms] by (simp add: decrypt_Filelist_def bind)
qed

lemma handle_op_inv:
  assumes "serves A I S" "calm S root" "core_aead P cc" "small_files S" "is_abs (req_Filepath (op_request r))"
    "tree_inv S I root cc t w" "handle_op P A r t w = Inr (t', w')"
  shows "tree_inv S I root cc t' w'"
proof (cases r)
  case (OpGet q)
  then show ?thesis
    using assms keepsD [OF keeps_ReadFile [OF assms(1-4)]] by (fastforce simp: decrypt_Fileread_def map_sum_def split: sum.splits)
next
  case (OpPut q)
  then show ?thesis
    using assms by (simp add: decrypt_Filewrite_def terr_def)
next
  case (OpCmd q)
  then show ?thesis
    using assms by (simp add: decrypt_Filecmd_def terr_def tret_def split: option.splits)
next
  case (OpList q)
  then show ?thesis
    using assms keepsD [OF keeps_Filelist [OF assms(1,2)]] by (fastforce simp: map_sum_def split: sum.splits)
qed

lemma session_inv:
  assumes "serves A I S" "calm S root" "core_aead P cc" "small_files S"
  shows "(\<forall>r \<in> set rs. is_abs (req_Filepath (op_request r))) \<Longrightarrow> tree_inv S I root cc t w \<Longrightarrow>
    session P A rs t w = Inr (t', w') \<Longrightarrow> tree_inv S I root cc t' w'"
proof (induction rs arbitrary: t w)
  case (Cons r rs)
  then obtain t1 w1 where h: "handle_op P A r t w = Inr (t1, w1)" "session P A rs t1 w1 = Inr (t', w')"
    by (auto split: sum.splits prod.splits)
  have "tree_inv S I root cc t1 w1"
    using handle_op_inv [OF assms _ Cons.prems(2) h(1)] Cons.prems(1) by simp
  with Cons.IH Cons.prems(1) h(2) show ?case by simp
qed simp

section \<open>The tree after the start\<close>

lemma tree_New_inv:
  assumes "crypto_lib P" "tree_New P root key conf = Inr t"
  shows "tree_inv S (\<lambda>_. True) root (ft_cCore t) t w \<and> core_aead P (ft_cCore t)"
proof -
  have "length key = KeyLen"
    using assms(2) by (auto simp: tree_New_def CryptoCore_New_def split: if_splits)
  then obtain t' where "tree_New P root key conf = Inr t'" "tree_inv S (\<lambda>_. True) root (ft_cCore t') t' w" "core_aead P (ft_cCore t')"
    by (rule tree_New_ok [OF assms(1)])
  then show ?thesis using assms(2) by simp
qed

lemma main_init_tree:
  assumes "crypto_lib P" "main_init M P unmarshal A T configPath lfs u w = Inr (cfg, t, lfs', w')"
  shows "tree_inv S (\<lambda>_. True) (FileRoot (Remote cfg)) (ft_cCore t) t w' \<and> core_aead P (ft_cCore t)"
proof -
  obtain pass where "FileTree_Init P unmarshal A T (FileRoot (Remote cfg)) pass lfs w = Inr (Inr t, lfs', w')"
    using assms(2) by (auto simp: main_init_def DecryptHandler_def split: sum.splits prod.splits option.splits)
  then obtain key conf where "tree_New P (FileRoot (Remote cfg)) key conf = Inr t"
    by (auto simp: FileTree_Init_def split: sum.splits prod.splits option.splits fault.splits)
  then show ?thesis
    by (rule tree_New_inv [OF assms(1)])
qed

text \<open>The name transformer of a started server keeps the contract of EME.\<close>

lemma main_init_names:
  assumes "crypto_lib P" "main_init M P unmarshal A T configPath lfs u w = Inr (cfg, t, lfs', w')" "length iv = 16"
  shows "eme_ok (emeCipher (ft_nTransform t)) iv"
proof -
  obtain pass where "FileTree_Init P unmarshal A T (FileRoot (Remote cfg)) pass lfs w = Inr (Inr t, lfs', w')"
    using assms(2) by (auto simp: main_init_def DecryptHandler_def split: sum.splits prod.splits option.splits)
  then obtain key conf where "tree_New P (FileRoot (Remote cfg)) key conf = Inr t"
    by (auto simp: FileTree_Init_def split: sum.splits prod.splits option.splits fault.splits)
  then obtain e where "length key = KeyLen" "New_eme P key (IsFeatureFlagSet conf FlagHKDF) = Inr e" "emeCipher (ft_nTransform t) = e"
    by (auto simp: tree_New_def CryptoCore_New_def NameTransform_New_def Let_def split: if_splits sum.splits)
  then show ?thesis
    using crypto_lib.New_eme_names [OF assms(1)] assms(3) by blast
qed

section \<open>An example start\<close>

definition demo_cfg :: Config where
  "demo_cfg = \<lparr>ProxyUser = ''u'', ProxyPassword = ''p'', KnownHostsPath = ''h'',
     Remote = \<lparr>Addr = ''r'', FileRoot = ''/c'', User = ''u'', PrivateKeyPath = ''k''\<rparr>\<rparr>"

definition demo_main :: "(unit, bytes, unit) main_env" where
  "demo_main = \<lparr>me_read_file = (\<lambda>_. Inr [9]), me_unmarshal = (\<lambda>_. Inr demo_cfg),
     me_keys = demo_keylib\<lparr>IsEncryptedPEMBlock := (\<lambda>_. False)\<rparr>, me_reader = (\<lambda>_ u. (Inr [1], u)),
     me_known_hosts = (\<lambda>_. None), me_listen = None\<rparr>"

definition demo_tmp :: tmp_env where
  "demo_tmp = \<lparr>tmp_open = Inr ''c'', tmp_write_err = None, tmp_close_err = None\<rparr>"

definition demo_remote :: "gslice \<Rightarrow> unit FSAccess" where
  "demo_remote f = (demo_access f)\<lparr>fs_ReadFile := (\<lambda>p w. (Inr [1], w))\<rparr>"

lemma demo_remote_serves: "serves (demo_remote f) (\<lambda>_. True) (demo_store f)"
  by (simp add: serves_def demo_remote_def demo_access_def demo_store_def)

text \<open>The start reads only the configuration file.\<close>

lemma demo_starts_on:
  obtains cf t where "\<And>A. (\<And>p. fs_ReadFile A p () = (Inr [1], ())) \<Longrightarrow>
      main_init demo_main demo_prims (\<lambda>_. Inr cf) A demo_tmp ''conf'' Map.empty () () = Inr (demo_cfg, t, Map.empty, ())"
    "tree_enc (ft_cCore t) (ft_cEnc t)"
proof -
  obtain cf where cf: "LoadAndDecrypt demo_prims (\<lambda>_. Inr cf) ([''c'' \<mapsto> [1]]) ''c'' [1] = Inr (Some (replicate 32 9), cf)"
    using demo_unlocks by blast
  obtain t where t: "tree_New demo_prims ''/c'' (replicate 32 9) cf = Inr t" "tree_inv (demo_store nil_slice) (\<lambda>_. True) ''/c'' (ft_cCore t) t ()"
    by (rule tree_New_ok [OF demo_lib.crypto_lib_axioms, of "replicate 32 9"]) (simp add: KeyLen_def)
  have "main_init demo_main demo_prims (\<lambda>_. Inr cf) A demo_tmp ''conf'' Map.empty () () = Inr (demo_cfg, t, Map.empty, ())"
    if "\<And>p. fs_ReadFile A p () = (Inr [1], ())" for A
    using cf t(1) that
    by (simp add: main_init_def demo_main_def LoadConfig_def LoadSSHKey_def isPrivateKeyEncrypted_def demo_keylib_def
        GetDecrpytionPassphrase_def DecryptHandler_def FileTree_Init_def demo_tmp_def demo_cfg_def Let_def)
  moreover have "tree_enc (ft_cCore t) (ft_cEnc t)"
    using t(2) by (simp add: tree_inv_def tree_ok_def)
  ultimately show thesis
    using that by blast
qed

lemma demo_starts:
  "\<exists>cf t. \<forall>f. main_init demo_main demo_prims (\<lambda>_. Inr cf) (demo_remote f) demo_tmp ''conf'' Map.empty () () =
     Inr (demo_cfg, t, Map.empty, ()) \<and> tree_enc (ft_cCore t) (ft_cEnc t)"
proof -
  obtain cf t where t: "\<And>A. (\<And>p. fs_ReadFile A p () = (Inr [1], ())) \<Longrightarrow>
      main_init demo_main demo_prims (\<lambda>_. Inr cf) A demo_tmp ''conf'' Map.empty () () = Inr (demo_cfg, t, Map.empty, ())"
    "tree_enc (ft_cCore t) (ft_cEnc t)"
    using demo_starts_on by blast
  have "main_init demo_main demo_prims (\<lambda>_. Inr cf) (demo_remote f) demo_tmp ''conf'' Map.empty () () =
     Inr (demo_cfg, t, Map.empty, ())" for f
    by (rule t(1)) (simp add: demo_remote_def)
  then show ?thesis
    using t(2) by blast
qed

end
