(* ===== verification/TreeProg.thy ===== *)
theory TreeProg
  imports ServedTree
begin

text \<open>
  The methods of \<^verbatim>\<open>filetree/filetree.go\<close> and the callbacks of \<^verbatim>\<open>handlers/decrypt.go\<close> once more, now as
  programs that stop at every access to what they share with other goroutines: the requester, the
  backend, the directory cache and the pools of the content encrypter. A program is a tree whose
  inner nodes are such accesses and whose branches are the answers. Run alone, without
  interruption, they are the methods of \<open>FileTree\<close>; a system of many programs is in \<open>TreeSystem\<close>.
\<close>

section \<open>Programs\<close>

datatype 'a tprog =
    PRet "goerr + 'a"
  | PFault fault
  | PRoot "string \<Rightarrow> 'a tprog"
  | PFind string "DirMapping option \<Rightarrow> 'a tprog"
  | PStore string string "'a tprog"
  | PReadFile string "goerr + gslice \<Rightarrow> 'a tprog"
  | PReadDir string "goerr + FileInfo list \<Rightarrow> 'a tprog"
  | PDecryptName string bytes "goerr + string \<Rightarrow> 'a tprog"
  | PStat string "goerr + FileInfo \<Rightarrow> 'a tprog"
  | PSize FileInfo "int \<Rightarrow> 'a tprog"
  | PDecrypt gslice "goerr + bytes \<Rightarrow> 'a tprog"

text \<open>Continue with the value, or leave early with a wrapped error.\<close>

primrec pbind :: "'a tprog \<Rightarrow> (goerr \<Rightarrow> goerr) \<Rightarrow> ('a \<Rightarrow> 'b tprog) \<Rightarrow> 'b tprog" where
  "pbind (PRet r) wrap q = (case r of Inl e \<Rightarrow> PRet (Inl (wrap e)) | Inr a \<Rightarrow> q a)"
| "pbind (PFault f) wrap q = PFault f"
| "pbind (PRoot k) wrap q = PRoot (\<lambda>x. pbind (k x) wrap q)"
| "pbind (PFind p k) wrap q = PFind p (\<lambda>x. pbind (k x) wrap q)"
| "pbind (PStore p c k) wrap q = PStore p c (pbind k wrap q)"
| "pbind (PReadFile p k) wrap q = PReadFile p (\<lambda>x. pbind (k x) wrap q)"
| "pbind (PReadDir p k) wrap q = PReadDir p (\<lambda>x. pbind (k x) wrap q)"
| "pbind (PDecryptName n iv k) wrap q = PDecryptName n iv (\<lambda>x. pbind (k x) wrap q)"
| "pbind (PStat p k) wrap q = PStat p (\<lambda>x. pbind (k x) wrap q)"
| "pbind (PSize i k) wrap q = PSize i (\<lambda>x. pbind (k x) wrap q)"
| "pbind (PDecrypt f k) wrap q = PDecrypt f (\<lambda>x. pbind (k x) wrap q)"

definition pret :: "'a \<Rightarrow> 'a tprog" where "pret a = PRet (Inr a)"
definition perr :: "goerr \<Rightarrow> 'a tprog" where "perr e = PRet (Inl e)"

lemma pbind_ret [simp]: "pbind (pret a) wrap q = q a" "pbind (perr e) wrap q = perr (wrap e)"
  by (simp_all add: pret_def perr_def)

text \<open>A run without interruption, on an accessor as in \<open>FileTree\<close>.\<close>

primrec exec :: "prims \<Rightarrow> 'w FSAccess \<Rightarrow> 'a tprog \<Rightarrow> ('a, 'w) tree_op" where
  "exec P A (PRet r) = (\<lambda>t w. Inr (r, t, w))"
| "exec P A (PFault f) = (\<lambda>t w. Inl f)"
| "exec P A (PRoot k) = (\<lambda>t w. exec P A (k (encryptedRoot t)) t w)"
| "exec P A (PFind p k) = tbind (cache_Find p) id (\<lambda>x. exec P A (k x))"
| "exec P A (PStore p c k) = tbind (cache_Store p c) id (\<lambda>_. exec P A k)"
| "exec P A (PReadFile p k) = (\<lambda>t w. case req_ReadFile A p w of (r, w') \<Rightarrow> exec P A (k r) t w')"
| "exec P A (PReadDir p k) = (\<lambda>t w. case req_ReadDir A p w of (r, w') \<Rightarrow> exec P A (k r) t w')"
| "exec P A (PDecryptName n iv k) = (\<lambda>t w. case req_DecryptName A n iv w of
      Inl f \<Rightarrow> Inl f | Inr (r, w') \<Rightarrow> exec P A (k r) t w')"
| "exec P A (PStat p k) = (\<lambda>t w. case fs_Stat A p w of (r, w') \<Rightarrow> exec P A (k r) t w')"
| "exec P A (PSize i k) = (\<lambda>t w. case plain_size t i of Inl f \<Rightarrow> Inl f | Inr n \<Rightarrow> exec P A (k n) t w)"
| "exec P A (PDecrypt f k) = (\<lambda>t w. case decryptFile P (ft_cEnc t) f of
      Inl f \<Rightarrow> Inl f | Inr (r, be) \<Rightarrow> exec P A (k r) (t\<lparr>ft_cEnc := be\<rparr>) w)"

section \<open>The methods\<close>

fun range_prog :: "(FileInfo \<Rightarrow> string \<Rightarrow> 's \<Rightarrow> (bool \<times> 's) tprog) \<Rightarrow> bytes \<Rightarrow> FileInfo list \<Rightarrow> 's \<Rightarrow> 's tprog" where
  "range_prog fn iv [] acc = pret acc"
| "range_prog fn iv (info # rest) acc =
     PDecryptName (fi_name info) iv (\<lambda>r.
       case r of
         Inl e \<Rightarrow> range_prog fn iv rest acc
       | Inr rName \<Rightarrow> pbind (fn info rName acc) id (\<lambda>(exit, acc').
           if exit then pret acc' else range_prog fn iv rest acc'))"

definition rangeInDir_prog :: "string \<Rightarrow> (FileInfo \<Rightarrow> string \<Rightarrow> 's \<Rightarrow> (bool \<times> 's) tprog) \<Rightarrow> 's \<Rightarrow> 's tprog" where
  "rangeInDir_prog cipherPath fn acc =
     pbind (PReadFile (Join [cipherPath, ''gocryptfs.diriv'']) PRet)
       (\<lambda>err. Errorf ''error reading directory IV: %s'' [FErr err]) (\<lambda>iv.
     pbind (PReadDir cipherPath PRet)
       (\<lambda>err. Errorf ''error listing directory: %s'' [FErr err]) (\<lambda>dirListing.
     range_prog fn (sdata iv) dirListing acc))"

definition findInDir_prog :: "string \<Rightarrow> string \<Rightarrow> FileInfo tprog" where
  "findInDir_prog cipherPath plainName =
     pbind (rangeInDir_prog cipherPath
         (\<lambda>info decryptedName item. pret (if plainName = decryptedName then (True, Some info) else (False, item))) None)
       (\<lambda>err. Errorf ''error iterating %s: %s'' [FStr cipherPath, FErr err]) (\<lambda>item.
     case item of
       None \<Rightarrow> perr (Errorf ''%s not found in %s'' [FStr plainName, FStr cipherPath])
     | Some info \<Rightarrow> pret info)"

fun findPath_prog :: "nat \<Rightarrow> string \<Rightarrow> string tprog" where
  "findPath_prog 0 plainPath = PFault Hang"
| "findPath_prog (Suc depth) plainPath =
     (let cleanPath = Clean plainPath in
      if cleanPath = ''/'' then PRoot pret
      else
        PFind cleanPath (\<lambda>dirMapping.
        case dirMapping of
          Some d \<Rightarrow> pret (CiphertextPath d)
        | None \<Rightarrow>
          pbind (findPath_prog depth (Dir cleanPath)) id (\<lambda>cipherParentPath.
          pbind (findInDir_prog cipherParentPath (Base cleanPath)) id (\<lambda>item.
          let ciphertextPath = Join [cipherParentPath, fi_name item] in
          if \<not> fi_isdir item then perr (Errorf ''%s is not a directory'' [FStr ciphertextPath])
          else PStore cleanPath ciphertextPath (pret ciphertextPath)))))"

definition find_prog :: "string \<Rightarrow> string tprog" where
  "find_prog plainPath = findPath_prog (Suc (length (Clean plainPath))) plainPath"

definition ReadFile_prog :: "string \<Rightarrow> bytes tprog" where
  "ReadFile_prog plainPath =
     (let cleanPath = Clean plainPath in
      if cleanPath = ''/'' then perr (readFileErr (Errorf ''/ is a directory'' []))
      else
        pbind (find_prog (Dir cleanPath))
          (\<lambda>err. readFileErr (Errorf ''error finding parent path: %s'' [FErr err])) (\<lambda>cipherDirPath.
        pbind (findInDir_prog cipherDirPath (Base cleanPath)) readFileErr (\<lambda>item.
        let ciphertextPath = Join [cipherDirPath, fi_name item] in
        if fi_isdir item then perr (readFileErr (Errorf ''%s is a directory'' [FStr ciphertextPath]))
        else
          pbind (PReadFile ciphertextPath PRet)
            (\<lambda>err. readFileErr (Errorf ''error reading file %s: %s'' [FStr ciphertextPath, FErr err])) (\<lambda>fileBytes.
          pbind (PDecrypt fileBytes PRet)
            (\<lambda>err. readFileErr (Errorf ''error decrypting file %s: %s'' [FStr ciphertextPath, FErr err])) pret))))"

definition ReadDir_prog :: "string \<Rightarrow> FileInfo list tprog" where
  "ReadDir_prog plainPath =
     (let cleanPath = Clean plainPath;
          readDirErr = (\<lambda>msg. Errorf ''ReadDir: %s'' [FErr msg])
      in pbind (find_prog cleanPath)
           (\<lambda>err. readDirErr (Errorf ''error finding path %s: %s'' [FStr cleanPath, FErr err])) (\<lambda>ciphertextPath.
         pbind (rangeInDir_prog ciphertextPath
             (\<lambda>info plainName listing. PSize info (\<lambda>sz. pret (False, listing @ [plainFileInfo info plainName sz]))) [])
           (\<lambda>err. readDirErr (Errorf ''error listing directory %s: %s'' [FStr ciphertextPath, FErr err])) pret))"

definition Stat_prog :: "string \<Rightarrow> FileInfo tprog" where
  "Stat_prog plainPath =
     (let cleanPath = Clean plainPath;
          statErr = (\<lambda>msg. Errorf ''Stat: %s'' [FErr msg])
      in pbind (find_prog cleanPath)
           (\<lambda>err. statErr (Errorf ''error finding path: %s'' [FErr err])) (\<lambda>cipherPath.
         pbind (PStat cipherPath PRet)
           (\<lambda>err. statErr (Errorf ''error running stat on path: %s'' [FErr err])) (\<lambda>item.
         PSize item (\<lambda>sz. pret (plainFileInfo item (Base cleanPath) sz)))))"

section \<open>The callbacks\<close>

text \<open>What the callbacks of a request return, in one type.\<close>

datatype op_val = VFile bytes | VList "FileInfo list option" | VUnit

definition Filelist_prog :: "Request \<Rightarrow> op_val tprog" where
  "Filelist_prog req =
     (if req_Method req = ''List'' then pbind (ReadDir_prog (req_Filepath req)) id (\<lambda>l. pret (VList (Some l)))
      else if req_Method req = ''Stat'' then pbind (Stat_prog (req_Filepath req)) id (\<lambda>i. pret (VList (Some [i])))
      else if req_Method req = ''Readlink''
      then perr (Errorf ''ReadLink not supported. path: %s'' [FStr (req_Filepath req)])
      else pret (VList None))"

fun op_prog :: "sftp_op \<Rightarrow> op_val tprog" where
  "op_prog (OpGet req) = pbind (ReadFile_prog (req_Filepath req)) id (\<lambda>b. pret (VFile b))"
| "op_prog (OpPut req) = perr (Errorf ''Writing not supported for path: %s'' [FStr (req_Filepath req)])"
| "op_prog (OpCmd req) = (case Filecmd_error req of None \<Rightarrow> pret VUnit | Some e \<Rightarrow> perr e)"
| "op_prog (OpList req) = Filelist_prog req"

section \<open>Running alone\<close>

lemma exec_ret [simp]: "exec P A (pret a) = tret a" "exec P A (perr e) = terr e"
  by (simp_all add: pret_def perr_def tret_def terr_def)

lemma exec_calls:
  "exec P A (PReadFile p PRet) = tcall (req_ReadFile A p)" "exec P A (PReadDir p PRet) = tcall (req_ReadDir A p)"
  "exec P A (PStat p PRet) = tcall (fs_Stat A p)" "exec P A (PDecrypt f PRet) = tree_decryptFile P f"
  by (auto simp: tcall_def tree_decryptFile_def fun_eq_iff split: prod.splits sum.splits)

lemma exec_bind: "exec P A (pbind m wrap q) = tbind (exec P A m) wrap (\<lambda>a. exec P A (q a))"
proof (induction m)
  case (PRet r)
  then show ?case
    by (cases r) (simp_all add: tbind_def fun_eq_iff)
qed (simp_all add: tbind_def fun_eq_iff cache_Find_def cache_Store_def split: sum.splits prod.splits)

lemma exec_range:
  assumes "\<And>i n acc. exec P A (fn i n acc) = (\<lambda>t w. case gn t i n acc of Inl f \<Rightarrow> Inl f | Inr x \<Rightarrow> Inr (Inr x, t, w))"
  shows "exec P A (range_prog fn iv l acc) = range_loop A gn iv l acc"
proof (induction l arbitrary: acc)
  case (Cons i l)
  show ?case
  proof (intro ext)
    fix t w
    show "exec P A (range_prog fn iv (i # l) acc) t w = range_loop A gn iv (i # l) acc t w"
    proof (cases "req_DecryptName A (fi_name i) iv w")
      case (Inr x)
      obtain r w' where call: "req_DecryptName A (fi_name i) iv w = Inr (r, w')"
        using Inr by (cases x) simp
      show ?thesis
      proof (cases r)
        case (Inr n)
        show ?thesis
          using call Inr Cons by (cases "gn t i n acc") (auto simp: exec_bind assms tbind_def tret_def split: prod.splits)
      qed (simp add: call Cons)
    qed simp
  qed
qed (simp add: tret_def fun_eq_iff)

lemma exec_rangeInDir:
  assumes "\<And>i n acc. exec P A (fn i n acc) = (\<lambda>t w. case gn t i n acc of Inl f \<Rightarrow> Inl f | Inr x \<Rightarrow> Inr (Inr x, t, w))"
  shows "exec P A (rangeInDir_prog d fn acc) = rangeInDir A d gn acc"
  by (simp only: rangeInDir_prog_def rangeInDir_def exec_bind exec_calls exec_range [where gn = gn, OF assms])

lemma exec_findInDir: "exec P A (findInDir_prog d name) = findInDir A d name"
proof -
  have opt: "exec P A (case x of None \<Rightarrow> p | Some i \<Rightarrow> q i) = (case x of None \<Rightarrow> exec P A p | Some i \<Rightarrow> exec P A (q i))"
    for x :: "'x option" and p and q :: "'x \<Rightarrow> 'y tprog"
    by (cases x) simp_all
  show ?thesis
    unfolding findInDir_prog_def findInDir_def exec_bind opt
    by (subst exec_rangeInDir [where gn = "find_fn name"]) (simp add: tret_def, simp)
qed

lemma exec_findPath: "exec P A (findPath_prog n p) = findPath_rec A n p"
proof (induction n arbitrary: p)
  case (Suc n)
  have root: "exec P A (PRoot pret) = (\<lambda>t w. Inr (Inr (encryptedRoot t), t, w))"
    by (simp add: tret_def)
  have opt: "exec P A (case x of None \<Rightarrow> p | Some i \<Rightarrow> q i) = (case x of None \<Rightarrow> exec P A p | Some i \<Rightarrow> exec P A (q i))"
    for x :: "'x option" and p and q :: "'x \<Rightarrow> 'y tprog"
    by (cases x) simp_all
  have cond: "exec P A (if b then p else q) = (if b then exec P A p else exec P A q)" for b and p q :: "'y tprog"
    by simp
  show ?case
    unfolding findPath_prog.simps findPath_rec.simps Let_def cond root exec.simps(4,5) exec_ret opt exec_bind Suc exec_findInDir
    by (rule ext)+ simp
qed simp

lemma exec_find: "exec P A (find_prog p) = findPath A p"
  unfolding find_prog_def findPath_def exec_findPath ..

lemma exec_if: "exec P A (if b then p else q) = (if b then exec P A p else exec P A q)"
  by simp

lemma exec_ReadFile: "exec P A (ReadFile_prog p) = FileTree_ReadFile P A p"
  unfolding ReadFile_prog_def FileTree_ReadFile_def Let_def exec_if exec_bind exec_find exec_findInDir exec_calls exec_ret ..

lemma exec_ReadDir: "exec P A (ReadDir_prog p) = FileTree_ReadDir A p"
  unfolding ReadDir_prog_def FileTree_ReadDir_def Let_def exec_bind exec_find exec_ret
  by (subst exec_rangeInDir [where gn = list_fn]) (auto simp: tret_def fun_eq_iff split: sum.splits)

lemma exec_Stat: "exec P A (Stat_prog p) = FileTree_Stat A p"
proof -
  have "exec P A (PSize i (\<lambda>sz. pret (plainFileInfo i n sz))) =
      (\<lambda>t w. case plain_size t i of Inl f \<Rightarrow> Inl f | Inr sz \<Rightarrow> Inr (Inr (plainFileInfo i n sz), t, w))" for i n
    by (simp add: tret_def fun_eq_iff split: sum.split)
  then show ?thesis
    unfolding Stat_prog_def FileTree_Stat_def Let_def exec_bind exec_find exec_calls by simp
qed

text \<open>The result of a callback, in the common type.\<close>

definition as_op :: "('a \<Rightarrow> op_val) \<Rightarrow> ('a, 'w) tree_op \<Rightarrow> (op_val, 'w) tree_op" where
  "as_op f m = tbind m id (\<lambda>a. tret (f a))"

lemma as_op_simps: "as_op f (tret a) = tret (f a)" "as_op f (terr e) = terr e"
  by (simp_all add: as_op_def tbind_def tret_def terr_def)

lemma as_op_bind: "as_op f (tbind m id (\<lambda>a. tret (g a))) = as_op (f \<circ> g) m"
  by (auto simp: as_op_def tbind_def tret_def fun_eq_iff split: sum.splits)

text \<open>
  Run without interruption the programs are the methods: what a callback's program does on any
  accessor, with its value, its errors, its panics and the states it leaves, is what the callback does.
\<close>

definition callback :: "prims \<Rightarrow> 'w FSAccess \<Rightarrow> sftp_op \<Rightarrow> (op_val, 'w) tree_op" where
  "callback P A op =
    (case op of
       OpGet req \<Rightarrow> as_op VFile (decrypt_Fileread P A req)
     | OpPut req \<Rightarrow> as_op (\<lambda>_. VUnit) (decrypt_Filewrite req)
     | OpCmd req \<Rightarrow> as_op (\<lambda>_. VUnit) (decrypt_Filecmd req)
     | OpList req \<Rightarrow> as_op VList (decrypt_Filelist A req))"

lemma exec_op_prog: "exec P A (op_prog op) = callback P A op"
proof (cases op)
  case (OpGet req)
  then show ?thesis
    by (simp add: exec_bind exec_ReadFile decrypt_Fileread_def as_op_def callback_def)
next
  case (OpPut req)
  then show ?thesis
    by (simp add: decrypt_Filewrite_def as_op_simps callback_def)
next
  case (OpCmd req)
  then show ?thesis
    by (simp add: decrypt_Filecmd_def as_op_simps callback_def split: option.split)
next
  case (OpList req)
  then show ?thesis
    by (simp add: Filelist_prog_def decrypt_Filelist_def exec_bind exec_ReadDir exec_Stat as_op_simps as_op_bind callback_def)
      (simp add: as_op_def)
qed

end
