(* ===== verification/TreeWp.thy ===== *)
theory TreeWp
  imports TreeProg
begin

text \<open>
  What a program guarantees wherever it is interrupted. While the server's files do not change,
  a directory cache that others fill with right entries may answer anything right, and the requester
  may fail any call: \<open>wp Q m\<close> says that whatever is answered to \<open>m\<close> under these rules, \<open>m\<close> ends with
  \<open>Q\<close>, stores only right entries and asks only questions that its partners can handle. It is
  computed from the program alone, so that it survives every step of the others.
\<close>

section \<open>Weakest preconditions\<close>

text \<open>The initialization vectors of the directories of a store.\<close>

definition dir_ivs :: "store \<Rightarrow> bytes set" where
  "dir_ivs S = {sdata f |f d. st_ReadFile S (Join [d, ''gocryptfs.diriv'']) = Inr f}"

text \<open>The contents of a file, whatever the capacity of the slice.\<close>

definition file_data :: "store \<Rightarrow> string \<Rightarrow> bytes \<Rightarrow> bool" where
  "file_data S p b \<longleftrightarrow> (\<exists>f. st_ReadFile S p = Inr f \<and> sdata f = b)"

text \<open>The names that are decrypted: those of the entries of reachable directories, with the directory's vector.\<close>

definition asked :: "store \<Rightarrow> string \<Rightarrow> string \<Rightarrow> bytes \<Rightarrow> bool" where
  "asked S root n iv \<longleftrightarrow> (\<exists>cs d l i. walk S root cs = Inr d \<and> dir_entries S d = Inr (iv, l) \<and> i \<in> set l \<and> n = fi_name i)"

lemma askedI: "walk S root cs = Inr d \<Longrightarrow> dir_entries S d = Inr (iv, l) \<Longrightarrow> i \<in> set l \<Longrightarrow> asked S root (fi_name i) iv"
  unfolding asked_def by blast

text \<open>The decrypter panics on such a name; the server's directories are calm if it panics on none.\<close>

definition name_panic :: "store \<Rightarrow> string \<Rightarrow> fault \<Rightarrow> bool" where
  "name_panic S root f \<longleftrightarrow> (\<exists>n iv. asked S root n iv \<and> st_panics S n iv = Some f)"

lemma calm_asked: "calm S root \<Longrightarrow> asked S root n iv \<Longrightarrow> st_panics S n iv = None"
  unfolding asked_def by (elim exE conjE) (simp add: calm_def calm_dir_def)

lemma calm_no_panic: "calm S root \<Longrightarrow> \<not> name_panic S root f"
  using calm_asked [of S root] by (fastforce simp: name_panic_def)

primrec wp :: "prims \<Rightarrow> store \<Rightarrow> string \<Rightarrow> CryptoCore \<Rightarrow> (goerr + 'a \<Rightarrow> bool) \<Rightarrow> 'a tprog \<Rightarrow> bool" where
  "wp P S root cc Q (PRet r) \<longleftrightarrow> Q r"
| "wp P S root cc Q (PFault f) \<longleftrightarrow> False"
| "wp P S root cc Q (PRoot k) \<longleftrightarrow> wp P S root cc Q (k root)"
| "wp P S root cc Q (PFind p k) \<longleftrightarrow>
     (\<forall>d. (\<forall>m. d = Some m \<longrightarrow> resolved S root p (CiphertextPath m)) \<longrightarrow> wp P S root cc Q (k d))"
| "wp P S root cc Q (PStore p c k) \<longleftrightarrow> resolved S root p c \<and> wp P S root cc Q k"
| "wp P S root cc Q (PReadFile p k) \<longleftrightarrow>
     (\<forall>r. (\<forall>f. r = Inr f \<longrightarrow> file_data S p (sdata f) \<and> sdata f \<noteq> []) \<longrightarrow> wp P S root cc Q (k r))"
| "wp P S root cc Q (PReadDir p k) \<longleftrightarrow>
     (\<forall>r. (\<forall>l. r = Inr l \<longrightarrow> st_ReadDir S p = Inr l) \<longrightarrow> wp P S root cc Q (k r))"
| "wp P S root cc Q (PDecryptName n iv k) \<longleftrightarrow> asked S root n iv \<and> iv \<in> dir_ivs S \<and> iv \<noteq> [] \<and>
     (\<forall>r. (\<forall>m. r = Inr m \<longrightarrow> st_DecryptName S n iv = Inr m) \<longrightarrow> wp P S root cc Q (k r))"
| "wp P S root cc Q (PStat p k) \<longleftrightarrow>
     (\<forall>r. (\<forall>i. r = Inr i \<longrightarrow> st_Stat S p = Inr i) \<longrightarrow> wp P S root cc Q (k r))"
| "wp P S root cc Q (PSize i k) \<longleftrightarrow> wp P S root cc Q (k (tree_size cc i))"
| "wp P S root cc Q (PDecrypt f k) \<longleftrightarrow> (\<exists>p. file_data S p (sdata f)) \<and>
     (\<forall>r be be'. tree_enc cc be \<and> decryptFile P be f = Inr (r, be') \<longrightarrow> wp P S root cc Q (k r))"

lemma wp_ret [simp]: "wp P S root cc Q (pret a) = Q (Inr a)" "wp P S root cc Q (perr e) = Q (Inl e)"
  by (simp_all add: pret_def perr_def)

lemma wp_bind:
  "wp P S root cc Q (pbind m wrap q) =
    wp P S root cc (\<lambda>r. case r of Inl e \<Rightarrow> Q (Inl (wrap e)) | Inr a \<Rightarrow> wp P S root cc Q (q a)) m"
  by (induction m) (simp_all split: sum.split)

lemma wp_mono: "wp P S root cc R m \<Longrightarrow> (\<And>r. R r \<Longrightarrow> Q r) \<Longrightarrow> wp P S root cc Q m"
  by (induction m) auto

lemma wp_bindI:
  assumes "wp P S root cc R m" "\<And>e. R (Inl e) \<Longrightarrow> Q (Inl (wrap e))" "\<And>a. R (Inr a) \<Longrightarrow> wp P S root cc Q (q a)"
  shows "wp P S root cc Q (pbind m wrap q)"
  unfolding wp_bind by (rule wp_mono [OF assms(1)]) (auto split: sum.split intro: assms(2,3))

section \<open>Directories\<close>

text \<open>Two entries of a directory never have the same plaintext name.\<close>

definition names_unique :: "store \<Rightarrow> bool" where
  "names_unique S \<longleftrightarrow> (\<forall>d iv l. dir_entries S d = Inr (iv, l) \<longrightarrow>
     (\<forall>i \<in> set l. \<forall>j \<in> set l. \<forall>n. st_DecryptName S (fi_name i) iv = Inr n \<and> st_DecryptName S (fi_name j) iv = Inr n \<longrightarrow> i = j))"

lemma wp_range_find:
  assumes "iv \<in> dir_ivs S" "iv \<noteq> []"
  shows "\<forall>i \<in> set l. asked S root (fi_name i) iv \<Longrightarrow>
    (\<And>i. i \<in> set l \<Longrightarrow> st_DecryptName S (fi_name i) iv = Inr name \<Longrightarrow> Q (Inr (Some i))) \<Longrightarrow> Q (Inr None) \<Longrightarrow>
    wp P S root cc Q (range_prog (\<lambda>i n item. pret (if name = n then (True, Some i) else (False, item))) iv l None)"
  using assms by (induction l) (auto split: sum.split)

lemma wp_range_list:
  assumes "iv \<in> dir_ivs S" "iv \<noteq> []"
  shows "\<forall>i \<in> set l. asked S root (fi_name i) iv \<Longrightarrow>
    wp P S root cc (\<lambda>r. \<exists>l'. r = Inr (acc @ l') \<and> subseq l' (plain_listing S cc iv l))
    (range_prog (\<lambda>i n listing. PSize i (\<lambda>sz. pret (False, listing @ [plainFileInfo i n sz]))) iv l acc)"
proof (induction l arbitrary: acc)
  case (Cons i l)
  let ?list = "plain_listing S cc iv"
  have skip: "subseq l' (?list (i # l))" if "subseq l' (?list l)" for l'
    using that by (auto simp: plain_listing_def split: sum.split)
  have take: "subseq (plainFileInfo i n (tree_size cc i) # l') (?list (i # l))"
    if "subseq l' (?list l)" "st_DecryptName S (fi_name i) iv = Inr n" for l' n
    using that by (simp add: plain_listing_def)
  have "wp P S root cc (\<lambda>r. \<exists>l'. r = Inr (acc @ l') \<and> subseq l' (?list (i # l)))
      (range_prog (\<lambda>i n listing. PSize i (\<lambda>sz. pret (False, listing @ [plainFileInfo i n sz]))) iv l acc)"
    by (rule wp_mono [OF Cons.IH]) (use Cons.prems in \<open>auto intro: skip\<close>)
  moreover have "wp P S root cc (\<lambda>r. \<exists>l'. r = Inr (acc @ l') \<and> subseq l' (?list (i # l)))
      (range_prog (\<lambda>i n listing. PSize i (\<lambda>sz. pret (False, listing @ [plainFileInfo i n sz]))) iv l
        (acc @ [plainFileInfo i n (tree_size cc i)]))" if "st_DecryptName S (fi_name i) iv = Inr n" for n
    by (rule wp_mono [OF Cons.IH]) (use Cons.prems in \<open>auto intro: take [OF _ that]\<close>)
  ultimately show ?case
    using assms Cons.prems by (auto split: sum.split)
qed simp

lemma wp_rangeInDir:
  assumes "\<And>e. Q (Inl e)"
    and "\<And>iv l. dir_entries S d = Inr (iv, l) \<Longrightarrow> iv \<in> dir_ivs S \<Longrightarrow> iv \<noteq> [] \<Longrightarrow> wp P S root cc Q (range_prog fn iv l acc)"
  shows "wp P S root cc Q (rangeInDir_prog d fn acc)"
proof -
  have iv: "sdata f \<in> dir_ivs S" if "file_data S (Join [d, ''gocryptfs.diriv'']) (sdata f)" for f
    using that unfolding dir_ivs_def file_data_def mem_Collect_eq by metis
  have "dir_entries S d = Inr (sdata f, l)"
    if "file_data S (Join [d, ''gocryptfs.diriv'']) (sdata f)" "st_ReadDir S d = Inr l" for f l
    using that by (auto simp: dir_entries_def file_data_def)
  note dir = this
  show ?thesis
    unfolding rangeInDir_prog_def by (auto simp: wp_bind split: sum.split intro: assms(1) assms(2) [OF dir iv])
qed

lemma wp_findInDir:
  assumes "names_unique S" "walk S root cs = Inr d" "\<And>e. Q (Inl e)" "\<And>i. entry S d name = Inr i \<Longrightarrow> Q (Inr i)"
  shows "wp P S root cc Q (findInDir_prog d name)"
  unfolding findInDir_prog_def wp_bind
proof (rule wp_rangeInDir)
  fix iv l
  assume dir: "dir_entries S d = Inr (iv, l)" "iv \<in> dir_ivs S" "iv \<noteq> []"
  have "entry S d name = Inr i" if i: "i \<in> set l" "st_DecryptName S (fi_name i) iv = Inr name" for i
  proof (cases "find (\<lambda>i. st_DecryptName S (fi_name i) iv = Inr name) l")
    case None
    then show ?thesis using i by (auto simp: find_None_iff)
  next
    case (Some j)
    then have "j \<in> set l" "st_DecryptName S (fi_name j) iv = Inr name"
      by (auto simp: find_Some_iff)
    then have "j = i"
      using i assms(1) dir(1) unfolding names_unique_def by blast
    then show ?thesis
      using Some dir(1) by (simp add: entry_def)
  qed
  then show "wp P S root cc (\<lambda>r. case r of
        Inl e \<Rightarrow> Q (Inl (Errorf ''error iterating %s: %s'' [FStr d, FErr e]))
      | Inr a \<Rightarrow> wp P S root cc Q (case a of None \<Rightarrow> perr (Errorf ''%s not found in %s'' [FStr name, FStr d])
          | Some i \<Rightarrow> pret i)) (range_prog (\<lambda>i n item. pret (if name = n then (True, Some i) else (False, item))) iv l None)"
    by (intro wp_range_find dir(2,3)) (auto intro: assms(3,4) askedI [OF assms(2) dir(1)])
qed (simp add: assms(3))

section \<open>Paths\<close>

lemma wp_findPath:
  assumes "names_unique S"
  shows "canonical cs \<Longrightarrow> length cs < n \<Longrightarrow> (\<And>e. Q (Inl e)) \<Longrightarrow> (\<And>d. walk S root cs = Inr d \<Longrightarrow> Q (Inr d)) \<Longrightarrow>
    wp P S root cc Q (findPath_prog n (abs_path cs))"
proof (induction n arbitrary: cs Q)
  case (Suc n)
  show ?case
  proof (cases cs rule: rev_cases)
    case Nil
    then show ?thesis
      using Suc.prems(4) by (simp add: Clean_abs_path abs_path_root)
  next
    case (snoc ds c)
    have can: "canonical ds" "length ds < n"
      using Suc.prems snoc by auto
    have p: "Clean (abs_path cs) = abs_path cs" "abs_path cs \<noteq> ''/''" "Dir (abs_path cs) = abs_path ds" "Base (abs_path cs) = c"
      using can snoc Suc.prems(1) Dir_abs_path [of ds c] Base_abs_path [of ds c] by (simp_all add: Clean_abs_path abs_path_root)
    have hit: "Q (Inr c')" if "resolved S root (abs_path cs) c'" for c'
      using that Suc.prems(1,4) abs_path_inject unfolding resolved_def by metis
    have leaf: "wp P S root cc Q
        (let ct = Join [d, fi_name i] in
         if \<not> fi_isdir i then perr (Errorf ''%s is not a directory'' [FStr ct])
         else PStore (abs_path cs) ct (pret ct))"
      if "walk S root ds = Inr d" "entry S d c = Inr i" for d i
    proof (cases "fi_isdir i")
      case True
      then have "walk S root cs = Inr (Join [d, fi_name i])"
        using that snoc by (simp add: walk_snoc enter_def)
      moreover from this have "resolved S root (abs_path cs) (Join [d, fi_name i])"
        using Suc.prems(1) by (auto simp: resolved_def)
      ultimately show ?thesis
        using True Suc.prems(4) by (simp add: Let_def)
    qed (simp add: Suc.prems(3))
    have "wp P S root cc Q (pbind (findPath_prog n (abs_path ds)) id (\<lambda>d. pbind (findInDir_prog d c) id (\<lambda>i.
          let ct = Join [d, fi_name i] in
          if \<not> fi_isdir i then perr (Errorf ''%s is not a directory'' [FStr ct])
          else PStore (abs_path cs) ct (pret ct))))"
      unfolding wp_bind [of _ _ _ _ _ "findPath_prog n (abs_path ds)"]
    proof (rule Suc.IH [OF can])
      fix d
      assume d: "walk S root ds = Inr d"
      show "case Inr d of Inl e \<Rightarrow> Q (Inl (id e)) | Inr d \<Rightarrow> wp P S root cc Q (pbind (findInDir_prog d c) id (\<lambda>i.
          let ct = Join [d, fi_name i] in
          if \<not> fi_isdir i then perr (Errorf ''%s is not a directory'' [FStr ct])
          else PStore (abs_path cs) ct (pret ct)))"
        unfolding sum.case wp_bind by (rule wp_findInDir [OF assms d]) (simp_all only: sum.case id_apply Suc.prems(3) leaf [OF d])
    qed (simp add: Suc.prems(3))
    then show ?thesis
      unfolding findPath_prog.simps Let_def p(1,3,4) if_not_P [OF p(2)] by (auto intro: hit split: option.split)
  qed
qed simp

lemma findPath_prog_Clean: "is_abs p \<Longrightarrow> findPath_prog n p = findPath_prog n (abs_path (path_comps p))"
  by (cases n) (simp_all add: Clean_abs Clean_abs_path)

lemma wp_find:
  assumes "names_unique S" "is_abs p" "\<And>e. Q (Inl e)" "\<And>d. walk S root (path_comps p) = Inr d \<Longrightarrow> Q (Inr d)"
  shows "wp P S root cc Q (find_prog p)"
  unfolding find_prog_def findPath_prog_Clean [OF assms(2)] Clean_abs [OF assms(2)]
  using length_canonical [of "path_comps p"] assms(3,4) by (intro wp_findPath [OF assms(1)]) simp_all

section \<open>Callbacks\<close>

text \<open>
  What a callback returns if it returns a value: the decrypted bytes of the file that the walk finds;
  a part of the true listing, in order (an entry whose name the requester failed to
  decrypt is missing); the information of the directory.
\<close>

definition got_file :: "prims \<Rightarrow> store \<Rightarrow> string \<Rightarrow> CryptoCore \<Rightarrow> string \<Rightarrow> bytes \<Rightarrow> bool" where
  "got_file P S root cc p b \<longleftrightarrow> (\<exists>cs c d i f be be'. path_comps p = cs @ [c] \<and> walk S root cs = Inr d \<and> entry S d c = Inr i \<and>
     \<not> fi_isdir i \<and> file_data S (Join [d, fi_name i]) (sdata f) \<and> tree_enc cc be \<and> decryptFile P be f = Inr (Inr b, be'))"

definition got_listing :: "store \<Rightarrow> string \<Rightarrow> CryptoCore \<Rightarrow> string \<Rightarrow> FileInfo list \<Rightarrow> bool" where
  "got_listing S root cc p l' \<longleftrightarrow> (\<exists>d iv l. walk S root (path_comps p) = Inr d \<and> dir_entries S d = Inr (iv, l) \<and>
     subseq l' (plain_listing S cc iv l))"

definition got_stat :: "store \<Rightarrow> string \<Rightarrow> CryptoCore \<Rightarrow> string \<Rightarrow> FileInfo \<Rightarrow> bool" where
  "got_stat S root cc p i' \<longleftrightarrow> (\<exists>d i. walk S root (path_comps p) = Inr d \<and> st_Stat S d = Inr i \<and>
     i' = plainFileInfo i (Base (Clean p)) (tree_size cc i))"

fun op_post :: "prims \<Rightarrow> store \<Rightarrow> string \<Rightarrow> CryptoCore \<Rightarrow> sftp_op \<Rightarrow> goerr + op_val \<Rightarrow> bool" where
  "op_post P S root cc op (Inl e) \<longleftrightarrow> True"
| "op_post P S root cc (OpGet req) (Inr v) \<longleftrightarrow> (\<exists>b. v = VFile b \<and> got_file P S root cc (req_Filepath req) b)"
| "op_post P S root cc (OpPut req) (Inr v) \<longleftrightarrow> False"
| "op_post P S root cc (OpCmd req) (Inr v) \<longleftrightarrow> Filecmd_error req = None"
| "op_post P S root cc (OpList req) (Inr v) \<longleftrightarrow>
     (if req_Method req = ''List'' then \<exists>l. v = VList (Some l) \<and> got_listing S root cc (req_Filepath req) l
      else if req_Method req = ''Stat'' then \<exists>i. v = VList (Some [i]) \<and> got_stat S root cc (req_Filepath req) i
      else v = VList None)"

lemma wp_ReadFile:
  assumes "names_unique S" "is_abs p" "\<And>e. Q (Inl e)" "\<And>b. got_file P S root cc p b \<Longrightarrow> Q (Inr b)"
  shows "wp P S root cc Q (ReadFile_prog p)"
proof (cases "path_comps p" rule: rev_cases)
  case Nil
  then show ?thesis
    using assms(2,3) by (simp add: ReadFile_prog_def Clean_abs abs_path_root)
next
  case (snoc cs c)
  have can: "canonical (cs @ [c])"
    using canonical_path_comps [of p] snoc by simp
  then have p: "Clean p = abs_path (cs @ [c])" "abs_path (cs @ [c]) \<noteq> ''/''" "Dir (abs_path (cs @ [c])) = abs_path cs"
    "Base (abs_path (cs @ [c])) = c"
    using assms(2) snoc by (simp_all only: Clean_abs Dir_abs_path Base_abs_path abs_path_root) simp
  have got: "Q (Inr b)" if "walk S root cs = Inr d" "entry S d c = Inr i" "\<not> fi_isdir i" "file_data S (Join [d, fi_name i]) (sdata f)"
      "tree_enc cc be" "decryptFile P be f = Inr (Inr b, be')" for d i f be be' b
    using that snoc unfolding got_file_def by (blast intro!: assms(4) [unfolded got_file_def])
  have read: "wp P S root cc Q (if fi_isdir i then perr e else pbind (PReadFile (Join [d, fi_name i]) PRet) wrap (\<lambda>f.
      pbind (PDecrypt f PRet) wrap' pret))"
    if "walk S root cs = Inr d" "entry S d c = Inr i" for d i e wrap wrap'
    using got [OF that] by (auto simp: wp_bind assms(3) split: sum.split)
  have "is_abs (abs_path cs)" "path_comps (abs_path cs) = cs"
    using can by simp_all
  then show ?thesis
    unfolding ReadFile_prog_def Let_def p if_not_P [OF p(2)]
    by (intro wp_bindI [where R = "\<lambda>r. \<forall>d. r = Inr d \<longrightarrow> walk S root cs = Inr d", OF wp_find [OF assms(1)]])
      (auto simp: assms(3)
        intro!: wp_bindI [where R = "\<lambda>r. \<forall>i. r = Inr i \<longrightarrow> entry S _ c = Inr i", OF wp_findInDir [OF assms(1)]] read)
qed

lemma is_abs_Clean': "is_abs p \<Longrightarrow> is_abs (Clean p) \<and> path_comps (Clean p) = path_comps p"
  by (simp add: Clean_abs)

lemma wp_ReadDir:
  assumes "names_unique S" "is_abs p" "\<And>e. Q (Inl e)" "\<And>l. got_listing S root cc p l \<Longrightarrow> Q (Inr l)"
  shows "wp P S root cc Q (ReadDir_prog p)"
  unfolding ReadDir_prog_def Let_def wp_bind [of _ _ _ _ _ "find_prog _"]
proof (rule wp_find [OF assms(1)])
  fix d
  assume d: "walk S root (path_comps (Clean p)) = Inr d"
  have list: "Q (Inr l')" if "dir_entries S d = Inr (iv, l)" "subseq l' (plain_listing S cc iv l)" for iv l l'
    using that d assms(2) unfolding is_abs_Clean' [OF assms(2), THEN conjunct2]
    by (intro assms(4)) (auto simp: got_listing_def)
  have "wp P S root cc (\<lambda>r. case r of Inl e \<Rightarrow> Q (Inl (wrap e)) | Inr a \<Rightarrow> wp P S root cc Q (pret a))
      (range_prog (\<lambda>i n listing. PSize i (\<lambda>sz. pret (False, listing @ [plainFileInfo i n sz]))) iv l [])"
    if "dir_entries S d = Inr (iv, l)" "iv \<in> dir_ivs S" "iv \<noteq> []" for iv l wrap
    by (rule wp_mono [OF wp_range_list [OF that(2,3)]]) (use d in \<open>auto intro: list [OF that(1)] askedI [OF _ that(1)]\<close>)
  then show "case Inr d of Inl e \<Rightarrow> Q (Inl (Errorf ''ReadDir: %s'' [FErr (Errorf ''error finding path %s: %s'' [FStr (Clean p), FErr e])]))
    | Inr d \<Rightarrow> wp P S root cc Q (pbind (rangeInDir_prog d
        (\<lambda>i n listing. PSize i (\<lambda>sz. pret (False, listing @ [plainFileInfo i n sz]))) [])
        (\<lambda>e. Errorf ''ReadDir: %s'' [FErr (Errorf ''error listing directory %s: %s'' [FStr d, FErr e])]) pret)"
    unfolding sum.case wp_bind by (intro wp_rangeInDir) (simp_all add: assms(3))
qed (simp_all add: assms(3) is_abs_Clean' [OF assms(2)])

lemma wp_Stat:
  assumes "names_unique S" "is_abs p" "\<And>e. Q (Inl e)" "\<And>i. got_stat S root cc p i \<Longrightarrow> Q (Inr i)"
  shows "wp P S root cc Q (Stat_prog p)"
  unfolding Stat_prog_def Let_def wp_bind [of _ _ _ _ _ "find_prog _"]
  by (rule wp_find [OF assms(1)])
    (auto simp: is_abs_Clean' [OF assms(2)] wp_bind got_stat_def assms(3) split: sum.split intro!: assms(4))

lemma wp_op:
  assumes "names_unique S" "is_abs (req_Filepath (op_request op))"
  shows "wp P S root cc (op_post P S root cc op) (op_prog op)"
proof (cases op)
  case (OpGet req)
  then show ?thesis
    using assms(2) by (auto simp: wp_bind intro!: wp_ReadFile [OF assms(1)])
next
  case (OpList req)
  have l: "wp P S root cc R (pbind (ReadDir_prog (req_Filepath req)) id (\<lambda>l. pret (VList (Some l))))"
    if "\<And>e. R (Inl e)" "\<And>l. got_listing S root cc (req_Filepath req) l \<Longrightarrow> R (Inr (VList (Some l)))" for R
    using assms(2) OpList that by (auto simp: wp_bind intro!: wp_ReadDir [OF assms(1)])
  have s: "wp P S root cc R (pbind (Stat_prog (req_Filepath req)) id (\<lambda>i. pret (VList (Some [i]))))"
    if "\<And>e. R (Inl e)" "\<And>i. got_stat S root cc (req_Filepath req) i \<Longrightarrow> R (Inr (VList (Some [i])))" for R
    using assms(2) OpList that by (auto simp: wp_bind intro!: wp_Stat [OF assms(1)])
  show ?thesis
    using OpList by (auto simp: Filelist_prog_def intro!: l s)
qed (auto split: option.split)

end
