(* ===== verification/Requester.thy ===== *)
theory Requester
  imports SyncCache
begin

text \<open>
  \<^verbatim>\<open>requester/requester.go\<close> and \<^verbatim>\<open>requester/makerequest.go\<close>: calls of \<^verbatim>\<open>makeRequest\<close> hand their
  work to a pool of workers through a queue, wait for a ticket, and then wait on the ticket's
  condition variable until the reply is in the cache. Every call and every worker is a
  process with a program counter; a step of the relation is one access to shared state (a
  cache operation, a channel operation, a lock operation), and the scheduler chooses freely.
  What a process does next, given what it read, is a function that follows the branches of the
  code. The backend and the name decrypter are the relation \<open>env_answers\<close>, and the panics of the name
  decrypter are \<open>env_panics\<close>.
\<close>

section \<open>Requests\<close>

datatype workType = workNone | workReadFile | workReadDir | workDecryptName

record work =
  requestType :: workType
  arg1 :: string
  arg2 :: bytes

definition cacheErrRetryAttempts :: nat where "cacheErrRetryAttempts = 3"
definition initialCacheSize :: nat where "initialCacheSize = 1000"
definition workQueueSize :: nat where "workQueueSize = 1000"

text \<open>
  The number of workers, the hash function, the request of each call, what the backend may
  answer to a request, a value and an error, and the panic with which it ends the program instead, if it does.
  A request with neither does not return.
\<close>

record renv =
  env_workers :: nat
  env_siphash :: "u64 \<Rightarrow> u64 \<Rightarrow> bytes \<Rightarrow> u64"
  env_request :: "nat \<Rightarrow> work"
  env_answers :: "work \<Rightarrow> reply \<Rightarrow> goerr option \<Rightarrow> bool"
  env_panics :: "work \<Rightarrow> fault option"

text \<open>The key that the calling side uses, and the one the worker uses.\<close>

definition client_key :: "renv \<Rightarrow> work \<Rightarrow> string" where
  "client_key E w = (if length (arg2 w) > 0 then complexKey (env_siphash E) (arg1 w) (arg2 w) else arg1 w)"

definition worker_key :: "renv \<Rightarrow> work \<Rightarrow> string" where
  "worker_key E w =
     (if requestType w = workDecryptName then complexKey (env_siphash E) (arg1 w) (arg2 w) else arg1 w)"

text \<open>The worker's closures turn an empty value into \<^verbatim>\<open>nil\<close>.\<close>

definition reply_data :: "reply \<Rightarrow> reply option" where
  "reply_data r =
     (case r of
        RFile fileData \<Rightarrow> if length fileData > 0 then Some r else None
      | RDir dirData \<Rightarrow> if length dirData > 0 then Some r else None
      | RName decryptedName \<Rightarrow> if length decryptedName > 0 then Some r else None)"

section \<open>Calls\<close>

text \<open>
  Where a call of \<^verbatim>\<open>makeRequest\<close> is: the attempt, the collected retry errors, the number of the
  ticket it deals with.
\<close>

datatype cpc =
    CIdle
  | CTry nat "string list"
  | CSend nat "string list"
  | CWait nat "string list"
  | CTicket nat "string list" "nat option"
  | CDelete nat "string list"
  | CLock nat "string list" nat
  | CHold nat "string list" nat
  | CPark nat "string list" nat
  | CSleep nat "string list" nat
  | CWake nat "string list" nat
  | CBreak nat "string list" nat "genCacheEntry option"
  | CDone "goerr + reply"

text \<open>The top of the retry loop, with what \<^verbatim>\<open>cache.Get\<close> returned.\<close>

definition try_next :: "nat \<Rightarrow> string list \<Rightarrow> genCacheEntry option \<Rightarrow> cpc" where
  "try_next i errs cached =
     (if i \<ge> cacheErrRetryAttempts
      then CDone (Inl (Errorf ''somehow could not succeed after retries. Retry errors: %s'' [FStrs errs]))
      else case cached of
          None \<Rightarrow> CSend i errs
        | Some e \<Rightarrow> (case e_data e of Some d \<Rightarrow> CDone (Inr d) | None \<Rightarrow> CSend i errs))"

text \<open>After the select: a ticket, or \<open>None\<close> for a closed channel.\<close>

definition ticket_next :: "nat \<Rightarrow> string list \<Rightarrow> nat option \<Rightarrow> genCacheEntry option \<Rightarrow> cpc" where
  "ticket_next i errs ticket cached =
     (case cached of
        None \<Rightarrow> CTry (i + 1) (errs @ [''cache wiped before ticket could be handled''])
      | Some e \<Rightarrow>
          (case e_data e of
             Some d \<Rightarrow> CDone (Inr d)
           | None \<Rightarrow>
               (case ticket of
                  None \<Rightarrow>
                    CDelete i (errs @ [if e_err e \<noteq> None then ''retrying because of cached error''
                                       else ''empty data for path in cache''])
                | Some t \<Rightarrow> CLock i errs t)))"

text \<open>One turn of the waiting loop under the ticket's lock.\<close>

definition hold_next :: "nat \<Rightarrow> string list \<Rightarrow> nat \<Rightarrow> genCacheEntry option \<Rightarrow> cpc" where
  "hold_next i errs t cached =
     (case cached of
        None \<Rightarrow> CBreak i errs t None
      | Some e \<Rightarrow>
          if (e_data e \<noteq> None \<or> e_err e \<noteq> None) \<or> (t = 0 \<or> e_locker e \<noteq> t)
          then CBreak i errs t (Some e)
          else CPark i errs t)"

text \<open>After the unlock.\<close>

definition break_next :: "nat \<Rightarrow> string list \<Rightarrow> genCacheEntry option \<Rightarrow> cpc" where
  "break_next i errs cached =
     (case cached of
        None \<Rightarrow> CTry (i + 1) (errs @ [''cache entry deleted while waiting''])
      | Some e \<Rightarrow>
          (case (e_data e, e_err e) of
             (None, None) \<Rightarrow> CTry (i + 1) (errs @ [''data missing by the time request completed''])
           | (_, Some err) \<Rightarrow> CDone (Inl err)
           | (Some d, None) \<Rightarrow> CDone (Inr d)))"

section \<open>Workers\<close>

datatype wpc =
    WIdle
  | WTake nat
  | WSendOwn nat
  | WSendOther nat nat
  | WClose nat
  | WAcq nat
  | WReq nat
  | WSet nat "reply option" "goerr option"
  | WSignal nat

text \<open>What \<^verbatim>\<open>performRequestAndCache\<close> does with the entry that was there before its own.\<close>

definition look_next :: "nat \<Rightarrow> genCacheEntry option \<Rightarrow> wpc" where
  "look_next c cacheEntry =
     (case cacheEntry of
        None \<Rightarrow> WSendOwn c
      | Some e \<Rightarrow> if e_data e \<noteq> None \<or> e_err e \<noteq> None then WClose c else WSendOther c (e_locker e))"

section \<open>The system\<close>

datatype actor = ClientA nat | WorkerA nat

record rstate =
  r_cache :: "workType \<Rightarrow> syncCache"
  r_queue :: "nat list"
  r_clients :: "nat \<Rightarrow> cpc"
  r_workers :: "nat \<Rightarrow> wpc"
  r_locks :: "nat \<Rightarrow> actor option"

definition Requester_New :: rstate where
  "Requester_New = \<lparr>r_cache = (\<lambda>_. newSyncCache initialCacheSize), r_queue = [], r_clients = (\<lambda>_. CIdle),
     r_workers = (\<lambda>_. WIdle), r_locks = (\<lambda>_. None)\<rparr>"

definition set_client :: "rstate \<Rightarrow> nat \<Rightarrow> cpc \<Rightarrow> rstate" where
  "set_client s c pc = s\<lparr>r_clients := (r_clients s)(c := pc)\<rparr>"

definition set_worker :: "rstate \<Rightarrow> nat \<Rightarrow> wpc \<Rightarrow> rstate" where
  "set_worker s w pc = s\<lparr>r_workers := (r_workers s)(w := pc)\<rparr>"

definition set_lock :: "rstate \<Rightarrow> nat \<Rightarrow> actor option \<Rightarrow> rstate" where
  "set_lock s t a = s\<lparr>r_locks := (r_locks s)(t := a)\<rparr>"

definition set_cache :: "rstate \<Rightarrow> workType \<Rightarrow> syncCache \<Rightarrow> rstate" where
  "set_cache s ty m = s\<lparr>r_cache := (r_cache s)(ty := m)\<rparr>"

text \<open>The cache entry that a call looks at.\<close>

definition client_entry :: "renv \<Rightarrow> rstate \<Rightarrow> nat \<Rightarrow> genCacheEntry option" where
  "client_entry E s c =
     sc_Get (r_cache s (requestType (env_request E c))) (client_key E (env_request E c))"

text \<open>\<^verbatim>\<open>Broadcast\<close> wakes the calls that sleep on the ticket.\<close>

definition wake_all :: "nat \<Rightarrow> (nat \<Rightarrow> cpc) \<Rightarrow> nat \<Rightarrow> cpc" where
  "wake_all t cl c = (case cl c of CSleep i errs u \<Rightarrow> if u = t then CWake i errs t else cl c | _ \<Rightarrow> cl c)"

definition receive_closed :: "cpc \<Rightarrow> cpc" where
  "receive_closed pc = (case pc of CWait i errs \<Rightarrow> CTicket i errs None | _ \<Rightarrow> pc)"

inductive run_step :: "renv \<Rightarrow> rstate \<Rightarrow> rstate \<Rightarrow> bool" for E where
  try_cache: "r_clients s c = CTry i errs \<Longrightarrow>
    run_step E s (set_client s c (try_next i errs (client_entry E s c)))"
| send_work: "r_clients s c = CSend i errs \<Longrightarrow> length (r_queue s) < workQueueSize \<Longrightarrow>
    run_step E s (set_client (s\<lparr>r_queue := r_queue s @ [c]\<rparr>) c (CWait i errs))"
| use_ticket: "r_clients s c = CTicket i errs t \<Longrightarrow>
    run_step E s (set_client s c (ticket_next i errs t (client_entry E s c)))"
| delete_entry: "r_clients s c = CDelete i errs \<Longrightarrow> w = env_request E c \<Longrightarrow>
    run_step E s (set_client (set_cache s (requestType w) (sc_Delete (r_cache s (requestType w)) (client_key E w)))
      c (CTry (i + 1) errs))"
| lock_ticket: "r_clients s c = CLock i errs t \<or> r_clients s c = CWake i errs t \<Longrightarrow> r_locks s t = None \<Longrightarrow>
    run_step E s (set_lock (set_client s c (CHold i errs t)) t (Some (ClientA c)))"
| check_entry: "r_clients s c = CHold i errs t \<Longrightarrow>
    run_step E s (set_client s c (hold_next i errs t (client_entry E s c)))"
| wait_ticket: "r_clients s c = CPark i errs t \<Longrightarrow>
    run_step E s (set_lock (set_client s c (CSleep i errs t)) t None)"
| unlock_ticket: "r_clients s c = CBreak i errs t e \<Longrightarrow>
    run_step E s (set_lock (set_client s c (break_next i errs e)) t None)"
| take_work: "1 \<le> n \<Longrightarrow> n \<le> env_workers E \<Longrightarrow> r_workers s n = WIdle \<Longrightarrow> r_queue s = c # q \<Longrightarrow>
    run_step E s (set_worker (s\<lparr>r_queue := q\<rparr>) n (WTake c))"
| look_up: "r_workers s n = WTake c \<Longrightarrow> w = env_request E c \<Longrightarrow>
    sc_GetOrInsert (r_cache s (requestType w)) (worker_key E w) \<lparr>e_data = None, e_err = None, e_locker = n\<rparr> = (old, m) \<Longrightarrow>
    run_step E s (set_worker (set_cache s (requestType w) m) n (look_next c old))"
| send_own: "r_workers s n = WSendOwn c \<Longrightarrow> r_clients s c = CWait i errs \<Longrightarrow>
    run_step E s (set_worker (set_client s c (CTicket i errs (Some n))) n (WAcq c))"
| send_other: "r_workers s n = WSendOther c t \<Longrightarrow> r_clients s c = CWait i errs \<Longrightarrow>
    run_step E s (set_worker (set_client s c (CTicket i errs (Some t))) n WIdle)"
| close_chan: "r_workers s n = WClose c \<Longrightarrow>
    run_step E s (set_worker (set_client s c (receive_closed (r_clients s c))) n WIdle)"
| lock_own: "r_workers s n = WAcq c \<Longrightarrow> r_locks s n = None \<Longrightarrow>
    run_step E s (set_lock (set_worker s n (WReq c)) n (Some (WorkerA n)))"
| request: "r_workers s n = WReq c \<Longrightarrow> env_answers E (env_request E c) r err \<Longrightarrow>
    run_step E s (set_worker s n (WSet c (reply_data r) err))"
| store_reply: "r_workers s n = WSet c d err \<Longrightarrow> w = env_request E c \<Longrightarrow>
    run_step E s (set_worker (set_cache s (requestType w)
      (sc_Set (r_cache s (requestType w)) (worker_key E w) \<lparr>e_data = d, e_err = err, e_locker = 0\<rparr>)) n (WSignal c))"
| broadcast: "r_workers s n = WSignal c \<Longrightarrow>
    run_step E s (set_lock (set_worker (s\<lparr>r_clients := wake_all n (r_clients s)\<rparr>) n WIdle) n None)"

text \<open>
  A worker that makes a request may panic, because the decrypter does; nothing recovers it, and the program
  ends. The relations here are the steps before that.
\<close>

definition worker_panics :: "renv \<Rightarrow> rstate \<Rightarrow> fault \<Rightarrow> bool" where
  "worker_panics E s f \<longleftrightarrow> (\<exists>n c. r_workers s n = WReq c \<and> env_panics E (env_request E c) = Some f)"

text \<open>
  What comes from outside: a new call (the request type \<^verbatim>\<open>workNone\<close> would panic, and no public
  method uses it), the second half of \<^verbatim>\<open>ClearCache\<close> on one of the caches
  with whatever keys were collected, and, if timers may fire, the timeout of a call.
\<close>

inductive env_step :: "renv \<Rightarrow> bool \<Rightarrow> rstate \<Rightarrow> rstate \<Rightarrow> bool" for E timers where
  new_call: "r_clients s c = CIdle \<Longrightarrow> requestType (env_request E c) \<noteq> workNone \<Longrightarrow>
    env_step E timers s (set_client s c (CTry 0 []))"
| clear_cache: "env_step E timers s (set_cache s ty (ClearCache_delete (r_cache s ty) K))"
| time_out: "timers \<Longrightarrow> r_clients s c = CWait i errs \<Longrightarrow>
    env_step E timers s (set_client s c (CDone (Inl (Errorf ''nonresponsive work queue'' []))))"

inductive reachable :: "renv \<Rightarrow> bool \<Rightarrow> rstate \<Rightarrow> bool" for E timers where
  start: "reachable E timers Requester_New"
| run: "reachable E timers s \<Longrightarrow> run_step E s s' \<Longrightarrow> reachable E timers s'"
| env: "reachable E timers s \<Longrightarrow> env_step E timers s s' \<Longrightarrow> reachable E timers s'"

text \<open>The public methods, on the outcome of their call; a wrong dynamic type would panic.\<close>

definition Requester_ReadFile :: "goerr + reply \<Rightarrow> bytes result" where
  "Requester_ReadFile r =
     (case r of Inl e \<Rightarrow> Inl (Err e) | Inr (RFile d) \<Rightarrow> Inr d | Inr _ \<Rightarrow> Inl (Panic (LibPanic ''interface conversion'')))"

definition Requester_ReadDir :: "goerr + reply \<Rightarrow> FileInfo list result" where
  "Requester_ReadDir r =
     (case r of Inl e \<Rightarrow> Inl (Err e) | Inr (RDir d) \<Rightarrow> Inr d | Inr _ \<Rightarrow> Inl (Panic (LibPanic ''interface conversion'')))"

definition Requester_DecryptName :: "goerr + reply \<Rightarrow> string result" where
  "Requester_DecryptName r =
     (case r of Inl e \<Rightarrow> Inl (Err e) | Inr (RName d) \<Rightarrow> Inr d | Inr _ \<Rightarrow> Inl (Panic (LibPanic ''interface conversion'')))"

end
