(* ===== verification/RequesterInv.thy ===== *)
theory RequesterInv
  imports Requester
begin

text \<open>
  What the request workers and the waiting calls guarantee, for every interleaving: locks are
  held by whom the program counters say, a sleeping call always has a worker that will wake
  it, every reply comes from the backend, no call waits forever as long as no timer fires, and
  a step relation without new calls terminates.
\<close>

lemmas upd_defs = set_client_def set_worker_def set_lock_def set_cache_def

lemma upd_simps [simp]:
  "r_clients (set_client s c pc) = (r_clients s)(c := pc)" "r_clients (set_worker s n wp) = r_clients s"
  "r_clients (set_lock s t a) = r_clients s" "r_clients (set_cache s ty m) = r_clients s"
  "r_workers (set_client s c pc) = r_workers s" "r_workers (set_worker s n wp) = (r_workers s)(n := wp)"
  "r_workers (set_lock s t a) = r_workers s" "r_workers (set_cache s ty m) = r_workers s"
  "r_locks (set_client s c pc) = r_locks s" "r_locks (set_worker s n wp) = r_locks s"
  "r_locks (set_lock s t a) = (r_locks s)(t := a)" "r_locks (set_cache s ty m) = r_locks s"
  "r_cache (set_client s c pc) = r_cache s" "r_cache (set_worker s n wp) = r_cache s"
  "r_cache (set_lock s t a) = r_cache s" "r_cache (set_cache s ty m) = (r_cache s)(ty := m)"
  "r_queue (set_client s c pc) = r_queue s" "r_queue (set_worker s n wp) = r_queue s"
  "r_queue (set_lock s t a) = r_queue s" "r_queue (set_cache s ty m) = r_queue s"
  by (simp_all add: upd_defs)

section \<open>Locks\<close>

fun held_c :: "cpc \<Rightarrow> nat option" where
  "held_c (CHold i errs t) = Some t"
| "held_c (CPark i errs t) = Some t"
| "held_c (CBreak i errs t e) = Some t"
| "held_c _ = None"

fun held_w :: "wpc \<Rightarrow> bool" where
  "held_w (WReq c) \<longleftrightarrow> True"
| "held_w (WSet c d e) \<longleftrightarrow> True"
| "held_w (WSignal c) \<longleftrightarrow> True"
| "held_w _ \<longleftrightarrow> False"

text \<open>
  The lock table agrees with who holds what: \<open>hc\<close> tells which ticket a call has locked, \<open>hw\<close>
  which workers have locked their own.
\<close>

definition lock_ok :: "(nat \<Rightarrow> actor option) \<Rightarrow> (nat \<Rightarrow> nat option) \<Rightarrow> (nat \<Rightarrow> bool) \<Rightarrow> bool" where
  "lock_ok L hc hw \<longleftrightarrow>
     (\<forall>t c. L t = Some (ClientA c) \<longleftrightarrow> hc c = Some t) \<and> (\<forall>t n. L t = Some (WorkerA n) \<longleftrightarrow> n = t \<and> hw n)"

lemma lock_okD:
  assumes "lock_ok L hc hw"
  shows "L t = Some (ClientA c) \<longleftrightarrow> hc c = Some t" "L t = Some (WorkerA n) \<longleftrightarrow> n = t \<and> hw n"
  using assms by (simp_all add: lock_ok_def)

lemma lock_ok_client_acquires:
  assumes ok: "lock_ok L hc hw" and free: "L t = None" and c: "hc c = None"
  shows "lock_ok (L(t := Some (ClientA c))) (hc(c := Some t)) hw"
proof -
  have "hc x \<noteq> Some t" "\<not> hw t" for x
    using lock_okD [OF ok, of t] free by auto
  then show ?thesis
    using c by (auto simp: lock_ok_def lock_okD [OF ok] simp del: not_None_eq)
qed

lemma lock_ok_client_releases:
  assumes ok: "lock_ok L hc hw" and c: "hc c = Some t"
  shows "lock_ok (L(t := None)) (hc(c := None)) hw"
proof -
  have L: "L t = Some (ClientA c)"
    using lock_okD(1) [OF ok, of t c] c by simp
  have "hc x \<noteq> Some t" if "x \<noteq> c" for x
    using lock_okD(1) [OF ok, of t x] that L by simp
  moreover have "\<not> hw t"
    using lock_okD(2) [OF ok, of t t] L by simp
  ultimately show ?thesis
    using c by (auto simp: lock_ok_def lock_okD [OF ok])
qed

lemma lock_ok_worker_acquires:
  assumes ok: "lock_ok L hc hw" and free: "L n = None"
  shows "lock_ok (L(n := Some (WorkerA n))) hc (hw(n := True))"
proof -
  have "hc x \<noteq> Some n" for x
    using lock_okD(1) [OF ok, of n x] free by simp
  then show ?thesis
    by (auto simp: lock_ok_def lock_okD [OF ok] simp del: not_None_eq)
qed

lemma lock_ok_worker_releases:
  assumes ok: "lock_ok L hc hw" and n: "hw n"
  shows "lock_ok (L(n := None)) hc (hw(n := False))"
proof -
  have "L n = Some (WorkerA n)"
    using lock_okD(2) [OF ok, of n n] n by simp
  then have "hc x \<noteq> Some n" for x
    using lock_okD(1) [OF ok, of n x] by simp
  then show ?thesis
    by (auto simp: lock_ok_def lock_okD [OF ok] simp del: not_None_eq)
qed

definition lock_inv :: "rstate \<Rightarrow> bool" where
  "lock_inv s \<longleftrightarrow> lock_ok (r_locks s) (\<lambda>c. held_c (r_clients s c)) (\<lambda>n. held_w (r_workers s n))"

lemma held_next [simp]:
  "held_c (try_next i errs e) = None" "held_c (ticket_next i errs tk e) = None"
  "held_c (break_next i errs e) = None" "held_c (hold_next i errs t e) = Some t"
  "held_c (receive_closed pc) = held_c pc" "\<not> held_w (look_next c old)"
  by (auto simp: try_next_def ticket_next_def break_next_def hold_next_def receive_closed_def look_next_def
      split: option.splits cpc.splits)

lemma held_wake_all [simp]: "held_c (wake_all t cl c) = held_c (cl c)"
  by (simp add: wake_all_def split: cpc.splits)

lemma held_upd: "(\<lambda>x. h ((f(c := y)) x)) = (\<lambda>x. h (f x))(c := h y)"
  by auto

lemma fun_upd_same: "f c = y \<Longrightarrow> f(c := y) = f"
  by auto

lemma lock_inv_cong:
  "lock_inv s \<Longrightarrow> r_locks s' = r_locks s \<Longrightarrow> (\<And>c. held_c (r_clients s' c) = held_c (r_clients s c)) \<Longrightarrow>
   (\<And>n. held_w (r_workers s' n) = held_w (r_workers s n)) \<Longrightarrow> lock_inv s'"
  by (simp add: lock_inv_def)

lemma lock_inv_start: "lock_inv Requester_New"
  by (simp add: lock_inv_def lock_ok_def Requester_New_def)

lemma lock_inv_run: "run_step E s s' \<Longrightarrow> lock_inv s \<Longrightarrow> lock_inv s'"
proof (induction rule: run_step.induct)
  case (lock_ticket s c i errs t)
  then show ?case
    unfolding lock_inv_def upd_simps held_upd held_c.simps by (auto intro!: lock_ok_client_acquires)
next
  case (wait_ticket s c i errs t)
  then show ?case
    unfolding lock_inv_def upd_simps held_upd held_c.simps by (intro lock_ok_client_releases) simp_all
next
  case (unlock_ticket s c i errs t e)
  then show ?case
    unfolding lock_inv_def upd_simps held_upd held_next by (intro lock_ok_client_releases) simp_all
next
  case (lock_own s n c)
  then show ?case
    unfolding lock_inv_def upd_simps held_upd held_w.simps by (intro lock_ok_worker_acquires)
next
  case (broadcast s n c)
  then show ?case
    unfolding lock_inv_def upd_simps held_upd held_w.simps
    by (simp add: lock_ok_worker_releases)
qed (erule lock_inv_cong; auto)+

lemma lock_inv_env: "env_step E tm s s' \<Longrightarrow> lock_inv s \<Longrightarrow> lock_inv s'"
  by (induction rule: env_step.induct) (erule lock_inv_cong; auto)+

section \<open>Requests in flight and sleeping calls\<close>

text \<open>The request a worker has announced in the cache and not yet answered.\<close>

fun flight :: "wpc \<Rightarrow> nat option" where
  "flight (WSendOwn c) = Some c"
| "flight (WAcq c) = Some c"
| "flight (WReq c) = Some c"
| "flight (WSet c d e) = Some c"
| "flight _ = None"

definition busy :: "wpc \<Rightarrow> bool" where
  "busy wp \<longleftrightarrow> flight wp \<noteq> None \<or> (\<exists>c. wp = WSignal c)"

definition in_flight :: "genCacheEntry \<Rightarrow> bool" where
  "in_flight e \<longleftrightarrow> e_data e = None \<and> e_err e = None \<and> e_locker e \<noteq> 0"

text \<open>An entry without a reply belongs to the request of the worker whose number it carries.\<close>

definition flight_ok :: "renv \<Rightarrow> (nat \<Rightarrow> wpc) \<Rightarrow> workType \<Rightarrow> string \<Rightarrow> genCacheEntry \<Rightarrow> bool" where
  "flight_ok E ws ty k e \<longleftrightarrow> (in_flight e \<longrightarrow>
     (\<exists>c. flight (ws (e_locker e)) = Some c \<and> requestType (env_request E c) = ty \<and> worker_key E (env_request E c) = k))"

definition flight_inv :: "renv \<Rightarrow> rstate \<Rightarrow> bool" where
  "flight_inv E s \<longleftrightarrow> (\<forall>ty k e. sc_Get (r_cache s ty) k = Some e \<longrightarrow> flight_ok E (r_workers s) ty k e)"

lemma flight_invD: "flight_inv E s \<Longrightarrow> sc_Get (r_cache s ty) k = Some e \<Longrightarrow> flight_ok E (r_workers s) ty k e"
  by (simp add: flight_inv_def)

lemma flight_ok_idle_worker:
  "flight_ok E ws ty k e \<Longrightarrow> flight (ws n) = None \<Longrightarrow> flight_ok E (ws(n := wp)) ty k e"
  by (auto simp: flight_ok_def)

lemma flight_inv_subset:
  assumes "flight_inv E s"
    and "\<And>ty k e. sc_Get (r_cache s' ty) k = Some e \<Longrightarrow> sc_Get (r_cache s ty) k = Some e"
    and "\<And>n. flight (r_workers s n) = None \<or> flight (r_workers s' n) = flight (r_workers s n)"
  shows "flight_inv E s'"
  unfolding flight_inv_def
proof (intro allI impI)
  fix ty k e
  assume "sc_Get (r_cache s' ty) k = Some e"
  then have "flight_ok E (r_workers s) ty k e"
    using assms(1,2) flight_invD by blast
  then show "flight_ok E (r_workers s') ty k e"
    using assms(3) [of "e_locker e"] by (auto simp: flight_ok_def)
qed

lemma look_next_flight: "flight (look_next c old) = (if old = None then Some c else None)"
  by (simp add: look_next_def split: option.splits)

lemma flight_inv_look_up:
  assumes inv: "flight_inv E s" and n: "r_workers s n = WTake c" and w: "w = env_request E c"
    and get: "sc_GetOrInsert (r_cache s (requestType w)) (worker_key E w)
        \<lparr>e_data = None, e_err = None, e_locker = n\<rparr> = (old, m)"
  shows "flight_inv E (set_worker (set_cache s (requestType w) m) n (look_next c old))"
proof -
  have old: "old = sc_Get (r_cache s (requestType w)) (worker_key E w)"
    using get sc_simps(5) by (metis fst_conv)
  have m: "sc_Get m k = (if k = worker_key E w
      then Some (case old of None \<Rightarrow> \<lparr>e_data = None, e_err = None, e_locker = n\<rparr> | Some e \<Rightarrow> e)
      else sc_Get (r_cache s (requestType w)) k)" for k
    using get sc_simps(4) old by (metis snd_conv)
  have idle: "flight (r_workers s n) = None"
    using n by simp
  have "flight_ok E ((r_workers s)(n := look_next c old)) ty k e"
    if e: "sc_Get (((r_cache s)(requestType w := m)) ty) k = Some e" for ty k e
  proof (cases "ty = requestType w \<and> k = worker_key E w \<and> old = None")
    case True
    then show ?thesis
      using e m w by (auto simp: flight_ok_def look_next_flight)
  next
    case False
    then have "sc_Get (r_cache s ty) k = Some e"
      using e m old by (auto split: if_splits option.splits)
    then show ?thesis
      using flight_invD [OF inv] flight_ok_idle_worker idle by blast
  qed
  then show ?thesis
    by (simp add: flight_inv_def)
qed

lemma flight_inv_store_reply:
  assumes inv: "flight_inv E s" and n: "r_workers s n = WSet c d err" and w: "w = env_request E c"
  shows "flight_inv E (set_worker (set_cache s (requestType w)
      (sc_Set (r_cache s (requestType w)) (worker_key E w) \<lparr>e_data = d, e_err = err, e_locker = 0\<rparr>)) n (WSignal c))"
proof -
  have "flight_ok E ((r_workers s)(n := WSignal c)) ty k e"
    if e: "sc_Get (r_cache s ty) k = Some e" and other: "\<not> (ty = requestType w \<and> k = worker_key E w)" for ty k e
    using flight_invD [OF inv e] n w other by (auto simp: flight_ok_def)
  then show ?thesis
    by (auto simp: flight_inv_def flight_ok_def in_flight_def split: if_splits)
qed

lemma flight_inv_start: "flight_inv E Requester_New"
  by (simp add: flight_inv_def Requester_New_def)

lemma flight_inv_run: "run_step E s s' \<Longrightarrow> flight_inv E s \<Longrightarrow> flight_inv E s'"
proof (induction rule: run_step.induct)
  case (look_up s n c w old m)
  then show ?case by (intro flight_inv_look_up)
next
  case (store_reply s n c d err w)
  then show ?case by (intro flight_inv_store_reply)
qed (erule flight_inv_subset; auto split: if_splits)+

lemma flight_inv_env: "env_step E tm s s' \<Longrightarrow> flight_inv E s \<Longrightarrow> flight_inv E s'"
  by (induction rule: env_step.induct) (erule flight_inv_subset; auto split: if_splits)+

text \<open>
  A call that is about to sleep, or sleeps, on a ticket does so while the worker of that ticket
  still has to broadcast: no wakeup is lost.
\<close>

definition sleep_ok :: "(nat \<Rightarrow> wpc) \<Rightarrow> cpc \<Rightarrow> bool" where
  "sleep_ok ws pc \<longleftrightarrow>
     (case pc of CPark i errs t \<Rightarrow> flight (ws t) \<noteq> None | CSleep i errs t \<Rightarrow> busy (ws t) | _ \<Rightarrow> True)"

definition sleep_inv :: "rstate \<Rightarrow> bool" where
  "sleep_inv s \<longleftrightarrow> (\<forall>c. sleep_ok (r_workers s) (r_clients s c))"

lemma sleep_invD: "sleep_inv s \<Longrightarrow> sleep_ok (r_workers s) (r_clients s c)"
  by (simp add: sleep_inv_def)

lemma sleep_ok_next [simp]:
  "sleep_ok ws (try_next i errs e)" "sleep_ok ws (ticket_next i errs tk e)" "sleep_ok ws (break_next i errs e)"
  "sleep_ok ws CIdle" "sleep_ok ws (CTry i errs)" "sleep_ok ws (CWait i errs)" "sleep_ok ws (CTicket i errs tk)"
  "sleep_ok ws (CHold i errs t)" "sleep_ok ws (CDone r)" "sleep_ok ws (CSend i errs)" "sleep_ok ws (CDelete i errs)"
  "sleep_ok ws (CLock i errs t)" "sleep_ok ws (CSleep i errs t) = busy (ws t)"
  by (auto simp: sleep_ok_def try_next_def ticket_next_def break_next_def split: option.splits)

lemma sleep_ok_receive_closed [simp]: "sleep_ok ws pc \<Longrightarrow> sleep_ok ws (receive_closed pc)"
  by (cases pc) (simp_all add: receive_closed_def)

lemma sleep_ok_worker:
  "sleep_ok ws pc \<Longrightarrow> (flight (ws n) \<noteq> None \<Longrightarrow> flight wp \<noteq> None) \<Longrightarrow> (busy (ws n) \<Longrightarrow> busy wp) \<Longrightarrow>
   sleep_ok (ws(n := wp)) pc"
  by (auto simp: sleep_ok_def split: cpc.splits)

lemma sleep_inv_client:
  "sleep_inv s \<Longrightarrow> sleep_ok (r_workers s) pc \<Longrightarrow> sleep_inv (set_client s c pc)"
  by (simp add: sleep_inv_def)

lemma sleep_inv_worker:
  assumes "sleep_inv s" "flight (r_workers s n) \<noteq> None \<Longrightarrow> flight wp \<noteq> None" "busy (r_workers s n) \<Longrightarrow> busy wp"
  shows "sleep_inv (set_worker s n wp)"
  using assms unfolding sleep_inv_def upd_simps by (intro allI sleep_ok_worker) blast+

lemma sleep_inv_idle_worker: "sleep_inv s \<Longrightarrow> \<not> busy (r_workers s n) \<Longrightarrow> sleep_inv (set_worker s n wp)"
  by (rule sleep_inv_worker) (auto simp: busy_def)

lemma sleep_inv_rest [simp]:
  "sleep_inv (set_cache s ty m) = sleep_inv s" "sleep_inv (set_lock s t a) = sleep_inv s"
  "sleep_inv (s\<lparr>r_queue := q\<rparr>) = sleep_inv s"
  by (simp_all add: sleep_inv_def)

lemma hold_next_park:
  assumes "flight_inv E s"
  shows "sleep_ok (r_workers s) (hold_next i errs t (client_entry E s c))"
proof (cases "client_entry E s c")
  case None
  then show ?thesis by (simp add: hold_next_def sleep_ok_def)
next
  case (Some e)
  then show ?thesis
    using flight_invD [OF assms, of _ _ e]
    by (fastforce simp: hold_next_def sleep_ok_def client_entry_def flight_ok_def in_flight_def)
qed

lemma busy_simps [simp]:
  "busy (WSendOwn c)" "busy (WAcq c)" "busy (WReq c)" "busy (WSet c d e)" "busy (WSignal c)"
  "\<not> busy WIdle" "\<not> busy (WTake c)" "\<not> busy (WSendOther c t)" "\<not> busy (WClose c)"
  by (simp_all add: busy_def)

lemma sleep_inv_start: "sleep_inv Requester_New"
  by (simp add: sleep_inv_def Requester_New_def)

lemma sleep_inv_store_reply:
  assumes "sleep_inv s" "lock_inv s" "r_workers s n = WSet c d err" "r_clients s' = r_clients s"
    "r_workers s' = (r_workers s)(n := WSignal c)"
  shows "sleep_inv s'"
  unfolding sleep_inv_def assms(4,5)
proof
  fix x
  have "held_c (r_clients s x) \<noteq> Some n"
  proof
    assume "held_c (r_clients s x) = Some n"
    then have "r_locks s n = Some (ClientA x)"
      using assms(2) unfolding lock_inv_def by (simp add: lock_okD(1))
    moreover have "r_locks s n = Some (WorkerA n)"
      using assms(2,3) unfolding lock_inv_def by (simp add: lock_okD(2))
    ultimately show False by simp
  qed
  then show "sleep_ok ((r_workers s)(n := WSignal c)) (r_clients s x)"
    using sleep_invD [OF assms(1), of x] by (auto simp: sleep_ok_def split: cpc.splits)
qed

lemma sleep_inv_broadcast:
  assumes "sleep_inv s" "r_workers s n = WSignal c" "r_clients s' = wake_all n (r_clients s)"
    "r_workers s' = (r_workers s)(n := WIdle)"
  shows "sleep_inv s'"
  unfolding sleep_inv_def assms(3,4)
proof
  fix x
  show "sleep_ok ((r_workers s)(n := WIdle)) (wake_all n (r_clients s) x)"
    using sleep_invD [OF assms(1), of x] assms(2) by (auto simp: sleep_ok_def wake_all_def split: cpc.splits)
qed

lemma sleep_inv_run:
  assumes "run_step E s s'" "lock_inv s" "flight_inv E s" "sleep_inv s"
  shows "sleep_inv s'"
  using assms
proof (induction rule: run_step.induct)
  case (check_entry s c i errs t)
  then show ?case by (intro sleep_inv_client hold_next_park)
next
  case (wait_ticket s c i errs t)
  then have "busy (r_workers s t)"
    using sleep_invD [of s c] by (simp add: sleep_ok_def busy_def)
  with wait_ticket show ?case by (simp add: sleep_inv_client)
next
  case (store_reply s n c d err w)
  show ?case by (rule sleep_inv_store_reply [of s n c d err]) (use store_reply in simp_all)
next
  case (broadcast s n c)
  show ?case by (rule sleep_inv_broadcast [of s n c]) (use broadcast in simp_all)
qed (simp_all add: sleep_inv_client sleep_inv_worker sleep_inv_idle_worker sleep_invD)

lemma sleep_inv_env: "env_step E tm s s' \<Longrightarrow> sleep_inv s \<Longrightarrow> sleep_inv s'"
  by (induction rule: env_step.induct) (simp_all add: sleep_inv_def)

end
