(* ===== verification/RequesterLive.thy ===== *)
theory RequesterLive
  imports RequesterInv
begin

text \<open>
  Progress of the requester: every waiting call is known to the queue or to one worker, some
  step is possible as long as a call has not returned, and the number of steps is bounded, so
  that every call returns. The bound needs no fairness and holds while caches are cleared.
\<close>

section \<open>Who waits is served\<close>

text \<open>The call whose response channel a worker still has to use.\<close>

fun mention :: "wpc \<Rightarrow> nat option" where
  "mention (WTake c) = Some c"
| "mention (WSendOwn c) = Some c"
| "mention (WSendOther c t) = Some c"
| "mention (WClose c) = Some c"
| "mention _ = None"

fun waiting :: "cpc \<Rightarrow> bool" where
  "waiting (CWait i errs) \<longleftrightarrow> True"
| "waiting _ \<longleftrightarrow> False"

definition pend_ok :: "nat list \<Rightarrow> (nat \<Rightarrow> nat option) \<Rightarrow> (nat \<Rightarrow> bool) \<Rightarrow> bool" where
  "pend_ok q men wt \<longleftrightarrow> distinct q \<and> (\<forall>c. wt c \<longleftrightarrow> c \<in> set q \<or> (\<exists>n. men n = Some c)) \<and>
     (\<forall>n c. men n = Some c \<longrightarrow> c \<notin> set q) \<and> (\<forall>n m c. men n = Some c \<longrightarrow> men m = Some c \<longrightarrow> n = m)"

lemma pend_ok_send:
  assumes "pend_ok q men wt" "\<not> wt c"
  shows "pend_ok (q @ [c]) men (wt(c := True))"
  using assms unfolding pend_ok_def by auto

lemma pend_ok_take:
  assumes "pend_ok (c # q) men wt" "men n = None"
  shows "pend_ok q (men(n := Some c)) wt"
  using assms unfolding pend_ok_def by (auto split: if_splits) (metis option.distinct(1))

lemma pend_ok_serve:
  assumes "pend_ok q men wt" "men n = Some c"
  shows "pend_ok q (men(n := None)) (wt(c := False))"
proof -
  have "m = n" if "men m = Some c" for m
    using assms that unfolding pend_ok_def by blast
  then show ?thesis
    using assms unfolding pend_ok_def by (auto split: if_splits) (metis option.inject)
qed

definition pend_inv :: "rstate \<Rightarrow> bool" where
  "pend_inv s \<longleftrightarrow> pend_ok (r_queue s) (\<lambda>n. mention (r_workers s n)) (\<lambda>c. waiting (r_clients s c))"

lemma pend_inv_cong:
  "pend_inv s \<Longrightarrow> r_queue s' = r_queue s \<Longrightarrow> (\<And>c. waiting (r_clients s' c) = waiting (r_clients s c)) \<Longrightarrow>
   (\<And>n. mention (r_workers s' n) = mention (r_workers s n)) \<Longrightarrow> pend_inv s'"
  by (simp add: pend_inv_def)

lemma waiting_next [simp]:
  "\<not> waiting (try_next i errs e)" "\<not> waiting (ticket_next i errs tk e)"
  "\<not> waiting (break_next i errs e)" "\<not> waiting (hold_next i errs t e)"
  "\<not> waiting (receive_closed pc)" "mention (look_next c old) = Some c"
  by (auto simp: try_next_def ticket_next_def break_next_def hold_next_def receive_closed_def look_next_def
      split: option.splits cpc.splits)

lemma waiting_wake_all [simp]: "waiting (wake_all t cl c) = waiting (cl c)"
  by (simp add: wake_all_def split: cpc.splits)

lemma pend_inv_start: "pend_inv Requester_New"
  by (simp add: pend_inv_def pend_ok_def Requester_New_def)

lemma pend_inv_serve:
  assumes "pend_inv s" "mention (r_workers s n) = Some c" "\<not> waiting pc" "mention wp = None"
  shows "pend_inv (set_worker (set_client s c pc) n wp)"
  using pend_ok_serve [OF assms(1) [unfolded pend_inv_def], of n c] assms(2-)
  unfolding pend_inv_def upd_simps held_upd by simp

lemma pend_inv_run: "run_step E s s' \<Longrightarrow> pend_inv s \<Longrightarrow> pend_inv s'"
proof (induction rule: run_step.induct)
  case (send_work s c i errs)
  then have "pend_ok (r_queue s @ [c]) (\<lambda>n. mention (r_workers s n)) ((\<lambda>c. waiting (r_clients s c))(c := True))"
    by (intro pend_ok_send) (simp_all add: pend_inv_def)
  then show ?case unfolding pend_inv_def upd_simps held_upd by simp
next
  case (take_work n s c q)
  then have "pend_ok q ((\<lambda>n. mention (r_workers s n))(n := Some c)) (\<lambda>c. waiting (r_clients s c))"
    by (intro pend_ok_take) (simp_all add: pend_inv_def)
  then show ?case unfolding pend_inv_def upd_simps held_upd by simp
next
  case (send_own s n c i errs)
  then show ?case by (intro pend_inv_serve) simp_all
next
  case (send_other s n c t i errs)
  then show ?case by (intro pend_inv_serve) simp_all
next
  case (close_chan s n c)
  then show ?case by (intro pend_inv_serve) simp_all
qed (erule pend_inv_cong; auto)+

lemma pend_inv_env: "env_step E False s s' \<Longrightarrow> pend_inv s \<Longrightarrow> pend_inv s'"
  by (induction rule: env_step.induct) (simp_all add: pend_inv_cong)

section \<open>Shape of the state\<close>

text \<open>The attempt a call is in; the loop runs it at most three times.\<close>

fun attempt_ok :: "cpc \<Rightarrow> bool" where
  "attempt_ok CIdle \<longleftrightarrow> True"
| "attempt_ok (CTry i errs) \<longleftrightarrow> i \<le> cacheErrRetryAttempts"
| "attempt_ok (CSend i errs) \<longleftrightarrow> i < cacheErrRetryAttempts"
| "attempt_ok (CWait i errs) \<longleftrightarrow> i < cacheErrRetryAttempts"
| "attempt_ok (CTicket i errs tk) \<longleftrightarrow> i < cacheErrRetryAttempts"
| "attempt_ok (CDelete i errs) \<longleftrightarrow> i < cacheErrRetryAttempts"
| "attempt_ok (CLock i errs t) \<longleftrightarrow> i < cacheErrRetryAttempts"
| "attempt_ok (CHold i errs t) \<longleftrightarrow> i < cacheErrRetryAttempts"
| "attempt_ok (CPark i errs t) \<longleftrightarrow> i < cacheErrRetryAttempts"
| "attempt_ok (CSleep i errs t) \<longleftrightarrow> i < cacheErrRetryAttempts"
| "attempt_ok (CWake i errs t) \<longleftrightarrow> i < cacheErrRetryAttempts"
| "attempt_ok (CBreak i errs t e) \<longleftrightarrow> i < cacheErrRetryAttempts"
| "attempt_ok (CDone r) \<longleftrightarrow> True"

definition calls :: "rstate \<Rightarrow> nat set" where "calls s = {c. r_clients s c \<noteq> CIdle}"

definition shape_inv :: "renv \<Rightarrow> rstate \<Rightarrow> bool" where
  "shape_inv E s \<longleftrightarrow> (\<forall>c. attempt_ok (r_clients s c)) \<and> finite (calls s) \<and>
     (\<forall>n. r_workers s n \<noteq> WIdle \<longrightarrow> n \<in> {1..env_workers E})"

lemma shape_invD:
  assumes "shape_inv E s"
  shows "attempt_ok (r_clients s c)" "finite (calls s)" "r_workers s n \<noteq> WIdle \<Longrightarrow> n \<in> {1..env_workers E}"
  using assms unfolding shape_inv_def by blast+

lemma attempt_ok_next [simp]:
  "attempt_ok (CTry i errs) \<Longrightarrow> attempt_ok (try_next i errs e)"
  "i < cacheErrRetryAttempts \<Longrightarrow> attempt_ok (ticket_next i errs tk e)"
  "i < cacheErrRetryAttempts \<Longrightarrow> attempt_ok (break_next i errs e)"
  "i < cacheErrRetryAttempts \<Longrightarrow> attempt_ok (hold_next i errs t e)"
  "attempt_ok pc \<Longrightarrow> attempt_ok (receive_closed pc)"
  by (auto simp: try_next_def ticket_next_def break_next_def hold_next_def receive_closed_def
      split: option.splits cpc.splits)

lemma attempt_ok_wake_all [simp]: "attempt_ok (cl c) \<Longrightarrow> attempt_ok (wake_all t cl c)"
  by (cases "cl c") (simp_all add: wake_all_def)

lemma idle_next [simp]:
  "try_next i errs e \<noteq> CIdle" "ticket_next i errs tk e \<noteq> CIdle" "break_next i errs e \<noteq> CIdle"
  "hold_next i errs t e \<noteq> CIdle" "receive_closed pc = CIdle \<longleftrightarrow> pc = CIdle"
  "wake_all t cl c = CIdle \<longleftrightarrow> cl c = CIdle"
  by (auto simp: try_next_def ticket_next_def break_next_def hold_next_def receive_closed_def wake_all_def
      split: option.splits cpc.splits)

lemma calls_run: "run_step E s s' \<Longrightarrow> calls s' = calls s"
  by (induction rule: run_step.induct) (auto simp: calls_def split: if_splits)

lemma shape_inv_cong:
  assumes "shape_inv E s" "calls s' = calls s" "\<And>c. attempt_ok (r_clients s c) \<Longrightarrow> attempt_ok (r_clients s' c)"
    "\<And>n. r_workers s n = WIdle \<Longrightarrow> r_workers s' n = WIdle"
  shows "shape_inv E s'"
  using assms unfolding shape_inv_def by metis

lemma shape_inv_start: "shape_inv E Requester_New"
  by (simp add: shape_inv_def calls_def Requester_New_def)

lemma shape_inv_run: "run_step E s s' \<Longrightarrow> shape_inv E s \<Longrightarrow> shape_inv E s'"
proof (frule calls_run, induction rule: run_step.induct)
  case (take_work n s c q)
  then show ?case by (auto simp: shape_inv_def)
qed (erule shape_inv_cong, assumption, force, force)+

lemma shape_inv_env: "env_step E tm s s' \<Longrightarrow> shape_inv E s \<Longrightarrow> shape_inv E s'"
proof (induction rule: env_step.induct)
  case (new_call s c)
  then have "calls (set_client s c (CTry 0 [])) = insert c (calls s)"
    by (auto simp: calls_def)
  then show ?case using new_call by (simp add: shape_inv_def)
next
  case (time_out s c i errs)
  then show ?case by (elim shape_inv_cong) (auto simp: calls_def)
qed (simp add: shape_inv_def calls_def)

section \<open>The invariants together\<close>

definition requester_inv :: "renv \<Rightarrow> rstate \<Rightarrow> bool" where
  "requester_inv E s \<longleftrightarrow> lock_inv s \<and> flight_inv E s \<and> sleep_inv s \<and> shape_inv E s"

lemma requester_inv_run: "run_step E s s' \<Longrightarrow> requester_inv E s \<Longrightarrow> requester_inv E s'"
  unfolding requester_inv_def using lock_inv_run flight_inv_run sleep_inv_run shape_inv_run by blast

lemma requester_inv_env: "env_step E tm s s' \<Longrightarrow> requester_inv E s \<Longrightarrow> requester_inv E s'"
  unfolding requester_inv_def using lock_inv_env flight_inv_env sleep_inv_env shape_inv_env by blast

lemma reachable_inv: "reachable E tm s \<Longrightarrow> requester_inv E s"
  by (induction rule: reachable.induct)
    (simp_all add: requester_inv_run requester_inv_env, simp add: requester_inv_def lock_inv_start flight_inv_start
      sleep_inv_start shape_inv_start)

lemma reachable_pend: "reachable E tm s \<Longrightarrow> \<not> tm \<Longrightarrow> pend_inv s"
  by (induction rule: reachable.induct) (auto simp: pend_inv_start pend_inv_run pend_inv_env)

section \<open>Progress\<close>

definition returned :: "cpc \<Rightarrow> bool" where
  "returned pc \<longleftrightarrow> pc = CIdle \<or> (\<exists>r. pc = CDone r)"

text \<open>
  The backend answers every request, and the decrypter does not panic; or at least the requests that
  workers are making in a state are answered.
\<close>

definition answers_all :: "renv \<Rightarrow> bool" where
  "answers_all E \<longleftrightarrow> (\<forall>w. env_panics E w = None \<and> (\<exists>r err. env_answers E w r err))"

definition answers_at :: "renv \<Rightarrow> rstate \<Rightarrow> bool" where
  "answers_at E s \<longleftrightarrow> (\<forall>n c. r_workers s n = WReq c \<longrightarrow> (\<exists>r err. env_answers E (env_request E c) r err))"

lemma answers_all_at: "answers_all E \<Longrightarrow> answers_at E s"
  by (simp add: answers_all_def answers_at_def)

lemma answers_all_calm: "answers_all E \<Longrightarrow> \<not> worker_panics E s f"
  by (simp add: answers_all_def worker_panics_def)

definition stuck :: "renv \<Rightarrow> rstate \<Rightarrow> bool" where
  "stuck E s \<longleftrightarrow> (\<forall>s'. \<not> run_step E s s')"

lemma stuck_client:
  assumes "stuck E s"
  shows "r_clients s c \<noteq> CTry i errs" "r_clients s c \<noteq> CTicket i errs tk" "r_clients s c \<noteq> CDelete i errs"
    "held_c (r_clients s c) = None"
proof -
  show "r_clients s c \<noteq> CTry i errs" "r_clients s c \<noteq> CTicket i errs tk" "r_clients s c \<noteq> CDelete i errs"
    using assms try_cache use_ticket delete_entry unfolding stuck_def by metis+
  have "r_clients s c \<noteq> CHold j es t" "r_clients s c \<noteq> CPark j es t" "r_clients s c \<noteq> CBreak j es t e" for j es t e
    using assms check_entry wait_ticket unlock_ticket unfolding stuck_def by metis+
  then show "held_c (r_clients s c) = None"
    by (cases "r_clients s c") auto
qed

lemma stuck_worker_lock:
  assumes "stuck E s" "answers_at E s"
  shows "\<not> held_w (r_workers s n)"
proof -
  have "r_workers s n \<noteq> WReq c" for c
    using assms request unfolding stuck_def answers_at_def by metis
  moreover have "r_workers s n \<noteq> WSet c d e" "r_workers s n \<noteq> WSignal c" for c d e
    using assms store_reply broadcast unfolding stuck_def by metis+
  ultimately show ?thesis
    by (cases "r_workers s n") auto
qed

lemma stuck_locks_free:
  assumes "stuck E s" "answers_at E s" "lock_inv s"
  shows "r_locks s t = None"
proof (cases "r_locks s t")
  case (Some a)
  then show ?thesis
    using lock_okD [OF assms(3) [unfolded lock_inv_def], of t] stuck_client(4) [OF assms(1)]
      stuck_worker_lock [OF assms(1,2)] by (cases a) auto
qed

lemma pend_mention: "pend_inv s \<Longrightarrow> mention (r_workers s n) = Some c \<Longrightarrow> \<exists>i errs. r_clients s c = CWait i errs"
  unfolding pend_inv_def pend_ok_def by (metis waiting.elims(2))

lemma stuck_workers_idle:
  assumes "stuck E s" "answers_at E s" "requester_inv E s" "pend_inv s"
  shows "r_workers s n = WIdle"
proof -
  have free: "r_locks s n = None"
    using assms stuck_locks_free by (auto simp: requester_inv_def)
  have "r_workers s n \<noteq> WTake c" "r_workers s n \<noteq> WClose c" "r_workers s n \<noteq> WAcq c" for c
    using assms(1) free look_up [where n = n] close_chan lock_own unfolding stuck_def by (metis surj_pair)+
  moreover have "r_workers s n \<noteq> WSendOwn c" "r_workers s n \<noteq> WSendOther c t" for c t
    using assms(1) pend_mention [OF assms(4), of n c] send_own send_other unfolding stuck_def by (metis mention.simps)+
  moreover have "\<not> held_w (r_workers s n)"
    using stuck_worker_lock assms by blast
  ultimately show ?thesis
    by (cases "r_workers s n") auto
qed

lemma stuck_queue_empty:
  assumes "stuck E s" "answers_at E s" "requester_inv E s" "pend_inv s" "1 \<le> env_workers E"
  shows "r_queue s = []"
  using stuck_workers_idle [OF assms(1-4), of 1] assms(1,5) take_work [of 1 E s]
  unfolding stuck_def by (cases "r_queue s") auto

lemma stuck_returned:
  assumes "stuck E s" "answers_at E s" "requester_inv E s" "pend_inv s" "1 \<le> env_workers E"
  shows "returned (r_clients s c)"
proof -
  note idle = stuck_workers_idle [OF assms(1-4)] and q = stuck_queue_empty [OF assms]
  have free: "r_locks s t = None" for t
    using assms stuck_locks_free by (auto simp: requester_inv_def)
  have "\<not> waiting (r_clients s c)"
    using assms(4) idle q unfolding pend_inv_def pend_ok_def by simp
  moreover have "r_clients s c \<noteq> CSend i errs" for i errs
    using assms(1) q send_work [of s c i errs E] unfolding stuck_def by (auto simp: workQueueSize_def)
  moreover have "r_clients s c \<noteq> CLock i errs t" "r_clients s c \<noteq> CWake i errs t" for i errs t
    using assms(1) free lock_ticket unfolding stuck_def by metis+
  moreover have "r_clients s c \<noteq> CSleep i errs t" for i errs t
    using assms(3) idle sleep_invD [of s c] by (auto simp: requester_inv_def)
  ultimately show ?thesis
    using stuck_client [OF assms(1), of c] by (cases "r_clients s c") (auto simp: returned_def)
qed

section \<open>Whose requests are made\<close>

text \<open>Whatever is queued or with a worker belongs to a call that has begun, even if it has timed out since.\<close>

fun worker_call :: "wpc \<Rightarrow> nat option" where
  "worker_call WIdle = None"
| "worker_call (WTake c) = Some c"
| "worker_call (WSendOwn c) = Some c"
| "worker_call (WSendOther c t) = Some c"
| "worker_call (WClose c) = Some c"
| "worker_call (WAcq c) = Some c"
| "worker_call (WReq c) = Some c"
| "worker_call (WSet c d e) = Some c"
| "worker_call (WSignal c) = Some c"

definition work_inv :: "rstate \<Rightarrow> bool" where
  "work_inv s \<longleftrightarrow> set (r_queue s) \<subseteq> calls s \<and> (\<forall>n c. worker_call (r_workers s n) = Some c \<longrightarrow> c \<in> calls s)"

lemma work_invD: "work_inv s \<Longrightarrow> worker_call (r_workers s n) = Some c \<Longrightarrow> c \<in> calls s"
  by (auto simp: work_inv_def)

lemma run_step_worker_call:
  "run_step E s s' \<Longrightarrow> worker_call (r_workers s' n) = Some c \<Longrightarrow> worker_call (r_workers s n) = Some c \<or> c \<in> set (r_queue s)"
  by (induction rule: run_step.induct) (auto simp: look_next_def split: if_splits option.splits)

lemma run_step_queue: "run_step E s s' \<Longrightarrow> set (r_queue s') \<subseteq> set (r_queue s) \<union> calls s"
  by (induction rule: run_step.induct) (auto simp: calls_def)

lemma work_inv_run: "run_step E s s' \<Longrightarrow> work_inv s \<Longrightarrow> work_inv s'"
  using run_step_worker_call [of E s s'] run_step_queue [of E s s'] calls_run [of E s s'] unfolding work_inv_def by blast

lemma reachable_work: "reachable E tm s \<Longrightarrow> work_inv s"
proof (induction rule: reachable.induct)
  case (env s s')
  then have "calls s \<subseteq> calls s'" "r_queue s' = r_queue s" "r_workers s' = r_workers s"
    by (auto elim!: env_step.cases simp: calls_def split: if_splits)
  with env(3) show ?case
    by (auto simp: work_inv_def)
next
  case (run s s')
  then show ?case
    using work_inv_run by blast
qed (simp add: work_inv_def Requester_New_def)

lemma worker_calls: "reachable E tm s \<Longrightarrow> r_workers s n = WReq c \<Longrightarrow> c \<in> calls s"
  using work_invD [OF reachable_work, of E tm s n c] by simp

section \<open>A bound on the number of steps\<close>

text \<open>
  The weight of a call and of a worker counts the steps it may still take; \<open>K\<close> is the number of
  calls. A broadcast pays for waking up to \<open>K\<close> calls.
\<close>

definition item_weight :: "nat \<Rightarrow> nat" where "item_weight K = 3 * K + 7"
definition attempt_weight :: "nat \<Rightarrow> nat" where "attempt_weight K = 3 * K + 15"

fun call_weight :: "nat \<Rightarrow> cpc \<Rightarrow> nat" where
  "call_weight K CIdle = 0"
| "call_weight K (CTry i errs) = (3 - i) * attempt_weight K + 1"
| "call_weight K (CSend i errs) = (2 - i) * attempt_weight K + item_weight K + 8"
| "call_weight K (CWait i errs) = (2 - i) * attempt_weight K + 7"
| "call_weight K (CTicket i errs tk) = (2 - i) * attempt_weight K + 6"
| "call_weight K (CDelete i errs) = (2 - i) * attempt_weight K + 2"
| "call_weight K (CLock i errs t) = (2 - i) * attempt_weight K + 5"
| "call_weight K (CHold i errs t) = (2 - i) * attempt_weight K + 4"
| "call_weight K (CPark i errs t) = (2 - i) * attempt_weight K + 3"
| "call_weight K (CSleep i errs t) = (2 - i) * attempt_weight K + 2"
| "call_weight K (CWake i errs t) = (2 - i) * attempt_weight K + 5"
| "call_weight K (CBreak i errs t e) = (2 - i) * attempt_weight K + 2"
| "call_weight K (CDone r) = 0"

fun worker_weight :: "nat \<Rightarrow> wpc \<Rightarrow> nat" where
  "worker_weight K WIdle = 0"
| "worker_weight K (WTake c) = 3 * K + 6"
| "worker_weight K (WSendOwn c) = 3 * K + 5"
| "worker_weight K (WSendOther c t) = 3 * K + 5"
| "worker_weight K (WClose c) = 3 * K + 5"
| "worker_weight K (WAcq c) = 3 * K + 4"
| "worker_weight K (WReq c) = 3 * K + 3"
| "worker_weight K (WSet c d e) = 3 * K + 2"
| "worker_weight K (WSignal c) = 3 * K + 1"

definition weight :: "renv \<Rightarrow> nat \<Rightarrow> nat set \<Rightarrow> rstate \<Rightarrow> nat" where
  "weight E K C s = (\<Sum>c\<in>C. call_weight K (r_clients s c)) + length (r_queue s) * item_weight K +
     (\<Sum>n\<in>{1..env_workers E}. worker_weight K (r_workers s n))"

lemma sum_upd:
  fixes g :: "'b \<Rightarrow> nat"
  assumes "finite A" "a \<in> A"
  shows "(\<Sum>x\<in>A. g ((f(a := y)) x)) + g (f a) = (\<Sum>x\<in>A. g (f x)) + g y"
proof -
  have "(\<Sum>x\<in>A - {a}. g ((f(a := y)) x)) = (\<Sum>x\<in>A - {a}. g (f x))"
    by (rule sum.cong) auto
  then show ?thesis
    using sum.remove [OF assms, of "\<lambda>x. g ((f(a := y)) x)"] sum.remove [OF assms, of "\<lambda>x. g (f x)"] by simp
qed

lemma weight_client:
  assumes "finite C" "c \<in> C"
  shows "weight E K C (set_client s c pc) + call_weight K (r_clients s c) = weight E K C s + call_weight K pc"
  using sum_upd [OF assms, of "call_weight K" "r_clients s" pc] by (simp add: weight_def)

lemma weight_worker:
  assumes "n \<in> {1..env_workers E}"
  shows "weight E K C (set_worker s n wp) + worker_weight K (r_workers s n) = weight E K C s + worker_weight K wp"
  using sum_upd [OF _ assms, of "worker_weight K" "r_workers s" wp] by (simp add: weight_def)

lemma weight_rest [simp]:
  "weight E K C (set_cache s ty m) = weight E K C s" "weight E K C (set_lock s t a) = weight E K C s"
  by (simp_all add: weight_def)

lemma weight_next:
  "attempt_ok (CTry i errs) \<Longrightarrow> call_weight K (try_next i errs e) < call_weight K (CTry i errs)"
  "i < cacheErrRetryAttempts \<Longrightarrow> call_weight K (ticket_next i errs tk e) < call_weight K (CTicket i errs tk)"
  "i < cacheErrRetryAttempts \<Longrightarrow> call_weight K (break_next i errs e) < call_weight K (CBreak i errs t e)"
  "call_weight K (hold_next i errs t e) < call_weight K (CHold i errs t)"
  "i < cacheErrRetryAttempts \<Longrightarrow> call_weight K (CTry (i + 1) errs) < call_weight K (CDelete i errs)"
  "call_weight K (receive_closed pc) \<le> call_weight K pc"
  "worker_weight K (look_next c old) < worker_weight K (WTake c)"
proof -
  show "call_weight K (try_next i errs e) < call_weight K (CTry i errs)" if "attempt_ok (CTry i errs)"
  proof -
    have "(3 - i) * attempt_weight K = (2 - i) * attempt_weight K + attempt_weight K" if "i < 3"
      using that by (simp add: numeral_3_eq_3 numeral_2_eq_2 Suc_diff_le)
    then show ?thesis
      by (auto simp: try_next_def cacheErrRetryAttempts_def attempt_weight_def item_weight_def split: option.splits)
  qed
qed (auto simp: ticket_next_def break_next_def hold_next_def receive_closed_def look_next_def cacheErrRetryAttempts_def
    split: option.splits cpc.splits)

lemma weight_wake_all:
  assumes "finite C"
  shows "weight E (card C) C (s\<lparr>r_clients := wake_all t (r_clients s)\<rparr>) \<le> weight E (card C) C s + 3 * card C"
proof -
  have "call_weight K (wake_all t cl c) \<le> call_weight K (cl c) + 3" for K cl c
    by (cases "cl c") (simp_all add: wake_all_def)
  then have "(\<Sum>c\<in>C. call_weight (card C) (wake_all t (r_clients s) c)) \<le> (\<Sum>c\<in>C. call_weight (card C) (r_clients s c) + 3)"
    by (rule sum_mono)
  then show ?thesis by (simp add: weight_def sum.distrib)
qed

lemma weight_queue:
  "weight E K C (s\<lparr>r_queue := q\<rparr>) + length (r_queue s) * item_weight K = weight E K C s + length q * item_weight K"
  by (simp add: weight_def)

lemma weight_client_le:
  assumes "call_weight K pc \<le> call_weight K (r_clients s c)"
  shows "weight E K C (set_client s c pc) \<le> weight E K C s"
proof -
  have "(\<Sum>x\<in>C. call_weight K (((r_clients s)(c := pc)) x)) \<le> (\<Sum>x\<in>C. call_weight K (r_clients s x))"
    by (rule sum_mono) (use assms in simp)
  then show ?thesis by (simp add: weight_def)
qed

abbreviation run_weight :: "renv \<Rightarrow> rstate \<Rightarrow> rstate \<Rightarrow> nat" where
  "run_weight E s0 s \<equiv> weight E (card (calls s0)) (calls s0) s"

lemma client_step_less:
  assumes "shape_inv E s" "r_clients s c = pc0" "pc0 \<noteq> CIdle"
    "attempt_ok pc0 \<Longrightarrow> call_weight (card (calls s)) pc < call_weight (card (calls s)) pc0"
  shows "run_weight E s (set_client s c pc) < run_weight E s s"
proof -
  have "c \<in> calls s" "call_weight (card (calls s)) pc < call_weight (card (calls s)) (r_clients s c)"
    using assms shape_invD(1) [OF assms(1), of c] by (simp_all add: calls_def)
  with weight_client [OF shape_invD(2) [OF assms(1)], of c E "card (calls s)" s pc] show ?thesis by linarith
qed

lemma worker_step_less:
  assumes "shape_inv E s" "r_workers s' n = wp0" "r_workers s n = wp0" "wp0 \<noteq> WIdle" 
    "worker_weight K wp < worker_weight K wp0"
  shows "weight E K C (set_worker s' n wp) < weight E K C s'"
  using weight_worker [OF shape_invD(3) [OF assms(1), of n], of K C s' wp] assms(2-) by simp

lemma both_step_less:
  assumes "shape_inv E s" "r_workers s n = wp0" "wp0 \<noteq> WIdle" "worker_weight K wp < worker_weight K wp0"
    "call_weight K pc \<le> call_weight K (r_clients s c)"
  shows "weight E K C (set_worker (set_client s c pc) n wp) < weight E K C s"
  using worker_step_less [OF assms(1) _ assms(2-4), of "set_client s c pc" C] weight_client_le [OF assms(5), of E C]
    assms(2) by simp

lemma weight_decreases:
  assumes "run_step E s s'" "shape_inv E s"
  shows "run_weight E s s' < run_weight E s s"
  using assms
proof (induction rule: run_step.induct)
  case (try_cache s c i errs)
  show ?case
    by (rule client_step_less [OF try_cache(2,1)]) (simp_all only: weight_next(1) not_False_eq_True cpc.distinct simp_thms)
next
  case (send_work s c i errs)
  have "run_weight E s (set_client s c (CWait i errs)) + item_weight (card (calls s)) < run_weight E s s"
    using weight_client [OF shape_invD(2) [OF send_work(3)], of c E "card (calls s)" s "CWait i errs"] send_work(1)
    by (simp add: calls_def)
  moreover have eq: "set_client (s\<lparr>r_queue := r_queue s @ [c]\<rparr>) c (CWait i errs) =
      (set_client s c (CWait i errs))\<lparr>r_queue := r_queue s @ [c]\<rparr>"
    by (simp add: set_client_def)
  ultimately show ?case unfolding eq
    using weight_queue [of E "card (calls s)" "calls s" "r_queue s @ [c]" "set_client s c (CWait i errs)"]
    by simp
next
  case (use_ticket s c i errs t)
  show ?case
    by (rule client_step_less [OF use_ticket(2,1)]) (simp_all only: weight_next(2) attempt_ok.simps cpc.distinct simp_thms)
next
  case (delete_entry s c i errs w)
  have "run_weight E s (set_client s c (CTry (i + 1) errs)) < run_weight E s s"
    by (rule client_step_less [OF delete_entry(3,1)])
      (simp_all only: weight_next(5) attempt_ok.simps cpc.distinct simp_thms)
  then show ?case by (simp add: weight_def)
next
  case (lock_ticket s c i errs t)
  then show ?case
    by (elim disjE) (simp_all add: client_step_less)
next
  case (check_entry s c i errs t)
  show ?case
    by (rule client_step_less [OF check_entry(2,1)]) (simp_all only: weight_next(4) cpc.distinct simp_thms)
next
  case (wait_ticket s c i errs t)
  then show ?case by (simp add: client_step_less)
next
  case (unlock_ticket s c i errs t e)
  have "run_weight E s (set_client s c (break_next i errs e)) < run_weight E s s"
    by (rule client_step_less [OF unlock_ticket(2,1)])
      (simp_all only: weight_next(3) attempt_ok.simps cpc.distinct simp_thms)
  then show ?case by simp
next
  case (take_work n s c q)
  then show ?case
    using weight_worker [of n E "card (calls s)" "calls s" "s\<lparr>r_queue := q\<rparr>" "WTake c"]
      weight_queue [of E "card (calls s)" "calls s" q s] by (simp add: item_weight_def)
next
  case (look_up s n c w old m)
  show ?case
    by (rule worker_step_less [OF look_up(4) _ look_up(1), THEN less_le_trans])
      (use look_up in \<open>simp_all add: weight_next(7) del: worker_weight.simps\<close>)
next
  case (send_own s n c i errs)
  show ?case by (rule both_step_less [OF send_own(3,1)]) (simp_all add: weight_next(6) send_own(2))
next
  case (send_other s n c t i errs)
  show ?case by (rule both_step_less [OF send_other(3,1)]) (simp_all add: weight_next(6) send_other(2))
next
  case (close_chan s n c)
  show ?case by (rule both_step_less [OF close_chan(2,1)]) (simp_all add: weight_next(6))
next
  case (lock_own s n c)
  then show ?case by (simp add: worker_step_less)
next
  case (request s n c r err)
  then show ?case by (simp add: worker_step_less)
next
  case (store_reply s n c d err w)
  show ?case
    by (rule worker_step_less [OF store_reply(3) _ store_reply(1), THEN less_le_trans])
      (use store_reply in simp_all)
next
  case (broadcast s n c)
  let ?s = "s\<lparr>r_clients := wake_all n (r_clients s)\<rparr>"
  have "n \<in> {1..env_workers E}"
    using shape_invD(3) [OF broadcast(2), of n] broadcast(1) by simp
  then have "run_weight E s (set_worker ?s n WIdle) + (3 * card (calls s) + 1) = run_weight E s ?s"
    using weight_worker [of n E "card (calls s)" "calls s" ?s WIdle] broadcast(1) by simp
  then show ?case
    using weight_wake_all [OF shape_invD(2) [OF broadcast(2)], of E n s] by simp
qed

text \<open>
  A run without new calls: \<open>n\<close> steps of the calls and workers, and any number of cache clearings
  in between. Clearing does not touch the weight.
\<close>

inductive quiet_run :: "renv \<Rightarrow> rstate \<Rightarrow> nat \<Rightarrow> rstate \<Rightarrow> bool" for E where
  quiet_nil: "quiet_run E s 0 s"
| quiet_step: "quiet_run E s n s' \<Longrightarrow> run_step E s' s'' \<Longrightarrow> quiet_run E s (Suc n) s''"
| quiet_clear: "quiet_run E s n s' \<Longrightarrow>
    quiet_run E s n (set_cache s' ty (ClearCache_delete (r_cache s' ty) K))"

lemma quiet_run_reachable: "quiet_run E s n s' \<Longrightarrow> reachable E tm s \<Longrightarrow> reachable E tm s'"
  by (induction rule: quiet_run.induct) (auto intro: run env clear_cache)

lemma quiet_run_weight:
  "quiet_run E s n s' \<Longrightarrow> reachable E tm s \<Longrightarrow> calls s' = calls s \<and> run_weight E s s' + n \<le> run_weight E s s"
proof (induction rule: quiet_run.induct)
  case (quiet_step s n s' s'')
  then have "shape_inv E s'"
    using quiet_run_reachable reachable_inv unfolding requester_inv_def by blast
  then show ?case
    using weight_decreases [OF quiet_step(2)] calls_run [OF quiet_step(2)] quiet_step by simp
qed (simp_all add: calls_def)

text \<open>The bound itself: at most three attempts for each of the \<open>K\<close> calls, and the work in progress.\<close>

definition run_bound :: "renv \<Rightarrow> rstate \<Rightarrow> nat" where
  "run_bound E s = (let K = card (calls s) in
     K * (3 * (3 * K + 15) + 1) + length (r_queue s) * (3 * K + 7) + env_workers E * (3 * K + 6))"

lemma call_weight_bound: "call_weight K pc \<le> 3 * attempt_weight K + 1"
proof -
  have "(2 - i) * attempt_weight K \<le> 2 * attempt_weight K" "(3 - i) * attempt_weight K \<le> 3 * attempt_weight K" for i
    by simp_all
  from add_mono [OF this(1) order_refl] this(2) show ?thesis
    by (cases pc) (fastforce simp: attempt_weight_def item_weight_def intro: order_trans)+
qed

lemma run_weight_bound: "run_weight E s s \<le> run_bound E s"
proof -
  have "(\<Sum>c\<in>calls s. call_weight (card (calls s)) (r_clients s c)) \<le> card (calls s) * (3 * (3 * card (calls s) + 15) + 1)"
    by (rule sum_bounded_above [where 'a = nat, simplified])
      (use call_weight_bound in \<open>simp add: attempt_weight_def\<close>)
  moreover have "worker_weight K wp \<le> 3 * K + 6" for K wp
    by (cases wp) simp_all
  then have "(\<Sum>n\<in>{1..env_workers E}. worker_weight (card (calls s)) (r_workers s n)) \<le>
      env_workers E * (3 * card (calls s) + 6)"
    using sum_bounded_above [of "{1..env_workers E}"] by (metis card_atLeastAtMost diff_Suc_1 of_nat_id)
  ultimately show ?thesis
    by (simp add: weight_def run_bound_def Let_def item_weight_def)
qed

lemma quiet_run_bound: "quiet_run E s n s' \<Longrightarrow> reachable E tm s \<Longrightarrow> n \<le> run_bound E s"
  using quiet_run_weight run_weight_bound [of E s] by fastforce

lemma quiet_run_to_stuck:
  assumes "reachable E tm s"
  shows "quiet_run E s n s' \<Longrightarrow> \<exists>m s''. quiet_run E s m s'' \<and> stuck E s''"
proof (induction "run_bound E s - n" arbitrary: n s' rule: less_induct)
  case less
  show ?case
  proof (cases "stuck E s'")
    case False
    then obtain s'' where "run_step E s' s''"
      by (auto simp: stuck_def)
    then have q: "quiet_run E s (Suc n) s''"
      using less(2) quiet_step by blast
    then have "run_bound E s - Suc n < run_bound E s - n"
      using quiet_run_bound [OF q assms] by simp
    then show ?thesis using less(1) q by blast
  qed (use less(2) in blast)
qed

lemma stuck_reachable_returned:
  assumes "reachable E False s" "1 \<le> env_workers E" "answers_at E s" "stuck E s"
  shows "returned (r_clients s c)"
  using stuck_returned [OF assms(4,3) reachable_inv [OF assms(1)] reachable_pend [OF assms(1)] assms(2)] by simp

lemma call_completes:
  assumes "reachable E False s" "1 \<le> env_workers E" "answers_all E" "r_clients s c \<noteq> CIdle"
  shows "\<exists>s' out. reachable E False s' \<and> r_clients s' c = CDone out"
proof -
  obtain n s' where q: "quiet_run E s n s'" "stuck E s'"
    using quiet_run_to_stuck [OF assms(1) quiet_nil] by blast
  then have "reachable E False s'" "calls s' = calls s"
    using quiet_run_reachable quiet_run_weight assms(1) by blast+
  then show ?thesis
    using stuck_reachable_returned [OF _ assms(2) answers_all_at [OF assms(3)] q(2), of c] assms(4) unfolding returned_def calls_def by blast
qed

end
