(* ===== verification/RequesterReplies.thy ===== *)
theory RequesterReplies
  imports RequesterLive
begin

text \<open>
  What the calls of the requester return: every value is the backend's answer to a request with
  the same type and arguments, and every error is the backend's or one of the requester's own.
\<close>

section \<open>Where values come from\<close>

definition answered :: "renv \<Rightarrow> workType \<Rightarrow> string \<Rightarrow> reply option \<Rightarrow> goerr option \<Rightarrow> bool" where
  "answered E ty k d err \<longleftrightarrow>
     (\<exists>c r. requestType (env_request E c) = ty \<and> worker_key E (env_request E c) = k \<and>
        env_answers E (env_request E c) r err \<and> d = reply_data r)"

definition entry_ok :: "renv \<Rightarrow> workType \<Rightarrow> string \<Rightarrow> genCacheEntry \<Rightarrow> bool" where
  "entry_ok E ty k e \<longleftrightarrow> (e_data e = None \<and> e_err e = None) \<or> answered E ty k (e_data e) (e_err e)"

definition own_error :: "goerr \<Rightarrow> bool" where
  "own_error er \<longleftrightarrow> er = Errorf ''nonresponsive work queue'' [] \<or>
     (\<exists>errs. er = Errorf ''somehow could not succeed after retries. Retry errors: %s'' [FStrs errs])"

fun call_ok :: "renv \<Rightarrow> workType \<Rightarrow> string \<Rightarrow> cpc \<Rightarrow> bool" where
  "call_ok E ty k (CBreak i errs t (Some e)) \<longleftrightarrow> entry_ok E ty k e"
| "call_ok E ty k (CDone (Inr d)) \<longleftrightarrow> (\<exists>err. answered E ty k (Some d) err)"
| "call_ok E ty k (CDone (Inl er)) \<longleftrightarrow> own_error er \<or> (\<exists>d. answered E ty k d (Some er))"
| "call_ok E ty k _ \<longleftrightarrow> True"

fun worker_ok :: "renv \<Rightarrow> wpc \<Rightarrow> bool" where
  "worker_ok E (WSet c d err) \<longleftrightarrow> (\<exists>r. env_answers E (env_request E c) r err \<and> d = reply_data r)"
| "worker_ok E _ \<longleftrightarrow> True"

abbreviation call_type :: "renv \<Rightarrow> nat \<Rightarrow> workType" where
  "call_type E c \<equiv> requestType (env_request E c)"

abbreviation call_key :: "renv \<Rightarrow> nat \<Rightarrow> string" where
  "call_key E c \<equiv> client_key E (env_request E c)"

definition cache_prov :: "renv \<Rightarrow> (workType \<Rightarrow> syncCache) \<Rightarrow> bool" where
  "cache_prov E m \<longleftrightarrow> (\<forall>ty k e. sc_Get (m ty) k = Some e \<longrightarrow> entry_ok E ty k e)"

definition prov_inv :: "renv \<Rightarrow> rstate \<Rightarrow> bool" where
  "prov_inv E s \<longleftrightarrow> cache_prov E (r_cache s) \<and> (\<forall>c. call_ok E (call_type E c) (call_key E c) (r_clients s c)) \<and>
     (\<forall>n. worker_ok E (r_workers s n))"

lemma cache_provD: "cache_prov E m \<Longrightarrow> sc_Get (m ty) k = Some e \<Longrightarrow> entry_ok E ty k e"
  by (simp add: cache_prov_def)

lemma prov_entry: "prov_inv E s \<Longrightarrow> client_entry E s c = Some e \<Longrightarrow> entry_ok E (call_type E c) (call_key E c) e"
  by (auto simp: prov_inv_def client_entry_def intro: cache_provD)

lemma prov_client:
  "prov_inv E s \<Longrightarrow> call_ok E (call_type E c) (call_key E c) pc \<Longrightarrow> prov_inv E (set_client s c pc)"
  by (simp add: prov_inv_def)

lemma prov_worker: "prov_inv E s \<Longrightarrow> worker_ok E wp \<Longrightarrow> prov_inv E (set_worker s n wp)"
  by (simp add: prov_inv_def)

lemma prov_rest [simp]:
  "prov_inv E (set_lock s t a) = prov_inv E s" "prov_inv E (s\<lparr>r_queue := q\<rparr>) = prov_inv E s"
  by (simp_all add: prov_inv_def)

lemma prov_cache:
  assumes "prov_inv E s" "\<And>k e. sc_Get m k = Some e \<Longrightarrow> sc_Get (r_cache s ty) k = Some e \<or> entry_ok E ty k e"
  shows "prov_inv E (set_cache s ty m)"
  using assms unfolding prov_inv_def cache_prov_def upd_simps by (metis fun_upd_apply)

lemma entry_ok_fresh [simp]: "entry_ok E ty k \<lparr>e_data = None, e_err = None, e_locker = n\<rparr>"
  by (simp add: entry_ok_def)

lemma entry_ok_data: "entry_ok E ty k e \<Longrightarrow> e_data e = Some d \<Longrightarrow> answered E ty k (Some d) (e_err e)"
  by (simp add: entry_ok_def)

lemma call_ok_next:
  "(\<And>e. ce = Some e \<Longrightarrow> entry_ok E ty k e) \<Longrightarrow> call_ok E ty k (try_next i errs ce)"
  "(\<And>e. ce = Some e \<Longrightarrow> entry_ok E ty k e) \<Longrightarrow> call_ok E ty k (ticket_next i errs tk ce)"
  "(\<And>e. ce = Some e \<Longrightarrow> entry_ok E ty k e) \<Longrightarrow> call_ok E ty k (hold_next i errs t ce)"
  "call_ok E ty k (CBreak i errs t ce) \<Longrightarrow> call_ok E ty k (break_next i errs ce)"
  "call_ok E ty k pc \<Longrightarrow> call_ok E ty k (receive_closed pc)"
proof -
  show "call_ok E ty k (break_next i errs ce)" if "call_ok E ty k (CBreak i errs t ce)"
    using that by (cases ce) (auto simp: break_next_def entry_ok_def split: option.splits)
  show "call_ok E ty k (receive_closed pc)" if "call_ok E ty k pc"
    using that by (cases pc) (simp_all add: receive_closed_def)
qed (auto simp: try_next_def ticket_next_def hold_next_def own_error_def split: option.splits dest: entry_ok_data)

lemma call_ok_wake_all: "call_ok E ty k (cl c) \<Longrightarrow> call_ok E ty k (wake_all t cl c)"
  by (cases "cl c") (simp_all add: wake_all_def)

lemma prov_inv_start: "prov_inv E Requester_New"
  by (simp add: prov_inv_def cache_prov_def Requester_New_def)

lemma prov_call: "prov_inv E s \<Longrightarrow> call_ok E (call_type E c) (call_key E c) (r_clients s c)"
  by (simp add: prov_inv_def)

lemma prov_inv_run: "run_step E s s' \<Longrightarrow> prov_inv E s \<Longrightarrow> prov_inv E s'"
proof (induction rule: run_step.induct)
  case (look_up s n c w old m)
  have "prov_inv E (set_cache s (requestType w) m)"
  proof (rule prov_cache [OF look_up(4)])
    fix k e
    assume "sc_Get m k = Some e"
    then show "sc_Get (r_cache s (requestType w)) k = Some e \<or> entry_ok E (requestType w) k e"
      using sc_simps(4) [of "r_cache s (requestType w)" "worker_key E w" _ k] look_up(3)
      by (metis (no_types, lifting) entry_ok_fresh option.case_eq_if option.collapse option.inject snd_conv)
  qed
  then show ?case by (rule prov_worker) (simp add: look_next_def split: option.splits)
next
  case (store_reply s n c d err w)
  have "answered E (requestType w) (worker_key E w) d err"
    using store_reply unfolding prov_inv_def answered_def by (metis worker_ok.simps(1))
  then have "prov_inv E (set_cache s (requestType w)
      (sc_Set (r_cache s (requestType w)) (worker_key E w) \<lparr>e_data = d, e_err = err, e_locker = 0\<rparr>))"
    by (intro prov_cache [OF store_reply(3)]) (auto simp: entry_ok_def split: if_splits)
  then show ?case by (rule prov_worker) simp
next
  case (delete_entry s c i errs w)
  have "prov_inv E (set_cache s (requestType w) (sc_Delete (r_cache s (requestType w)) (client_key E w)))"
    by (rule prov_cache [OF delete_entry(3)]) (simp split: if_splits)
  then show ?case by (rule prov_client) simp
next
  case (broadcast s n c)
  then show ?case by (simp add: prov_inv_def call_ok_wake_all)
next
  case (unlock_ticket s c i errs t e)
  then show ?case
    using prov_call [of E s c] by (simp add: prov_client call_ok_next(4))
next
  case (close_chan s n c)
  then show ?case by (simp add: prov_worker prov_client call_ok_next(5) prov_call)
qed (auto intro!: prov_worker prov_client call_ok_next(1-3) prov_entry)

lemma prov_inv_env: "env_step E tm s s' \<Longrightarrow> prov_inv E s \<Longrightarrow> prov_inv E s'"
proof (induction rule: env_step.induct)
  case (clear_cache s ty K)
  then show ?case by (rule prov_cache) (simp split: if_splits)
qed (auto intro!: prov_client simp: own_error_def)

lemma reachable_prov: "reachable E tm s \<Longrightarrow> prov_inv E s"
  by (induction rule: reachable.induct) (simp_all add: prov_inv_start prov_inv_run prov_inv_env)

section \<open>An example run\<close>

text \<open>One worker, and one call that reads a file: the steps from its start to its return.\<close>

definition demo_renv :: renv where
  "demo_renv = \<lparr>env_workers = 1, env_siphash = (\<lambda>_ _ b. of_nat (length b)),
     env_request = (\<lambda>_. \<lparr>requestType = workReadFile, arg1 = ''a'', arg2 = []\<rparr>),
     env_answers = (\<lambda>w r err. err = None \<and> r = (case requestType w of workReadFile \<Rightarrow> RFile [1]
       | workReadDir \<Rightarrow> RDir [] | _ \<Rightarrow> RName ''b'')),
     env_panics = (\<lambda>_. None)\<rparr>"

definition "demo0 = set_client Requester_New 0 (CTry 0 [])"
definition "demo1 = set_client demo0 0 (CSend 0 [])"
definition "demo2 = set_client (demo1\<lparr>r_queue := [0]\<rparr>) 0 (CWait 0 [])"
definition "demo3 = set_worker (demo2\<lparr>r_queue := []\<rparr>) 1 (WTake 0)"
definition "demo4 = set_worker (set_cache demo3 workReadFile
  (sc_Set (r_cache demo3 workReadFile) ''a'' \<lparr>e_data = None, e_err = None, e_locker = 1\<rparr>)) 1 (WSendOwn 0)"
definition "demo5 = set_worker (set_client demo4 0 (CTicket 0 [] (Some 1))) 1 (WAcq 0)"
definition "demo6 = set_lock (set_worker demo5 1 (WReq 0)) 1 (Some (WorkerA 1))"
definition "demo7 = set_worker demo6 1 (WSet 0 (Some (RFile [1])) None)"
definition "demo8 = set_worker (set_cache demo7 workReadFile
  (sc_Set (r_cache demo7 workReadFile) ''a'' \<lparr>e_data = Some (RFile [1]), e_err = None, e_locker = 0\<rparr>)) 1 (WSignal 0)"
definition "demo9 = set_lock (set_worker (demo8\<lparr>r_clients := wake_all 1 (r_clients demo8)\<rparr>) 1 WIdle) 1 None"
definition "demo10 = set_client demo9 0 (CDone (Inr (RFile [1])))"

lemmas demo_defs = demo_renv_def demo0_def demo1_def demo2_def demo3_def demo4_def demo5_def demo6_def demo7_def
  demo8_def demo9_def demo10_def

lemma demo_cache [simp]:
  "sc_Get (r_cache Requester_New ty) k = None" "r_workers Requester_New n = WIdle" "r_queue Requester_New = []"
  "r_locks Requester_New n = None" "r_clients Requester_New c = CIdle"
  by (simp_all add: Requester_New_def)

lemma demo_steps:
  "run_step demo_renv demo0 demo1" "run_step demo_renv demo1 demo2" "run_step demo_renv demo2 demo3"
  "run_step demo_renv demo3 demo4" "run_step demo_renv demo4 demo5" "run_step demo_renv demo5 demo6"
  "run_step demo_renv demo6 demo7" "run_step demo_renv demo7 demo8" "run_step demo_renv demo8 demo9"
  "run_step demo_renv demo9 demo10"
proof -
  show "run_step demo_renv demo0 demo1"
    using try_cache [of demo0 0 0 "[]" demo_renv]
    by (simp add: demo_defs try_next_def cacheErrRetryAttempts_def client_entry_def)
  show "run_step demo_renv demo1 demo2"
    using send_work [of demo1 0 0 "[]" demo_renv] by (simp add: demo_defs workQueueSize_def)
  show "run_step demo_renv demo2 demo3"
    using take_work [of 1 demo_renv demo2 0 "[]"] by (simp add: demo_defs)
  have "sc_GetOrInsert (r_cache demo3 workReadFile) ''a'' v = (None, sc_Set (r_cache demo3 workReadFile) ''a'' v)" for v
    using demo_cache(1) [of workReadFile "''a''"]
    by (simp add: demo_defs sc_GetOrInsert_def sc_Set_def sc_Get_def)
  then show "run_step demo_renv demo3 demo4"
    using look_up [of demo3 1 0 _ demo_renv] by (simp add: demo_defs worker_key_def look_next_def)
  show "run_step demo_renv demo4 demo5"
    using send_own [of demo4 1 0 0 "[]" demo_renv] by (simp add: demo_defs)
  show "run_step demo_renv demo5 demo6"
    using lock_own [of demo5 1 0 demo_renv] by (simp add: demo_defs)
  show "run_step demo_renv demo6 demo7"
    using request [of demo6 1 0 demo_renv "RFile [1]" None] by (simp add: demo_defs reply_data_def)
  show "run_step demo_renv demo7 demo8"
    using store_reply [of demo7 1 0 "Some (RFile [1])" None _ demo_renv] by (simp add: demo_defs worker_key_def)
  show "run_step demo_renv demo8 demo9"
    using broadcast [of demo8 1 0 demo_renv] by (simp add: demo_defs)
  show "run_step demo_renv demo9 demo10"
    using use_ticket [of demo9 0 0 "[]" "Some 1" demo_renv]
    by (simp add: demo_defs ticket_next_def client_entry_def client_key_def wake_all_def)
qed

lemma demo_quiet: "quiet_run demo_renv demo0 10 demo10"
proof -
  have "quiet_run demo_renv demo0 (Suc (Suc (Suc (Suc (Suc (Suc (Suc (Suc (Suc (Suc 0)))))))))) demo10"
    by (rule quiet_nil quiet_step demo_steps)+
  then show ?thesis by (simp add: numeral_eq_Suc)
qed

lemma demo_reachable: "reachable demo_renv tm demo0"
  unfolding demo0_def by (intro env [OF start] new_call) (simp_all add: demo_renv_def)

lemma demo_reachable_end: "reachable demo_renv tm demo10"
  using demo_quiet demo_reachable by (rule quiet_run_reachable)

lemma demo_stuck: "stuck demo_renv demo10"
  unfolding stuck_def
proof (intro allI notI)
  have c: "r_clients demo10 c = (if c = 0 then CDone (Inr (RFile [1])) else CIdle)" for c
    by (simp add: demo_defs wake_all_def)
  have w: "r_workers demo10 n = WIdle" and q: "r_queue demo10 = []" for n
    by (simp_all add: demo_defs)
  fix s'
  assume "run_step demo_renv demo10 s'"
  then show False
    by (cases rule: run_step.cases) (simp_all add: c w q split: if_splits)
qed

lemma demo_answers: "answers_all demo_renv"
  by (simp add: answers_all_def demo_renv_def)

text \<open>From the same run, the call may also take the ticket's lock first and go to sleep.\<close>

definition "sleep1 = set_client demo5 0 (CLock 0 [] 1)"
definition "sleep2 = set_lock (set_client sleep1 0 (CHold 0 [] 1)) 1 (Some (ClientA 0))"
definition "sleep3 = set_client sleep2 0 (CPark 0 [] 1)"
definition "sleep4 = set_lock (set_client sleep3 0 (CSleep 0 [] 1)) 1 None"

lemmas sleep_defs = sleep1_def sleep2_def sleep3_def sleep4_def

lemma demo_reachable5: "reachable demo_renv tm demo5"
  by (rule demo_steps demo_reachable run [rotated])+

lemma sleep_reachable: "reachable demo_renv tm sleep4"
proof -
  have "run_step demo_renv demo5 sleep1"
    using use_ticket [of demo5 0 0 "[]" "Some 1" demo_renv]
    by (simp add: sleep_defs demo_defs ticket_next_def client_entry_def client_key_def)
  moreover have "run_step demo_renv sleep1 sleep2"
    using lock_ticket [of sleep1 0 0 "[]" 1 demo_renv] by (simp add: sleep_defs demo_defs)
  moreover have "run_step demo_renv sleep2 sleep3"
    using check_entry [of sleep2 0 0 "[]" 1 demo_renv]
    by (simp add: sleep_defs demo_defs hold_next_def client_entry_def client_key_def)
  moreover have "run_step demo_renv sleep3 sleep4"
    using wait_ticket [of sleep3 0 0 "[]" 1 demo_renv] by (simp add: sleep_defs demo_defs)
  ultimately show ?thesis
    using demo_reachable5 run by metis
qed

text \<open>With timers, the call may give up while the worker is about to send it the ticket.\<close>

definition "late = set_client demo4 0 (CDone (Inl (Errorf ''nonresponsive work queue'' [])))"

lemma demo_reachable4: "reachable demo_renv tm demo4"
  by (rule demo_steps demo_reachable run [rotated])+

lemma late_reachable: "reachable demo_renv True late"
proof -
  have "env_step demo_renv True demo4 late"
    unfolding late_def by (rule time_out) (simp_all add: demo_defs)
  then show ?thesis using demo_reachable4 env by blast
qed

section \<open>Properties\<close>

text \<open>
  C22: However the scheduler interleaves calls and workers, whatever the backend answers and
  however often caches are cleared meanwhile, the calls and workers of a reachable state make at
  most \<open>run_bound\<close> steps as long as no new call arrives: no call loops forever.\<close>

theorem requester_terminates:
  assumes "reachable E tm s" "quiet_run E s n s'"
  shows "n \<le> run_bound E s"
  using assms(2,1) by (rule quiet_run_bound)

theorem requester_terminates_witness: "(10::nat) \<le> run_bound demo_renv demo0"
  using requester_terminates [OF demo_reachable demo_quiet] .

text \<open>
  C9: With at least one worker, every request answered without a panic and timers that do not
  fire, every call returns: as long as no new call arrives, every run, however the scheduler interleaves the calls and
  workers and whatever caches are cleared meanwhile, has at most \<open>run_bound\<close> steps of calls and workers, and
  where it can go no further every call has returned; and such a run exists.
\<close>

theorem calls_return:
  assumes "reachable E False s" "1 \<le> env_workers E" "answers_all E"
  shows "(stuck E s \<longrightarrow> (\<forall>c. returned (r_clients s c))) \<and>
    (\<forall>n s'. quiet_run E s n s' \<longrightarrow> n \<le> run_bound E s \<and> (stuck E s' \<longrightarrow> (\<forall>c. returned (r_clients s' c)))) \<and>
    (\<exists>n s'. n \<le> run_bound E s \<and> quiet_run E s n s' \<and> (\<forall>c. returned (r_clients s' c)))"
proof -
  obtain n s' where "quiet_run E s n s'" "stuck E s'"
    using quiet_run_to_stuck [OF assms(1) quiet_nil] by blast
  then show ?thesis
    using quiet_run_bound [OF _ assms(1)] quiet_run_reachable [OF _ assms(1)]
      stuck_reachable_returned [OF _ assms(2) answers_all_at [OF assms(3)]]
      assms(1) by blast
qed

theorem calls_return_witness:
  "(\<exists>n s'. n \<le> run_bound demo_renv demo0 \<and> quiet_run demo_renv demo0 n s' \<and> (\<forall>c. returned (r_clients s' c))) \<and>
   returned (r_clients demo10 0)"
  using calls_return [OF demo_reachable _ demo_answers] calls_return [OF demo_reachable_end _ demo_answers] demo_stuck
  by (simp add: demo_renv_def)

text \<open>
  C10: No wakeup is lost, even when timers fire and caches are cleared: a call that sleeps on a
  ticket sleeps on that of one of the workers, and this worker still has its broadcast to do;
  and the lock of a ticket has the owner the program counters say.\<close>

theorem no_lost_wakeup:
  assumes "reachable E tm s"
  shows "(r_clients s c = CSleep i errs t \<longrightarrow> 1 \<le> t \<and> t \<le> env_workers E \<and> busy (r_workers s t)) \<and>
    (r_locks s t = Some (ClientA c) \<longleftrightarrow> held_c (r_clients s c) = Some t) \<and>
    (r_locks s t = Some (WorkerA n) \<longleftrightarrow> n = t \<and> held_w (r_workers s n))"
proof (intro conjI)
  note inv = reachable_inv [OF assms, unfolded requester_inv_def]
  show "r_locks s t = Some (ClientA c) \<longleftrightarrow> held_c (r_clients s c) = Some t"
    "r_locks s t = Some (WorkerA n) \<longleftrightarrow> n = t \<and> held_w (r_workers s n)"
    using inv by (auto simp: lock_inv_def lock_okD)
  have "busy (r_workers s t)" if "r_clients s c = CSleep i errs t"
    using inv that sleep_invD [of s c] by simp
  moreover have "1 \<le> t \<and> t \<le> env_workers E" if "busy (r_workers s t)"
    using shape_invD(3) [of E s t] inv that by force
  ultimately show "r_clients s c = CSleep i errs t \<longrightarrow> 1 \<le> t \<and> t \<le> env_workers E \<and> busy (r_workers s t)"
    by blast
qed

theorem no_lost_wakeup_witness: "r_clients sleep4 0 = CSleep 0 [] 1 \<and> busy (r_workers sleep4 1)"
  using no_lost_wakeup [OF sleep_reachable, of 0 0 "[]" 1] by (simp add: sleep_defs)

text \<open>
  The requests that the public methods make: only \<^verbatim>\<open>DecryptName\<close> has a second argument.
\<close>

definition wf_request :: "work \<Rightarrow> bool" where
  "wf_request w \<longleftrightarrow>
     (case requestType w of workDecryptName \<Rightarrow> arg2 w \<noteq> [] | _ \<Rightarrow> arg2 w = [])"

lemma wf_request_keys: "wf_request w \<Longrightarrow> worker_key E w = client_key E w"
  by (auto simp: wf_request_def worker_key_def client_key_def split: workType.splits)

lemma wf_request_key_eq:
  assumes "wf_request w" "wf_request w'" "requestType w = requestType w'" "worker_key E w = client_key E w'"
  shows "arg1 w = arg1 w' \<and> env_siphash E sipHashKey1 sipHashKey2 (arg2 w) = env_siphash E sipHashKey1 sipHashKey2 (arg2 w')"
  using assms by (auto simp: wf_request_def worker_key_def client_key_def complexKey_eq_iff split: workType.splits)

text \<open>
  C11: A call returns nothing stale or foreign: its value is an answer that the backend gave to
  a request of the same type for the same name (for a decrypted name, with an initialization vector of
  the same hash), and its error is the backend's or one of the requester's own two. This holds
  for every interleaving of calls, workers, clearings and timeouts.\<close>

theorem replies_from_backend:
  assumes "reachable E tm s" "\<And>x. wf_request (env_request E x)" "r_clients s c = CDone out"
  shows "case out of
      Inr d \<Rightarrow> \<exists>w r err. env_answers E w r err \<and> reply_data r = Some d \<and>
        requestType w = requestType (env_request E c) \<and> arg1 w = arg1 (env_request E c) \<and>
        env_siphash E sipHashKey1 sipHashKey2 (arg2 w) = env_siphash E sipHashKey1 sipHashKey2 (arg2 (env_request E c))
    | Inl er \<Rightarrow> own_error er \<or> (\<exists>w r. env_answers E w r (Some er) \<and>
        requestType w = requestType (env_request E c) \<and> arg1 w = arg1 (env_request E c))"
proof -
  have "call_ok E (call_type E c) (call_key E c) (CDone out)"
    using prov_call [OF reachable_prov [OF assms(1)], of c] assms(3) by simp
  moreover have "\<exists>w r. env_answers E w r err \<and> reply_data r = d \<and> requestType w = call_type E c \<and>
      arg1 w = arg1 (env_request E c) \<and>
      env_siphash E sipHashKey1 sipHashKey2 (arg2 w) = env_siphash E sipHashKey1 sipHashKey2 (arg2 (env_request E c))"
    if "answered E (call_type E c) (call_key E c) d err" for d err
    using that wf_request_key_eq [OF assms(2) assms(2)] unfolding answered_def by metis
  ultimately show ?thesis
    by (cases out) (fastforce+)
qed

theorem replies_from_backend_witness:
  "\<exists>w r err. env_answers demo_renv w r err \<and> reply_data r = Some (RFile [1]) \<and> requestType w = workReadFile \<and> arg1 w = ''a''"
proof -
  have "wf_request (env_request demo_renv x)" "r_clients demo10 0 = CDone (Inr (RFile [1]))"
    "env_request demo_renv x = \<lparr>requestType = workReadFile, arg1 = ''a'', arg2 = []\<rparr>" for x
    by (simp_all add: demo_defs wf_request_def)
  with replies_from_backend [OF demo_reachable_end, of 0 "Inr (RFile [1])"] show ?thesis by auto
qed

definition typed_answers :: "renv \<Rightarrow> bool" where
  "typed_answers E \<longleftrightarrow> (\<forall>w r err. env_answers E w r err \<longrightarrow>
     (case requestType w of workReadFile \<Rightarrow> \<exists>d. r = RFile d | workReadDir \<Rightarrow> \<exists>d. r = RDir d | _ \<Rightarrow> \<exists>d. r = RName d))"

text \<open>
  C23: The type assertions of the public methods cannot panic: each of them finds in the outcome
  of its call a value of the type it expects, and never an empty one, because the three caches
  are separate.\<close>

theorem results_typed:
  assumes "reachable E tm s" "typed_answers E" "r_clients s c = CDone out"
  shows "case requestType (env_request E c) of
      workReadFile \<Rightarrow> (\<exists>e. Requester_ReadFile out = Inl (Err e)) \<or> (\<exists>d. Requester_ReadFile out = Inr d \<and> d \<noteq> [])
    | workReadDir \<Rightarrow> (\<exists>e. Requester_ReadDir out = Inl (Err e)) \<or> (\<exists>d. Requester_ReadDir out = Inr d \<and> d \<noteq> [])
    | _ \<Rightarrow> (\<exists>e. Requester_DecryptName out = Inl (Err e)) \<or> (\<exists>d. Requester_DecryptName out = Inr d \<and> d \<noteq> [])"
proof (cases out)
  case (Inl e)
  then show ?thesis
    by (simp add: Requester_ReadFile_def Requester_ReadDir_def Requester_DecryptName_def split: workType.splits)
next
  case (Inr d)
  then obtain err where "answered E (call_type E c) (call_key E c) (Some d) err"
    using prov_call [OF reachable_prov [OF assms(1)], of c] assms(3) by auto
  then obtain w r where "requestType w = call_type E c" "env_answers E w r err" "reply_data r = Some d"
    unfolding answered_def by metis
  then have "case call_type E c of workReadFile \<Rightarrow> \<exists>x. r = RFile x | workReadDir \<Rightarrow> \<exists>x. r = RDir x | _ \<Rightarrow> \<exists>x. r = RName x"
    using assms(2) unfolding typed_answers_def by metis
  moreover have "r = d \<and> d \<noteq> RFile [] \<and> d \<noteq> RDir [] \<and> d \<noteq> RName []"
    using \<open>reply_data r = Some d\<close> by (auto simp: reply_data_def split: reply.splits if_splits)
  ultimately show ?thesis
    unfolding Inr
    by (cases "call_type E c") (auto simp: Requester_ReadFile_def Requester_ReadDir_def Requester_DecryptName_def)
qed

theorem results_typed_witness: "\<exists>d. Requester_ReadFile (Inr (RFile [1])) = Inr d \<and> d \<noteq> []"
proof -
  have "typed_answers demo_renv"
    by (auto simp: typed_answers_def demo_renv_def split: workType.splits)
  from results_typed [OF demo_reachable_end this, of 0 "Inr (RFile [1])"] show ?thesis
    by (simp add: demo_defs Requester_ReadFile_def)
qed

text \<open>
  A call that times out while its work is queued costs the requester a worker: a worker
  that is about to send the ticket to a call that has returned blocks on the unbuffered
  channel for good, whatever else happens. (The worker that only closes the channel is not
  affected.)\<close>

lemma late_worker_blocked:
  assumes "r_workers s n = WSendOwn c \<or> r_workers s n = WSendOther c t" "r_clients s c = CDone out"
    "run_step E s s' \<or> env_step E tm s s'"
  shows "r_workers s' n = r_workers s n \<and> r_clients s' c = CDone out"
proof -
  have "r_workers s' n = r_workers s n \<and> r_clients s' c = CDone out" if "run_step E s s'"
    using that assms(1,2) by (cases rule: run_step.cases) (auto simp: wake_all_def receive_closed_def)
  moreover have "r_workers s' n = r_workers s n \<and> r_clients s' c = CDone out" if "env_step E tm s s'"
    using that assms(1,2) by (cases rule: env_step.cases) auto
  ultimately show ?thesis using assms(3) by blast
qed

lemma late_worker_blocked_witness:
  "reachable demo_renv True late \<and> r_workers (set_client late 1 (CTry 0 [])) 1 = WSendOwn 0"
proof
  have "env_step demo_renv True late (set_client late 1 (CTry 0 []))"
    by (rule new_call) (simp_all add: late_def demo_defs)
  then show "r_workers (set_client late 1 (CTry 0 [])) 1 = WSendOwn 0"
    using late_worker_blocked [of late 1 0 0 "Inl (Errorf ''nonresponsive work queue'' [])" demo_renv
        "set_client late 1 (CTry 0 [])" True]
    by (simp add: late_def demo_defs)
qed (rule late_reachable)

text \<open>
  C35: An empty file, an empty directory or an empty name cannot be read through the
  requester, whatever else the backend holds: if what it answers to the requests for this one name (for a name to
  decrypt, with an initialization vector of the same hash) is empty and without an error, then the empty
  answer is cached as if it were missing, the attempts are used up, and the call returns one of the requester's own
  errors.
\<close>

theorem empty_reply_is_error:
  assumes "reachable E tm s" "\<And>x. wf_request (env_request E x)" "r_clients s c = CDone out"
    "\<And>w r err. env_answers E w r err \<Longrightarrow> requestType w = requestType (env_request E c) \<Longrightarrow> arg1 w = arg1 (env_request E c) \<Longrightarrow>
       env_siphash E sipHashKey1 sipHashKey2 (arg2 w) = env_siphash E sipHashKey1 sipHashKey2 (arg2 (env_request E c)) \<Longrightarrow>
       r \<in> {RFile [], RDir [], RName []} \<and> err = None"
  shows "\<exists>er. out = Inl er \<and> own_error er"
proof -
  have "call_ok E (call_type E c) (call_key E c) (CDone out)"
    using prov_call [OF reachable_prov [OF assms(1)], of c] assms(3) by simp
  moreover have "d = None \<and> err = None" if "answered E (call_type E c) (call_key E c) d err" for d err
  proof -
    obtain c' r where c': "call_type E c' = call_type E c" "worker_key E (env_request E c') = call_key E c"
      "env_answers E (env_request E c') r err" "d = reply_data r"
      using \<open>answered E (call_type E c) (call_key E c) d err\<close> unfolding answered_def by blast
    have "r \<in> {RFile [], RDir [], RName []} \<and> err = None"
      using assms(4) [OF c'(3,1)] wf_request_key_eq [OF assms(2,2) c'(1,2)] by blast
    then show ?thesis
      using c'(4) by (auto simp: reply_data_def)
  qed
  ultimately show ?thesis
    by (cases out) fastforce+
qed

text \<open>An empty file \<open>a\<close> beside a file \<open>b\<close> that is not empty.\<close>

theorem empty_reply_is_error_witness:
  "\<exists>E s er. reachable E False s \<and> env_answers E (env_request E 0) (RFile []) None \<and> env_answers E (env_request E 1) (RFile [1]) None \<and>
     requestType (env_request E 1) = requestType (env_request E 0) \<and> r_clients s 0 = CDone (Inl er) \<and> own_error er"
proof -
  let ?E = "demo_renv\<lparr>env_request := (\<lambda>c. \<lparr>requestType = workReadFile, arg1 = (if c = 0 then ''a'' else ''b''), arg2 = []\<rparr>),
    env_answers := (\<lambda>w r err. r = RFile (if arg1 w = ''a'' then [] else [1]) \<and> err = None)\<rparr>"
  have "reachable ?E False demo0"
    unfolding demo0_def by (intro env [OF start] new_call) (simp_all add: demo_renv_def)
  then obtain s out where s: "reachable ?E False s" "r_clients s 0 = CDone out"
    using call_completes [of ?E demo0 0] by (auto simp: demo_renv_def answers_all_def demo0_def)
  then have "\<exists>er. out = Inl er \<and> own_error er"
    by (intro empty_reply_is_error [OF s(1) _ s(2)]) (simp_all add: wf_request_def)
  with s show ?thesis by (intro exI [of _ ?E] exI [of _ s]) auto
qed

end
