(* ===== verification/RequesterStop.thy ===== *)
theory RequesterStop
  imports RequesterReplies
begin

text \<open>
  \<^verbatim>\<open>Requester.Stop\<close> of \<^verbatim>\<open>requester/requester.go\<close>: it closes the work queue. The workers receive what is
  still queued and then the zero value, on which they return; a call that sends to the closed queue
  panics, and so does a second \<^verbatim>\<open>Stop\<close>. The relation extends the steps of \<open>Requester\<close> by these;
  what holds of every reachable state there carries over.
\<close>

section \<open>The requester with Stop\<close>

record sstate =
  s_req :: rstate
  s_closed :: bool
  s_gone :: "nat set"
  s_crash :: bool

definition stop_New :: sstate where
  "stop_New = \<lparr>s_req = Requester_New, s_closed = False, s_gone = {}, s_crash = False\<rparr>"

text \<open>
  The steps of calls and workers that remain: nothing is sent to a closed queue, and a worker that
  has returned takes no work.
\<close>

definition open_step :: "sstate \<Rightarrow> rstate \<Rightarrow> bool" where
  "open_step s r' \<longleftrightarrow>
     (s_closed s \<longrightarrow> length (r_queue r') \<le> length (r_queue (s_req s))) \<and>
     (\<forall>n\<in>s_gone s. r_workers r' n = r_workers (s_req s) n)"

inductive stop_step :: "renv \<Rightarrow> sstate \<Rightarrow> sstate \<Rightarrow> bool" for E where
  proc: "\<not> s_crash s \<Longrightarrow> run_step E (s_req s) r' \<Longrightarrow> open_step s r' \<Longrightarrow> stop_step E s (s\<lparr>s_req := r'\<rparr>)"
| send_closed: "\<not> s_crash s \<Longrightarrow> s_closed s \<Longrightarrow> r_clients (s_req s) c = CSend i errs \<Longrightarrow>
    stop_step E s (s\<lparr>s_crash := True\<rparr>)"
| worker_exit: "\<not> s_crash s \<Longrightarrow> s_closed s \<Longrightarrow> 1 \<le> n \<Longrightarrow> n \<le> env_workers E \<Longrightarrow> n \<notin> s_gone s \<Longrightarrow>
    r_workers (s_req s) n = WIdle \<Longrightarrow> r_queue (s_req s) = [] \<Longrightarrow>
    stop_step E s (s\<lparr>s_gone := insert n (s_gone s)\<rparr>)"

definition Requester_Stop :: "sstate \<Rightarrow> sstate" where
  "Requester_Stop s = (if s_closed s then s\<lparr>s_crash := True\<rparr> else s\<lparr>s_closed := True\<rparr>)"

inductive reachable_stop :: "renv \<Rightarrow> bool \<Rightarrow> sstate \<Rightarrow> bool" for E timers where
  stop_start: "reachable_stop E timers stop_New"
| stop_proc: "reachable_stop E timers s \<Longrightarrow> stop_step E s s' \<Longrightarrow> reachable_stop E timers s'"
| stop_env: "reachable_stop E timers s \<Longrightarrow> \<not> s_crash s \<Longrightarrow> env_step E timers (s_req s) r' \<Longrightarrow>
    reachable_stop E timers (s\<lparr>s_req := r'\<rparr>)"
| stop_call: "reachable_stop E timers s \<Longrightarrow> \<not> s_crash s \<Longrightarrow> reachable_stop E timers (Requester_Stop s)"

inductive_cases stop_stepE: "stop_step E s s'"

section \<open>Invariants\<close>

lemma reachable_stop_base: "reachable_stop E tm s \<Longrightarrow> reachable E tm (s_req s)"
proof (induction rule: reachable_stop.induct)
  case (stop_proc s s')
  from stop_proc(2) show ?case
    by (cases rule: stop_step.cases) (use stop_proc(3) in \<open>auto intro: run\<close>)
qed (auto simp: stop_New_def Requester_Stop_def intro: reachable.intros)

lemma env_step_queue: "env_step E tm r r' \<Longrightarrow> r_queue r' = r_queue r \<and> r_workers r' = r_workers r"
  by (erule env_step.cases) auto

text \<open>Workers return only once the queue is closed and drained, and it stays so.\<close>

definition gone_inv :: "renv \<Rightarrow> sstate \<Rightarrow> bool" where
  "gone_inv E s \<longleftrightarrow> s_gone s \<subseteq> {1..env_workers E} \<and>
     (\<forall>n\<in>s_gone s. s_closed s \<and> r_queue (s_req s) = [] \<and> r_workers (s_req s) n = WIdle)"

lemma gone_inv_step: "stop_step E s s' \<Longrightarrow> gone_inv E s \<Longrightarrow> gone_inv E s'"
  by (erule stop_stepE) (auto simp: gone_inv_def open_step_def)

lemma reachable_stop_gone: "reachable_stop E tm s \<Longrightarrow> gone_inv E s"
proof (induction rule: reachable_stop.induct)
  case (stop_env s r')
  then show ?case
    using env_step_queue by (simp add: gone_inv_def)
qed (auto simp: gone_inv_step, auto simp: gone_inv_def stop_New_def Requester_Stop_def)

section \<open>Draining\<close>

lemma run_step_queue_le:
  "run_step E r r' \<Longrightarrow> (\<And>c i errs. r_clients r c \<noteq> CSend i errs) \<Longrightarrow> length (r_queue r') \<le> length (r_queue r)"
  by (erule run_step.cases) auto

lemma run_step_idle_worker:
  "run_step E r r' \<Longrightarrow> r_workers r n = WIdle \<Longrightarrow> r_queue r = [] \<Longrightarrow> r_workers r' n = WIdle"
  by (erule run_step.cases) auto

lemma stop_stuck_base:
  assumes "gone_inv E s" "\<not> s_crash s" "s_closed s" "\<And>s'. \<not> stop_step E s s'"
  shows "stuck E (s_req s)"
  unfolding stuck_def
proof (intro allI notI)
  fix r'
  assume r: "run_step E (s_req s) r'"
  have "length (r_queue r') \<le> length (r_queue (s_req s))"
    using run_step_queue_le [OF r] send_closed [OF assms(2,3)] assms(4) by blast
  moreover have "r_workers r' n = r_workers (s_req s) n" if "n \<in> s_gone s" for n
    using run_step_idle_worker [OF r, of n] assms(1) that by (simp add: gone_inv_def)
  ultimately show False
    using proc [OF assms(2) r] assms(4) by (simp add: open_step_def)
qed

text \<open>What a run of calls and workers uses up.\<close>

definition stop_weight :: "renv \<Rightarrow> rstate \<Rightarrow> sstate \<Rightarrow> nat" where
  "stop_weight E r0 s = run_weight E r0 (s_req s) + card ({1..env_workers E} - s_gone s) + (if s_crash s then 0 else 1)"

lemma stop_weight_decreases:
  assumes "stop_step E s s'" "shape_inv E (s_req s)" "calls (s_req s) = calls r0"
  shows "stop_weight E r0 s' < stop_weight E r0 s"
  using assms(1)
proof (cases rule: stop_step.cases)
  case (proc r')
  then show ?thesis
    using weight_decreases [OF proc(3) assms(2)] assms(3) by (simp add: stop_weight_def)
next
  case (worker_exit n)
  have "n \<in> {1..env_workers E} - s_gone s"
    using worker_exit(4-6) by simp
  then have "card ({1..env_workers E} - insert n (s_gone s)) < card ({1..env_workers E} - s_gone s)"
    by (metis Diff_insert card_Diff1_less finite_Diff finite_atLeastAtMost)
  then show ?thesis
    using worker_exit(1,2) by (simp add: stop_weight_def)
qed (simp add: stop_weight_def)

lemma stop_step_calls: "stop_step E s s' \<Longrightarrow> calls (s_req s') = calls (s_req s)"
  by (erule stop_stepE) (simp_all add: calls_run)

lemma stop_run_weight:
  assumes "reachable_stop E tm s" "(stop_step E ^^ n) s s'"
  shows "reachable_stop E tm s' \<and> calls (s_req s') = calls (s_req s) \<and> s_closed s' = s_closed s \<and>
    stop_weight E (s_req s) s' + n \<le> stop_weight E (s_req s) s"
  using assms(2)
proof (induction n arbitrary: s')
  case (Suc n)
  then obtain t where t: "(stop_step E ^^ n) s t" "stop_step E t s'"
    by auto
  note IH = Suc.IH [OF t(1)]
  have "shape_inv E (s_req t)"
    using reachable_inv [OF reachable_stop_base] IH unfolding requester_inv_def by blast
  from stop_weight_decreases [OF t(2) this, of "s_req s"] IH show ?case
    using stop_step_calls [OF t(2)] stop_proc [OF _ t(2)] t(2) by (auto elim!: stop_stepE)
qed (use assms(1) in simp)

definition stop_bound :: "renv \<Rightarrow> sstate \<Rightarrow> nat" where
  "stop_bound E s = run_bound E (s_req s) + env_workers E + 1"

lemma stop_run_bound:
  assumes "reachable_stop E tm s" "(stop_step E ^^ n) s s'"
  shows "n \<le> stop_bound E s"
proof -
  have "card ({1..env_workers E} - s_gone s) \<le> card {1..env_workers E}"
    by (rule card_mono) auto
  then have "stop_weight E (s_req s) s \<le> stop_bound E s"
    using run_weight_bound [of E "s_req s"] by (simp add: stop_weight_def stop_bound_def)
  with stop_run_weight [OF assms] show ?thesis by linarith
qed

lemma stop_stuck_drained:
  assumes "reachable_stop E False s" "s_closed s" "\<not> s_crash s" "\<And>s'. \<not> stop_step E s s'"
    "1 \<le> env_workers E" "answers_all E"
  shows "s_gone s = {1..env_workers E} \<and> r_queue (s_req s) = [] \<and> (\<forall>c. returned (r_clients (s_req s) c))"
proof -
  note gone = reachable_stop_gone [OF assms(1)] and base = reachable_stop_base [OF assms(1)]
  have st: "stuck E (s_req s)"
    by (rule stop_stuck_base [OF gone assms(3,2,4)])
  note inv = reachable_inv [OF base] reachable_pend [OF base, simplified]
  have queue: "r_queue (s_req s) = []"
    by (rule stuck_queue_empty [OF st answers_all_at [OF assms(6)] inv assms(5)])
  have "n \<in> s_gone s" if "n \<in> {1..env_workers E}" for n
    using worker_exit [OF assms(3,2), of n E] that queue stuck_workers_idle [OF st answers_all_at [OF assms(6)] inv] assms(4) by auto
  moreover have "s_gone s \<subseteq> {1..env_workers E}"
    using gone by (simp add: gone_inv_def)
  ultimately show ?thesis
    using queue stuck_reachable_returned [OF base assms(5) answers_all_at [OF assms(6)] st] by blast
qed

text \<open>Where every call has returned, no step brings one back, so nothing is sent any more.\<close>

lemma returned_run:
  assumes "run_step E r r'" "\<And>c. returned (r_clients r c)"
  shows "returned (r_clients r' c)"
proof -
  have pc: "r_clients r x = CIdle \<or> (\<exists>out. r_clients r x = CDone out)" for x
    using assms(2) [of x] by (simp add: returned_def)
  have never: "r_clients r x \<noteq> CTry i errs" "r_clients r x \<noteq> CSend i errs" "r_clients r x \<noteq> CWait i errs"
    "r_clients r x \<noteq> CTicket i errs tk" "r_clients r x \<noteq> CDelete i errs" "r_clients r x \<noteq> CLock i errs t"
    "r_clients r x \<noteq> CHold i errs t" "r_clients r x \<noteq> CPark i errs t" "r_clients r x \<noteq> CWake i errs t"
    "r_clients r x \<noteq> CBreak i errs t e" for x i errs tk t e
    using pc [of x] by auto
  have eq: "wake_all n (r_clients r) x = r_clients r x" "receive_closed (r_clients r x) = r_clients r x" for n x
    using pc [of x] by (auto simp: wake_all_def receive_closed_def)
  show ?thesis
    using assms(1)
    by cases (simp_all add: never eq assms(2))
qed

lemma stop_step_returned:
  assumes "stop_step E s s'" "\<And>c. returned (r_clients (s_req s) c)" "\<not> s_crash s"
  shows "returned (r_clients (s_req s') c) \<and> \<not> s_crash s'"
  using assms(1)
proof (cases rule: stop_step.cases)
  case (send_closed c i errs)
  then show ?thesis
    using assms(2) [of c] by (simp add: returned_def)
qed (use assms(2,3) returned_run in auto)

lemma stop_run_returned:
  "(stop_step E ^^ n) s s' \<Longrightarrow> \<forall>c. returned (r_clients (s_req s) c) \<Longrightarrow> \<not> s_crash s \<Longrightarrow>
   (\<forall>c. returned (r_clients (s_req s') c)) \<and> \<not> s_crash s'"
proof (induction n arbitrary: s')
  case (Suc n)
  then obtain t where "(stop_step E ^^ n) s t" "stop_step E t s'"
    by auto
  then show ?case
    using Suc stop_step_returned by blast
qed simp

section \<open>Properties\<close>

text \<open>
  C30: Stop is graceful up to one panic, on three conditions: no timer of a call has fired (a worker that has a ticket for
  a call that timed out blocks for good, \<open>late_worker_blocked\<close>, and then never returns), there is a
  worker, and every request is answered, by the backend or by the decrypter, without a panic. Then once the queue is
  closed, whatever the scheduler does, the calls and workers make at most \<open>stop_bound\<close> more steps; where they can go no
  further either a call has panicked on the closed queue, or the queue is drained, all workers have returned
  and no call is left waiting. If every call had returned before, there is no panic.
\<close>

theorem Stop_drains:
  assumes "reachable_stop E False s" "s_closed s" "1 \<le> env_workers E" "answers_all E" "(stop_step E ^^ n) s s'"
  shows "n \<le> stop_bound E s \<and>
    ((\<nexists>s''. stop_step E s' s'') \<longrightarrow> s_crash s' \<or>
      (s_gone s' = {1..env_workers E} \<and> r_queue (s_req s') = [] \<and> (\<forall>c. returned (r_clients (s_req s') c)))) \<and>
    ((\<forall>c. returned (r_clients (s_req s) c)) \<and> \<not> s_crash s \<longrightarrow> \<not> s_crash s')"
  using stop_run_bound [OF assms(1,5)] stop_run_weight [OF assms(1,5)] stop_run_returned [OF assms(5)]
    stop_stuck_drained [OF _ _ _ _ assms(3,4), of s'] assms(2) by blast

section \<open>A stopped run\<close>

text \<open>
  The requester of the run above is stopped after its call has returned, and its worker returns;
  stopped as the call begins, it panics.
\<close>

definition "stopped = \<lparr>s_req = demo10, s_closed = True, s_gone = {}, s_crash = False\<rparr>"
definition "drained = \<lparr>s_req = demo10, s_closed = True, s_gone = {1}, s_crash = False\<rparr>"

lemma reachable_stop_lift:
  "reachable E tm r \<Longrightarrow> reachable_stop E tm \<lparr>s_req = r, s_closed = False, s_gone = {}, s_crash = False\<rparr>"
proof (induction rule: reachable.induct)
  case start
  then show ?case
    using stop_start [of E tm] by (simp add: stop_New_def)
next
  case (run r r')
  then show ?case
    using stop_proc [OF run(3) proc [OF _ _]] by (simp add: open_step_def)
next
  case (env r r')
  then show ?case
    using stop_env [OF env(3), of r'] by simp
qed

lemma stopped_reachable: "reachable_stop demo_renv tm stopped"
  using stop_call [OF reachable_stop_lift [OF demo_reachable_end]] by (simp add: Requester_Stop_def stopped_def)

lemma demo10_idle: "r_workers demo10 n = WIdle" "r_queue demo10 = []"
  by (simp_all add: demo_defs)

lemma demo_workers: "env_workers demo_renv = 1"
  by (simp add: demo_renv_def)

lemma stopped_exit: "(stop_step demo_renv ^^ 1) stopped drained"
  using worker_exit [of stopped 1 demo_renv]
  by (simp add: stopped_def drained_def demo10_idle demo_workers eq_OO)

lemma drained_stuck: "\<not> stop_step demo_renv drained s"
proof
  have "r_clients demo10 c \<noteq> CSend i errs" for c i errs
    by (simp add: demo_defs wake_all_def)
  note never = this demo_stuck [unfolded stuck_def]
  assume "stop_step demo_renv drained s"
  then show False
    by cases (use never in \<open>simp_all add: drained_def demo_workers\<close>)
qed

theorem Stop_drains_witness:
  "(1::nat) \<le> stop_bound demo_renv stopped \<and> \<not> s_crash drained \<and> (\<forall>c. returned (r_clients demo10 c))"
proof -
  have "s_closed stopped" "1 \<le> env_workers demo_renv"
    by (simp_all add: stopped_def demo_renv_def)
  note Stop_drains [OF stopped_reachable this demo_answers stopped_exit]
  then show ?thesis
    using drained_stuck by (auto simp: drained_def)
qed

lemma Stop_panics_caller:
  "\<exists>s'. (stop_step demo_renv ^^ 2) (Requester_Stop \<lparr>s_req = demo0, s_closed = False, s_gone = {}, s_crash = False\<rparr>) s' \<and> s_crash s'"
proof -
  let ?s = "\<lparr>s_req = demo0, s_closed = True, s_gone = {}, s_crash = False\<rparr>"
  have "open_step ?s demo1"
    by (simp add: open_step_def demo_defs)
  then have 1: "stop_step demo_renv ?s (?s\<lparr>s_req := demo1\<rparr>)"
    by (intro proc) (simp_all add: demo_steps)
  have 2: "stop_step demo_renv (?s\<lparr>s_req := demo1\<rparr>) (?s\<lparr>s_req := demo1, s_crash := True\<rparr>)"
    using send_closed [of "?s\<lparr>s_req := demo1\<rparr>" 0 0 "[]" demo_renv] by (simp add: demo_defs)
  from 1 2 have "(stop_step demo_renv ^^ 2) ?s (?s\<lparr>s_req := demo1, s_crash := True\<rparr>)"
    by (auto simp: numeral_2_eq_2)
  then show ?thesis
    by (auto simp: Requester_Stop_def intro!: exI)
qed

end
