(* ===== verification/TreeSystem.thy ===== *)
theory TreeSystem
  imports TreeWp RequesterStop
begin

text \<open>
  The server at work: the SFTP library runs the callbacks of \<^verbatim>\<open>handlers/decrypt.go\<close> for many requests
  at the same time, on one tree (\<^verbatim>\<open>filetree/filetree.go\<close>), whose calls of the requester
  (\<^verbatim>\<open>requester/makerequest.go\<close>) are the calls of the step relation in \<open>Requester\<close>. A step of the system
  is a step of a call or a worker of the requester, or one access of a callback to the tree, or the
  beginning or the end of one of its calls. Nothing is atomic but the single accesses, which the code
  protects by locks.
\<close>

section \<open>The system\<close>

text \<open>
  The primitives, the requester's parameters, what the backend may answer to \<^verbatim>\<open>Stat\<close>, and the request
  that each callback serves.
\<close>

record sysenv =
  y_prims :: prims
  y_requester :: renv
  y_stat :: "string \<Rightarrow> goerr + FileInfo \<Rightarrow> bool"
  y_ops :: "nat \<Rightarrow> sftp_op"

text \<open>
  A callback that has not begun, one that runs, one that waits for a call of the requester, and
  one that has returned.
\<close>

datatype thread = TNone | TRun "op_val tprog" | TWait nat "op_val tprog" | TDone "goerr + op_val"

record sys =
  y_req :: rstate
  y_tree :: FileTree
  y_threads :: "nat \<Rightarrow> thread"
  y_crash :: "fault option"

definition set_thread :: "sys \<Rightarrow> nat \<Rightarrow> thread \<Rightarrow> sys" where
  "set_thread y j th = y\<lparr>y_threads := (y_threads y)(j := th)\<rparr>"

text \<open>One access to the tree, if that is what comes next.\<close>

fun tree_access :: "prims \<Rightarrow> FileTree \<Rightarrow> 'a tprog \<Rightarrow> (FileTree \<times> 'a tprog) result option" where
  "tree_access P t (PFault f) = Some (Inl f)"
| "tree_access P t (PRoot k) = Some (Inr (t, k (encryptedRoot t)))"
| "tree_access P t (PFind p k) = Some (case Find (ft_fastCache t) p of
      Inl f \<Rightarrow> Inl f | Inr (d, fc) \<Rightarrow> Inr (t\<lparr>ft_fastCache := fc\<rparr>, k d))"
| "tree_access P t (PStore p c k) = Some (case Store (ft_fastCache t) p c of
      Inl f \<Rightarrow> Inl f | Inr fc \<Rightarrow> Inr (t\<lparr>ft_fastCache := fc\<rparr>, k))"
| "tree_access P t (PSize i k) = Some (case plain_size t i of Inl f \<Rightarrow> Inl f | Inr n \<Rightarrow> Inr (t, k n))"
| "tree_access P t (PDecrypt f k) = Some (case decryptFile P (ft_cEnc t) f of
      Inl x \<Rightarrow> Inl x | Inr (r, be) \<Rightarrow> Inr (t\<lparr>ft_cEnc := be\<rparr>, k r))"
| "tree_access P t _ = None"

text \<open>The call of the requester that comes next.\<close>

fun prog_request :: "'a tprog \<Rightarrow> work option" where
  "prog_request (PReadFile p k) = Some \<lparr>requestType = workReadFile, arg1 = p, arg2 = []\<rparr>"
| "prog_request (PReadDir p k) = Some \<lparr>requestType = workReadDir, arg1 = p, arg2 = []\<rparr>"
| "prog_request (PDecryptName n iv k) = Some \<lparr>requestType = workDecryptName, arg1 = n, arg2 = iv\<rparr>"
| "prog_request _ = None"

text \<open>
  What the method of the requester makes of the outcome of its call; the slice that it returns has
  some capacity.
\<close>

definition returns_to :: "(goerr + 'b \<Rightarrow> 'a tprog) \<Rightarrow> 'b result \<Rightarrow> 'a tprog result" where
  "returns_to k r = (case r of Inl (Err e) \<Rightarrow> Inr (k (Inl e)) | Inl f \<Rightarrow> Inl f | Inr x \<Rightarrow> Inr (k (Inr x)))"

fun prog_resume :: "nat \<Rightarrow> goerr + reply \<Rightarrow> 'a tprog \<Rightarrow> 'a tprog result" where
  "prog_resume cap out (PReadFile p k) = returns_to k (map_sum id (\<lambda>d. \<lparr>sdata = d, scap = cap\<rparr>) (Requester_ReadFile out))"
| "prog_resume cap out (PReadDir p k) = returns_to k (Requester_ReadDir out)"
| "prog_resume cap out (PDecryptName n iv k) = returns_to k (Requester_DecryptName out)"
| "prog_resume cap out m = Inr m"

inductive sys_step :: "sysenv \<Rightarrow> sys \<Rightarrow> sys \<Rightarrow> bool" for Y where
  requester: "y_crash y = None \<Longrightarrow> run_step (y_requester Y) (y_req y) r' \<Longrightarrow> sys_step Y y (y\<lparr>y_req := r'\<rparr>)"
| begin_call: "y_crash y = None \<Longrightarrow> y_threads y j = TRun m \<Longrightarrow> prog_request m = Some (env_request (y_requester Y) c) \<Longrightarrow>
    r_clients (y_req y) c = CIdle \<Longrightarrow>
    sys_step Y y (set_thread (y\<lparr>y_req := set_client (y_req y) c (CTry 0 [])\<rparr>) j (TWait c m))"
| end_call: "y_crash y = None \<Longrightarrow> y_threads y j = TWait c m \<Longrightarrow> r_clients (y_req y) c = CDone out \<Longrightarrow>
    prog_resume cap out m = Inr m' \<Longrightarrow> sys_step Y y (set_thread y j (TRun m'))"
| end_call_panics: "y_crash y = None \<Longrightarrow> y_threads y j = TWait c m \<Longrightarrow> r_clients (y_req y) c = CDone out \<Longrightarrow>
    prog_resume cap out m = Inl f \<Longrightarrow> sys_step Y y (y\<lparr>y_crash := Some f\<rparr>)"
| access: "y_crash y = None \<Longrightarrow> y_threads y j = TRun m \<Longrightarrow> tree_access (y_prims Y) (y_tree y) m = Some (Inr (t', m')) \<Longrightarrow>
    sys_step Y y (set_thread (y\<lparr>y_tree := t'\<rparr>) j (TRun m'))"
| access_panics: "y_crash y = None \<Longrightarrow> y_threads y j = TRun m \<Longrightarrow> tree_access (y_prims Y) (y_tree y) m = Some (Inl f) \<Longrightarrow>
    sys_step Y y (y\<lparr>y_crash := Some f\<rparr>)"
| call_stat: "y_crash y = None \<Longrightarrow> y_threads y j = TRun (PStat p k) \<Longrightarrow> y_stat Y p r \<Longrightarrow>
    sys_step Y y (set_thread y j (TRun (k r)))"
| finish: "y_crash y = None \<Longrightarrow> y_threads y j = TRun (PRet r) \<Longrightarrow> sys_step Y y (set_thread y j (TDone r))"
| decrypter_panics: "y_crash y = None \<Longrightarrow> worker_panics (y_requester Y) (y_req y) f \<Longrightarrow> sys_step Y y (y\<lparr>y_crash := Some f\<rparr>)"

text \<open>
  From outside: a new request, whose path the SFTP library has made absolute, and what happens to the
  requester without its calls and workers: a timeout or a cleared cache.
\<close>

inductive sys_env :: "sysenv \<Rightarrow> bool \<Rightarrow> sys \<Rightarrow> sys \<Rightarrow> bool" for Y timers where
  new_request: "y_crash y = None \<Longrightarrow> y_threads y j = TNone \<Longrightarrow> is_abs (req_Filepath (op_request (y_ops Y j))) \<Longrightarrow>
    sys_env Y timers y (set_thread y j (TRun (op_prog (y_ops Y j))))"
| outside: "y_crash y = None \<Longrightarrow> env_step (y_requester Y) timers (y_req y) r' \<Longrightarrow> calls r' = calls (y_req y) \<Longrightarrow>
    sys_env Y timers y (y\<lparr>y_req := r'\<rparr>)"

text \<open>The server after \<^verbatim>\<open>Init\<close>: an idle requester, a tree, and no request.\<close>

definition sys_start :: "FileTree \<Rightarrow> sys" where
  "sys_start t = \<lparr>y_req = Requester_New, y_tree = t, y_threads = (\<lambda>_. TNone), y_crash = None\<rparr>"

inductive reached :: "sysenv \<Rightarrow> bool \<Rightarrow> FileTree \<Rightarrow> sys \<Rightarrow> bool" for Y timers t where
  reach_start: "reached Y timers t (sys_start t)"
| reach_step: "reached Y timers t y \<Longrightarrow> sys_step Y y y' \<Longrightarrow> reached Y timers t y'"
| reach_env: "reached Y timers t y \<Longrightarrow> sys_env Y timers y y' \<Longrightarrow> reached Y timers t y'"

inductive_cases sys_stepE: "sys_step Y y y'"
inductive_cases sys_envE: "sys_env Y timers y y'"

lemma set_thread_simps [simp]:
  "y_req (set_thread y j th) = y_req y" "y_tree (set_thread y j th) = y_tree y" "y_crash (set_thread y j th) = y_crash y"
  "y_threads (set_thread y j th) = (y_threads y)(j := th)"
  by (simp_all add: set_thread_def)

section \<open>The backend and the calls\<close>

text \<open>What the backend answers without an error is what the store holds.\<close>

definition reply_true :: "store \<Rightarrow> work \<Rightarrow> reply \<Rightarrow> bool" where
  "reply_true S w r \<longleftrightarrow>
     (case r of
        RFile b \<Rightarrow> requestType w = workReadFile \<and> file_data S (arg1 w) b
      | RDir l \<Rightarrow> requestType w = workReadDir \<and> st_ReadDir S (arg1 w) = Inr l
      | RName n \<Rightarrow> requestType w = workDecryptName \<and> st_DecryptName S (arg1 w) (arg2 w) = Inr n)"

definition legal_request :: "store \<Rightarrow> work \<Rightarrow> bool" where
  "legal_request S w \<longleftrightarrow>
     (case requestType w of
        workNone \<Rightarrow> False
      | workDecryptName \<Rightarrow> arg2 w \<in> dir_ivs S \<and> arg2 w \<noteq> []
      | _ \<Rightarrow> arg2 w = [])"

text \<open>
  The backend is truthful, and only the decrypter panics, where the store says so; there are enough calls of each
  legal request and no others; the initialization vectors of the store have different hashes.
\<close>

definition truthful :: "sysenv \<Rightarrow> store \<Rightarrow> bool" where
  "truthful Y S \<longleftrightarrow> typed_answers (y_requester Y) \<and>
     (\<forall>w r err. env_answers (y_requester Y) w r err \<and> reply_data r \<noteq> None \<longrightarrow> reply_true S w r) \<and>
     (\<forall>w f. env_panics (y_requester Y) w = Some f \<longrightarrow> requestType w = workDecryptName \<and> st_panics S (arg1 w) (arg2 w) = Some f) \<and>
     (\<forall>p i. y_stat Y p (Inr i) \<longrightarrow> st_Stat S p = Inr i)"

definition call_supply :: "sysenv \<Rightarrow> store \<Rightarrow> bool" where
  "call_supply Y S \<longleftrightarrow> (\<forall>c. legal_request S (env_request (y_requester Y) c)) \<and>
     (\<forall>w. legal_request S w \<longrightarrow> infinite {c. env_request (y_requester Y) c = w})"

definition ivs_hashed_apart :: "sysenv \<Rightarrow> store \<Rightarrow> bool" where
  "ivs_hashed_apart Y S \<longleftrightarrow> inj_on (env_siphash (y_requester Y) sipHashKey1 sipHashKey2) (dir_ivs S)"

lemma legal_wf: "legal_request S w \<Longrightarrow> wf_request w"
  by (auto simp: legal_request_def wf_request_def split: workType.splits)

lemma prog_request_type: "prog_request m = Some w \<Longrightarrow> requestType w \<noteq> workNone"
  by (cases m) auto

lemma reached_base: "reached Y tm t y \<Longrightarrow> reachable (y_requester Y) tm (y_req y)"
proof (induction rule: reached.induct)
  case (reach_step y y')
  from reach_step(2,3) show ?case
    by (elim sys_stepE) (auto intro: run env new_call dest: prog_request_type)
next
  case (reach_env y y')
  from reach_env(2,3) show ?case
    by (elim sys_envE) (auto intro: env)
qed (simp add: sys_start_def start)

definition served_by :: "sysenv \<Rightarrow> store \<Rightarrow> bool" where
  "served_by Y S \<longleftrightarrow> truthful Y S \<and> call_supply Y S \<and> ivs_hashed_apart Y S \<and> names_unique S"

lemma served_byD:
  assumes "served_by Y S"
  shows "env_answers (y_requester Y) w r err \<Longrightarrow> reply_data r \<noteq> None \<Longrightarrow> reply_true S w r"
    "y_stat Y p (Inr i) \<Longrightarrow> st_Stat S p = Inr i" "legal_request S (env_request (y_requester Y) c)"
    "legal_request S w \<Longrightarrow> infinite {c. env_request (y_requester Y) c = w}" "names_unique S"
    "typed_answers (y_requester Y)"
    "env_panics (y_requester Y) w = Some f \<Longrightarrow> requestType w = workDecryptName \<and> st_panics S (arg1 w) (arg2 w) = Some f"
  using assms unfolding served_by_def truthful_def call_supply_def by blast+

text \<open>A value that a call returns is what the store holds for its request, and not empty.\<close>

lemma call_true:
  assumes "served_by Y S" "reachable (y_requester Y) tm s" "r_clients s c = CDone (Inr d)"
  shows "reply_true S (env_request (y_requester Y) c) d \<and> reply_data d = Some d"
proof -
  let ?E = "y_requester Y" and ?w = "env_request (y_requester Y) c"
  have "call_ok ?E (call_type ?E c) (call_key ?E c) (CDone (Inr d))"
    using prov_call [OF reachable_prov [OF assms(2)], of c] assms(3) by simp
  then obtain c' r err where c': "requestType (env_request ?E c') = requestType ?w" "worker_key ?E (env_request ?E c') = client_key ?E ?w"
    "env_answers ?E (env_request ?E c') r err" "reply_data r = Some d"
    by (auto simp: answered_def)
  let ?v = "env_request ?E c'"
  have same: "arg1 ?v = arg1 ?w" "env_siphash ?E sipHashKey1 sipHashKey2 (arg2 ?v) = env_siphash ?E sipHashKey1 sipHashKey2 (arg2 ?w)"
    using wf_request_key_eq [OF legal_wf legal_wf c'(1,2)] served_byD(3) [OF assms(1)] by blast+
  have "arg2 ?v = arg2 ?w" if "requestType ?w = workDecryptName"
  proof -
    have "arg2 ?v \<in> dir_ivs S" "arg2 ?w \<in> dir_ivs S"
      using served_byD(3) [OF assms(1), of c'] served_byD(3) [OF assms(1), of c] that c'(1) by (simp_all add: legal_request_def)
    then show ?thesis
      using same(2) assms(1) unfolding served_by_def ivs_hashed_apart_def by (auto dest: inj_onD)
  qed
  moreover have "reply_true S ?v r"
    using served_byD(1) [OF assms(1) c'(3)] c'(4) by simp
  moreover have "r = d"
    using c'(4) by (auto simp: reply_data_def split: reply.splits if_splits)
  ultimately show ?thesis
    using c'(1,4) same(1) by (auto simp: reply_true_def split: reply.splits)
qed

lemma resume_true:
  assumes "wp P S root cc Q m" "prog_request m = Some w" "\<And>d. out = Inr d \<Longrightarrow> reply_true S w d \<and> reply_data d = Some d"
  shows "\<exists>m'. prog_resume cap out m = Inr m' \<and> wp P S root cc Q m'"
proof (cases out)
  case (Inl e)
  then show ?thesis
    using assms(1,2)
    by (cases m) (auto simp: returns_to_def Requester_ReadFile_def Requester_ReadDir_def Requester_DecryptName_def)
next
  case (Inr d)
  then have d: "reply_true S w d" "reply_data d = Some d"
    using assms(3) by blast+
  then show ?thesis
    using assms(1,2) Inr
    by (cases m; cases d) (auto simp: returns_to_def Requester_ReadFile_def Requester_ReadDir_def Requester_DecryptName_def
        reply_true_def reply_data_def split: if_splits)
qed

section \<open>The invariant\<close>

text \<open>A file on which \<^verbatim>\<open>decryptFile\<close> may panic: too short for a block, longer than a header.\<close>

definition stub_file :: "store \<Rightarrow> bool" where
  "stub_file S \<longleftrightarrow> (\<exists>p b. file_data S p b \<and> HeaderLen < length b \<and> length b \<le> HeaderLen + 32)"

fun thread_ok :: "sysenv \<Rightarrow> store \<Rightarrow> string \<Rightarrow> CryptoCore \<Rightarrow> (nat \<Rightarrow> cpc) \<Rightarrow> sftp_op \<Rightarrow> thread \<Rightarrow> bool" where
  "thread_ok Y S root cc cl op TNone \<longleftrightarrow> True"
| "thread_ok Y S root cc cl op (TRun m) \<longleftrightarrow> wp (y_prims Y) S root cc (op_post (y_prims Y) S root cc op) m"
| "thread_ok Y S root cc cl op (TWait c m) \<longleftrightarrow> wp (y_prims Y) S root cc (op_post (y_prims Y) S root cc op) m \<and>
     prog_request m = Some (env_request (y_requester Y) c) \<and> cl c \<noteq> CIdle"
| "thread_ok Y S root cc cl op (TDone r) \<longleftrightarrow> op_post (y_prims Y) S root cc op r"

text \<open>
  The tree's cache holds only right entries, every callback is on the way to a right result, only names of
  entries are decrypted, and the only panics are the index error of \<^verbatim>\<open>decryptFile\<close> and those of the
  decrypter on such a name.
\<close>

definition request_asked :: "store \<Rightarrow> string \<Rightarrow> work \<Rightarrow> bool" where
  "request_asked S root w \<longleftrightarrow> (requestType w = workDecryptName \<longrightarrow> asked S root (arg1 w) (arg2 w))"

lemma wp_request_asked: "wp P S root cc Q m \<Longrightarrow> prog_request m = Some w \<Longrightarrow> request_asked S root w"
  by (cases m) (auto simp: request_asked_def)

definition sys_inv :: "sysenv \<Rightarrow> store \<Rightarrow> string \<Rightarrow> CryptoCore \<Rightarrow> sys \<Rightarrow> bool" where
  "sys_inv Y S root cc y \<longleftrightarrow> tree_inv S (\<lambda>_. True) root cc (y_tree y) () \<and>
     (\<forall>j. thread_ok Y S root cc (r_clients (y_req y)) (y_ops Y j) (y_threads y j)) \<and>
     (\<forall>c \<in> calls (y_req y). request_asked S root (env_request (y_requester Y) c)) \<and>
     (\<forall>f. y_crash y = Some f \<longrightarrow> f = Panic IndexOutOfRange \<and> stub_file S \<or> name_panic S root f)"

lemma thread_ok_calls:
  "thread_ok Y S root cc cl op th \<Longrightarrow> (\<And>c. cl c \<noteq> CIdle \<Longrightarrow> cl' c \<noteq> CIdle) \<Longrightarrow> thread_ok Y S root cc cl' op th"
  by (cases th) auto

lemma sys_inv_thread:
  assumes "sys_inv Y S root cc y" "thread_ok Y S root cc (r_clients (y_req y)) (y_ops Y j) th"
  shows "sys_inv Y S root cc (set_thread y j th)"
  using assms by (simp add: sys_inv_def)

lemma sys_inv_requester:
  assumes "sys_inv Y S root cc y" "calls (y_req y) \<subseteq> calls r'"
    "\<And>c. c \<in> calls r' \<Longrightarrow> c \<in> calls (y_req y) \<or> request_asked S root (env_request (y_requester Y) c)"
  shows "sys_inv Y S root cc (y\<lparr>y_req := r'\<rparr>)"
proof -
  have "\<forall>c \<in> calls r'. request_asked S root (env_request (y_requester Y) c)"
    using assms(1,3) by (auto simp: sys_inv_def)
  then show ?thesis
    using assms(1,2) thread_ok_calls [where cl = "r_clients (y_req y)" and cl' = "r_clients r'"]
    unfolding sys_inv_def by (simp add: subset_iff calls_def)
qed

lemma sys_inv_tree:
  "sys_inv Y S root cc y \<Longrightarrow> tree_inv S (\<lambda>_. True) root cc t' () \<Longrightarrow> sys_inv Y S root cc (y\<lparr>y_tree := t'\<rparr>)"
  by (simp add: sys_inv_def)

text \<open>An access keeps the tree's invariant and the guarantee of its program.\<close>

lemma access_true:
  assumes J: "tree_inv S (\<lambda>_. True) root cc t ()" and m: "wp P S root cc Q m" and a: "tree_access P t m = Some x"
    and lib: "core_aead P cc" "small_files S"
  shows "(\<exists>t' m'. x = Inr (t', m') \<and> tree_inv S (\<lambda>_. True) root cc t' () \<and> wp P S root cc Q m') \<or>
    x = Inl (Panic IndexOutOfRange) \<and> stub_file S"
  using m a
proof (cases m)
  case (PFind p k)
  have inv: "cache_inv (ft_fastCache t)"
    using J by (simp add: tree_inv_def tree_ok_def)
  then obtain d fc where f: "Find (ft_fastCache t) p = Inr (d, fc)" "cache_inv fc"
    "contents fc = contents (ft_fastCache t)" "map_option CiphertextPath d = contents (ft_fastCache t) p"
    by (rule fastcache.findE [where k = p])
  then have "tree_inv S (\<lambda>_. True) root cc (t\<lparr>ft_fastCache := fc\<rparr>) ()"
    using J by (intro tree_inv_cache) (auto simp: tree_inv_def)
  moreover have "wp P S root cc Q (k d)"
    using m PFind f(4) J by (cases d) (auto simp: tree_inv_def)
  ultimately show ?thesis
    using a PFind f(1) by auto
next
  case (PStore p c k)
  have inv: "cache_inv (ft_fastCache t)" "\<forall>p c. contents (ft_fastCache t) p = Some c \<longrightarrow> resolved S root p c" "resolved S root p c"
    using J m PStore by (simp_all add: tree_inv_def tree_ok_def)
  obtain fc where fc: "Store (ft_fastCache t) p c = Inr fc"
    using inv(1) by (rule fastcache.storeE)
  have "tree_inv S (\<lambda>_. True) root cc (t\<lparr>ft_fastCache := fc\<rparr>) ()"
    using fastcache.store_preserves [OF inv fc] tree_inv_cache [OF J] by blast
  then show ?thesis
    using a m PStore fc by auto
next
  case (PSize i k)
  have "plain_size t i = Inr (tree_size cc i)"
    using plain_size_tree [of cc t i] J by (auto simp: tree_inv_def tree_ok_def)
  then show ?thesis
    using a m J PSize by auto
next
  case (PDecrypt f k)
  have enc: "tree_enc cc (ft_cEnc t)"
    using J by (auto simp: tree_inv_def tree_ok_def)
  obtain p where p: "file_data S p (sdata f)"
    using m PDecrypt by auto
  then have small: "length (sdata f) < 2 ^ 62"
    using lib(2) unfolding small_files_def file_data_def by metis
  consider "decryptFile P (ft_cEnc t) f = Inl (Panic IndexOutOfRange)" "stub_file S"
    | r be' where "decryptFile P (ft_cEnc t) f = Inr (r, be')" "tree_enc cc be'"
  proof (cases "decryptFile P (ft_cEnc t) f")
    case (Inl x)
    then show thesis
      using that(1) p decryptFile_panics [OF enc lib(1) small Inl] unfolding stub_file_def by blast
  next
    case (Inr x)
    then show thesis
      using that(2) decryptFile_cases [OF enc lib(1) small] by (cases x) (auto split: if_splits)
  qed
  then show ?thesis
  proof cases
    case 1
    then show ?thesis
      using a PDecrypt by simp
  next
    case (2 r be')
    then have "tree_inv S (\<lambda>_. True) root cc (t\<lparr>ft_cEnc := be'\<rparr>) ()" "wp P S root cc Q (k r)"
      using J m PDecrypt enc by (auto simp: tree_inv_def tree_ok_def)
    then show ?thesis
      using a PDecrypt 2 by auto
  qed
qed (use J in \<open>auto simp: tree_inv_def\<close>)

text \<open>The conditions on the system's surroundings and on its tree.\<close>

definition sys_ok :: "sysenv \<Rightarrow> store \<Rightarrow> CryptoCore \<Rightarrow> bool" where
  "sys_ok Y S cc \<longleftrightarrow> served_by Y S \<and> small_files S \<and> core_aead (y_prims Y) cc"

lemma sys_inv_step:
  assumes ok: "sys_ok Y S cc" and base: "reachable (y_requester Y) tm (y_req y)"
    and inv: "sys_inv Y S root cc y" and step: "sys_step Y y y'"
  shows "sys_inv Y S root cc y'"
proof -
  have served: "served_by Y S" and lib: "core_aead (y_prims Y) cc" "small_files S"
    using ok by (simp_all add: sys_ok_def)
  have tree: "tree_inv S (\<lambda>_. True) root cc (y_tree y) ()"
    and th: "thread_ok Y S root cc (r_clients (y_req y)) (y_ops Y j) (y_threads y j)" for j
    using inv by (simp_all add: sys_inv_def)
  have resume: "\<exists>m'. prog_resume cap out m = Inr m' \<and> thread_ok Y S root cc (r_clients (y_req y)) (y_ops Y j) (TRun m')"
    if "y_threads y j = TWait c m" "r_clients (y_req y) c = CDone out" for j c m cap out
    using th [of j] that call_true [OF served base] by (auto intro!: resume_true)
  from step show ?thesis
  proof (cases rule: sys_step.cases)
    case (requester r')
    then show ?thesis
      using sys_inv_requester [OF inv, of r'] by (simp add: calls_run)
  next
    case (begin_call j m c)
    have "request_asked S root (env_request (y_requester Y) c)"
      using th [of j] begin_call wp_request_asked by fastforce
    then have "sys_inv Y S root cc (y\<lparr>y_req := set_client (y_req y) c (CTry 0 [])\<rparr>)"
      by (intro sys_inv_requester [OF inv]) (auto simp: calls_def split: if_splits)
    then show ?thesis
      unfolding begin_call(1) using th [of j] begin_call by (intro sys_inv_thread) auto
  next
    case (end_call j c m out cap m')
    then show ?thesis
      using resume [of j c m out cap] by (auto intro!: sys_inv_thread [OF inv])
  next
    case (end_call_panics j c m out cap f)
    then show ?thesis
      using resume [of j c m out cap] by auto
  next
    case (access j m t' m')
    then have "tree_inv S (\<lambda>_. True) root cc t' ()" "thread_ok Y S root cc (r_clients (y_req y)) (y_ops Y j) (TRun m')"
      using access_true [OF tree _ _ lib, of _ m] th [of j] by fastforce+
    then show ?thesis
      unfolding access(1) by (intro sys_inv_thread sys_inv_tree inv) simp_all
  next
    case (access_panics j m f)
    then show ?thesis
      using access_true [OF tree _ _ lib, of _ m] th [of j] inv by (fastforce simp: sys_inv_def)
  next
    case (call_stat j p k r)
    then have "\<forall>i. r = Inr i \<longrightarrow> st_Stat S p = Inr i"
      using served_byD(2) [OF served] by blast
    then show ?thesis
      using th [of j] call_stat by (auto intro!: sys_inv_thread [OF inv])
  next
    case (finish j r)
    then show ?thesis
      using th [of j] by (auto intro!: sys_inv_thread [OF inv])
  next
    case (decrypter_panics f)
    then obtain n c where c: "r_workers (y_req y) n = WReq c" "env_panics (y_requester Y) (env_request (y_requester Y) c) = Some f"
      by (auto simp: worker_panics_def)
    then have "c \<in> calls (y_req y)"
      using worker_calls [OF base c(1)] by blast
    then have "name_panic S root f"
      using inv served_byD(7) [OF served c(2)] unfolding sys_inv_def request_asked_def name_panic_def by blast
    then show ?thesis
      using inv decrypter_panics(1) by (simp add: sys_inv_def)
  qed
qed

lemma sys_inv_env:
  assumes "sys_ok Y S cc" "sys_inv Y S root cc y" "sys_env Y tm y y'"
  shows "sys_inv Y S root cc y'"
  using assms(3)
proof (cases rule: sys_env.cases)
  case (new_request j)
  have "names_unique S"
    using assms(1) by (simp add: sys_ok_def served_by_def)
  from wp_op [OF this new_request(4)] show ?thesis
    unfolding new_request(1) by (intro sys_inv_thread [OF assms(2)]) simp
next
  case (outside r')
  then show ?thesis
    using sys_inv_requester [OF assms(2), of r'] by simp
qed

lemma reached_inv:
  assumes "sys_ok Y S cc" "tree_inv S (\<lambda>_. True) root cc t ()" "reached Y tm t y"
  shows "sys_inv Y S root cc y"
  using assms(3)
proof (induction rule: reached.induct)
  case reach_start
  then show ?case
    using assms(2) by (simp add: sys_inv_def sys_start_def calls_def Requester_New_def)
qed (auto intro: sys_inv_step [OF assms(1) reached_base] sys_inv_env [OF assms(1)])

end
