(* ===== verification/TreeSystemLive.thy ===== *)
theory TreeSystemLive
  imports TreeSystem
begin

text \<open>
  Every request is answered: as long as requests, timeouts and cleared caches do not interfere, the
  steps of callbacks, calls and workers come to an end, and at the end no callback is left waiting.
\<close>

section \<open>Progress\<close>

lemma prog_cases:
  obtains r where "m = PRet r" | p k where "m = PStat p k" | x where "tree_access P t m = Some x" | w where "prog_request m = Some w"
  by (cases m) auto

lemma wp_request_legal: "wp P S root cc Q m \<Longrightarrow> prog_request m = Some w \<Longrightarrow> legal_request S w"
  by (cases m) (auto simp: legal_request_def)

lemma free_call:
  assumes "served_by Y S" "reachable (y_requester Y) tm s" "legal_request S w"
  obtains c where "env_request (y_requester Y) c = w" "r_clients s c = CIdle"
proof -
  have "finite (calls s)"
    using reachable_inv [OF assms(2)] by (auto simp: requester_inv_def shape_inv_def)
  then have "infinite ({c. env_request (y_requester Y) c = w} - calls s)"
    using served_byD(4) [OF assms(1,3)] by simp
  then obtain c where "c \<in> {c. env_request (y_requester Y) c = w} - calls s"
    by (metis finite.emptyI ex_in_conv)
  then show thesis
    using that by (auto simp: calls_def)
qed

definition sys_stuck :: "sysenv \<Rightarrow> sys \<Rightarrow> bool" where
  "sys_stuck Y y \<longleftrightarrow> (\<forall>y'. \<not> sys_step Y y y')"

text \<open>The backend and the decrypter answer every call, or the decrypter panics.\<close>

definition backend_answers :: "sysenv \<Rightarrow> bool" where
  "backend_answers Y \<longleftrightarrow>
     (\<forall>w. (\<exists>r err. env_answers (y_requester Y) w r err) \<or> env_panics (y_requester Y) w \<noteq> None) \<and> (\<forall>p. \<exists>r. y_stat Y p r)"

lemma sys_stuck_done:
  assumes ok: "sys_ok Y S cc" and base: "reachable (y_requester Y) False (y_req y)" and inv: "sys_inv Y S root cc y"
    and live: "1 \<le> env_workers (y_requester Y)" "backend_answers Y"
    and stuck: "y_crash y = None" "sys_stuck Y y"
  shows "y_threads y j = TNone \<or> (\<exists>r. y_threads y j = TDone r)"
proof (cases "y_threads y j")
  case (TRun m)
  have m: "wp (y_prims Y) S root cc (op_post (y_prims Y) S root cc (y_ops Y j)) m"
    using inv TRun unfolding sys_inv_def by (metis thread_ok.simps(2))
  consider r where "m = PRet r" | p k where "m = PStat p k" | x where "tree_access (y_prims Y) (y_tree y) m = Some x"
    | w where "prog_request m = Some w"
    by (rule prog_cases)
  then have "\<exists>y'. sys_step Y y y'"
  proof cases
    case (1 r)
    then show ?thesis
      using finish stuck(1) TRun by blast
  next
    case (2 p k)
    then show ?thesis
      using call_stat stuck(1) TRun live(2) unfolding backend_answers_def by blast
  next
    case (3 x)
    then show ?thesis
      using access [OF stuck(1) TRun, of Y] access_panics [OF stuck(1) TRun, of Y] by (cases x) auto
  next
    case (4 w)
    have "served_by Y S"
      using ok by (simp add: sys_ok_def)
    then obtain c where "env_request (y_requester Y) c = w" "r_clients (y_req y) c = CIdle"
      using free_call base wp_request_legal [OF m 4] by blast
    then show ?thesis
      using begin_call stuck(1) TRun 4 by blast
  qed
  then show ?thesis
    using stuck(2) by (simp add: sys_stuck_def)
next
  case (TWait c m)
  have "stuck (y_requester Y) (y_req y)"
    using stuck requester unfolding sys_stuck_def stuck_def by blast
  moreover have "\<not> worker_panics (y_requester Y) (y_req y) f" for f
    using stuck decrypter_panics unfolding sys_stuck_def by blast
  then have "answers_at (y_requester Y) (y_req y)"
    using live(2) unfolding backend_answers_def answers_at_def worker_panics_def by (metis not_None_eq)
  ultimately have "returned (r_clients (y_req y) c)"
    using stuck_reachable_returned [OF base live(1)] by simp
  moreover have "r_clients (y_req y) c \<noteq> CIdle"
    using inv TWait unfolding sys_inv_def by (metis thread_ok.simps(3))
  ultimately obtain out where out: "r_clients (y_req y) c = CDone out"
    by (auto simp: returned_def)
  have "\<exists>y'. sys_step Y y y'"
    using end_call [OF stuck(1) TWait out, of 0] end_call_panics [OF stuck(1) TWait out, of 0]
    by (cases "prog_resume 0 out m") blast+
  then show ?thesis
    using stuck(2) by (simp add: sys_stuck_def)
qed simp_all

section \<open>Termination\<close>

text \<open>The programs that may follow a program's next access.\<close>

inductive next_prog :: "'a tprog \<Rightarrow> 'a tprog \<Rightarrow> bool" where
  "next_prog (k1 x) (PRoot k1)"
| "next_prog (k2 d) (PFind p k2)"
| "next_prog m (PStore p c m)"
| "next_prog (k3 f) (PReadFile p k3)"
| "next_prog (k4 l) (PReadDir p k4)"
| "next_prog (k5 r) (PDecryptName n iv k5)"
| "next_prog (k6 s) (PStat p k6)"
| "next_prog (k7 z) (PSize i k7)"
| "next_prog (k8 b) (PDecrypt g k8)"

inductive_cases next_progE:
  "next_prog m (PRet r)" "next_prog m (PFault e)" "next_prog m (PRoot k)" "next_prog m (PFind p k)" "next_prog m (PStore p c q)"
  "next_prog m (PReadFile p f)" "next_prog m (PReadDir p l)" "next_prog m (PDecryptName n iv s)" "next_prog m (PStat p i)"
  "next_prog m (PSize i z)" "next_prog m (PDecrypt f b)"

lemma next_prog_wf: "wfp (next_prog :: 'a tprog \<Rightarrow> 'a tprog \<Rightarrow> bool)"
proof (rule accp_wfpI, rule allI)
  show "Wellfounded.accp next_prog m" for m :: "'a tprog"
    by (induction m) (rule accp.accI, erule next_progE; blast)+
qed

text \<open>A thread gets smaller with every step of its own.\<close>

fun thread_rank :: "thread \<Rightarrow> op_val tprog \<times> nat" where
  "thread_rank TNone = (PRet (Inr VUnit), 0)"
| "thread_rank (TRun m) = (m, 2)"
| "thread_rank (TWait c m) = (m, 1)"
| "thread_rank (TDone r) = (PRet r, 0)"

definition rank_less :: "((op_val tprog \<times> nat) \<times> (op_val tprog \<times> nat)) set" where
  "rank_less = {(m, m'). next_prog m m'} <*lex*> less_than"

lemma rank_less_wf: "wf rank_less"
  unfolding rank_less_def using next_prog_wf by (intro wf_lex_prod) (simp_all add: wfp_def)

definition active :: "sys \<Rightarrow> nat set" where
  "active y = {j. y_threads y j \<noteq> TNone}"

definition ranks :: "sys \<Rightarrow> (op_val tprog \<times> nat) multiset" where
  "ranks y = image_mset (\<lambda>j. thread_rank (y_threads y j)) (mset_set (active y))"

lemma ranks_thread:
  assumes "finite (active y)" "y_threads y j \<noteq> TNone" "th \<noteq> TNone" "(thread_rank th, thread_rank (y_threads y j)) \<in> rank_less"
  shows "(ranks (set_thread y j th), ranks y) \<in> mult1 rank_less"
proof -
  let ?rest = "image_mset (\<lambda>j. thread_rank (y_threads y j)) (mset_set (active y - {j}))"
  have j: "j \<in> active y" "active (set_thread y j th) = active y"
    using assms(2,3) by (auto simp: active_def)
  have "ranks y = add_mset (thread_rank (y_threads y j)) ?rest"
    unfolding ranks_def mset_set.remove [OF assms(1) j(1)] by simp
  moreover have "ranks (set_thread y j th) = add_mset (thread_rank th) ?rest"
    unfolding ranks_def j(2) mset_set.remove [OF assms(1) j(1)]
    by (auto intro!: image_mset_cong simp: assms(1))
  ultimately show ?thesis
    using assms(4) by (intro mult1I [where ?M0.0 = ?rest and K = "{#thread_rank th#}"]) auto
qed

lemma finite_active: "reached Y tm t y \<Longrightarrow> finite (active y)"
proof (induction rule: reached.induct)
  case (reach_step y y')
  then have "active y' \<subseteq> active y"
    by (elim sys_stepE) (auto simp: active_def split: if_splits)
  then show ?case
    using reach_step(3) finite_subset by blast
next
  case (reach_env y y')
  then have "\<exists>j. active y' \<subseteq> insert j (active y)"
    by (elim sys_envE) (auto simp: active_def)
  then show ?case
    using reach_env(3) finite_subset by (metis finite_insert)
qed (simp add: active_def sys_start_def)

definition sys_less :: "sysenv \<Rightarrow> (sys \<times> sys) set" where
  "sys_less Y = inv_image (less_than <*lex*> mult1 rank_less <*lex*> less_than)
     (\<lambda>y. (if y_crash y = None then 1 else 0, ranks y, weight (y_requester Y) (card (calls (y_req y))) (calls (y_req y)) (y_req y)))"

lemma sys_less_wf: "wf (sys_less Y)"
  unfolding sys_less_def by (intro wf_inv_image wf_lex_prod wf_less_than wf_mult1 rank_less_wf)

lemma resume_next:
  "prog_request m = Some w \<Longrightarrow> prog_resume cap out m = Inr m' \<Longrightarrow> next_prog m' m"
  by (cases m) (auto simp: returns_to_def intro: next_prog.intros split: sum.splits fault.splits)

lemma access_next: "tree_access P t m = Some (Inr (t', m')) \<Longrightarrow> next_prog m' m"
  by (cases m) (auto intro: next_prog.intros split: sum.splits)

lemma sys_step_less:
  assumes base: "reachable (y_requester Y) tm (y_req y)" and inv: "sys_inv Y S root cc y" and fin: "finite (active y)"
    and step: "sys_step Y y y'"
  shows "(y', y) \<in> sys_less Y"
proof -
  have thread: "(y'', y) \<in> sys_less Y"
    if "y_crash y = None" "y_crash y'' = None" "y_threads y'' = (y_threads y)(j := th)" "y_threads y j \<noteq> TNone" "th \<noteq> TNone"
      "(thread_rank th, thread_rank (y_threads y j)) \<in> rank_less" for y'' j th
  proof -
    have "ranks y'' = ranks (set_thread y j th)"
      using that(3) by (simp add: ranks_def active_def)
    then show ?thesis
      using ranks_thread [OF fin that(4-6)] that(1,2) by (simp add: sys_less_def)
  qed
  from step show ?thesis
  proof (cases rule: sys_step.cases)
    case (requester r')
    have "shape_inv (y_requester Y) (y_req y)"
      using reachable_inv [OF base] by (simp add: requester_inv_def)
    from weight_decreases [OF requester(3) this] have
      "weight (y_requester Y) (card (calls r')) (calls r') r' <
       weight (y_requester Y) (card (calls (y_req y))) (calls (y_req y)) (y_req y)"
      using calls_run [OF requester(3)] by simp
    then show ?thesis
      using requester(1,2) by (simp add: sys_less_def ranks_def active_def)
  next
    case (begin_call j m c)
    then show ?thesis
      by (intro thread [where j = j and th = "TWait c m"]) (simp_all add: rank_less_def)
  next
    case (end_call j c m out cap m')
    then have "prog_request m \<noteq> None"
      using inv unfolding sys_inv_def by (metis option.distinct(1) thread_ok.simps(3))
    then show ?thesis
      using end_call resume_next by (intro thread [where j = j and th = "TRun m'"]) (auto simp: rank_less_def)
  next
    case (end_call_panics j c m out cap f)
    then show ?thesis by (simp add: sys_less_def)
  next
    case (access j m t' m')
    then show ?thesis
      using access_next by (intro thread [where j = j and th = "TRun m'"]) (auto simp: rank_less_def)
  next
    case (access_panics j m f)
    then show ?thesis by (simp add: sys_less_def)
  next
    case (call_stat j p k r)
    then show ?thesis
      by (intro thread [where j = j and th = "TRun (k r)"]) (auto simp: rank_less_def intro: next_prog.intros)
  next
    case (finish j r)
    then show ?thesis
      by (intro thread [where j = j and th = "TDone r"]) (auto simp: rank_less_def)
  next
    case (decrypter_panics f)
    then show ?thesis by (simp add: sys_less_def)
  qed
qed

text \<open>A run of the callbacks, calls and workers from a reached state.\<close>

lemma run_reached: "(sys_step Y)\<^sup>*\<^sup>* y y' \<Longrightarrow> reached Y tm t y \<Longrightarrow> reached Y tm t y'"
  by (induction rule: rtranclp_induct) (auto intro: reach_step)

lemma no_infinite_run:
  assumes "sys_ok Y S cc" "tree_inv S (\<lambda>_. True) root cc t ()" "reached Y tm t (run 0)" "\<And>n. sys_step Y (run n) (run (Suc n))"
  shows False
proof -
  have r: "reached Y tm t (run n)" for n
    by (induction n) (use assms(3,4) reach_step in blast)+
  have "(run (Suc n), run n) \<in> sys_less Y" for n
    using sys_step_less [OF reached_base [OF r] reached_inv [OF assms(1,2) r] finite_active [OF r] assms(4)] .
  then show False
    using sys_less_wf [of Y] unfolding wf_iff_no_infinite_down_chain by blast
qed

end
