(* ===== verification/TreeSystemAlone.thy ===== *)
theory TreeSystemAlone
  imports TreeSystemLive "HOL-Library.Countable"
begin

text \<open>
  A callback that runs alone in the system behaves as the sequential methods of \<open>FileTree\<close>: each
  of its calls passes through the queue, a worker and the cache of the requester, and comes back with
  the backend's answer.
\<close>

section \<open>A call alone\<close>

text \<open>A requester that has nothing to do.\<close>

definition quiet :: "rstate \<Rightarrow> bool" where
  "quiet s \<longleftrightarrow> r_queue s = [] \<and> (\<forall>n. r_workers s n = WIdle) \<and> (\<forall>t. r_locks s t = None) \<and> (\<forall>c. returned (r_clients s c))"

definition lone_outcome :: "reply \<Rightarrow> goerr option \<Rightarrow> (goerr + reply) option" where
  "lone_outcome r err = (case (reply_data r, err) of (Some d, _) \<Rightarrow> Some (Inr d) | (None, Some e) \<Rightarrow> Some (Inl e) | _ \<Rightarrow> None)"

lemma quiet_sleep: "quiet s \<Longrightarrow> x \<noteq> c \<Longrightarrow> wake_all t ((r_clients s)(c := pc)) x = r_clients s x"
proof -
  assume "quiet s" "x \<noteq> c"
  then have "r_clients s x = CIdle \<or> (\<exists>out. r_clients s x = CDone out)"
    by (auto simp: quiet_def returned_def)
  then show ?thesis
    using \<open>x \<noteq> c\<close> by (auto simp: wake_all_def)
qed

lemma lone_call:
  assumes q: "quiet s" and c: "r_clients s c = CIdle" and w: "w = env_request E c" "wf_request w" and n: "1 \<le> env_workers E"
    and empty: "\<And>k. sc_Get (r_cache s (requestType w)) k = None"
    and ans: "env_answers E w r err" "lone_outcome r err = Some out"
  shows "\<exists>s'. (run_step E)\<^sup>*\<^sup>* (set_client s c (CTry 0 [])) s' \<and> quiet s' \<and> r_clients s' c = CDone out"
proof -
  let ?ty = "requestType w" and ?k = "client_key E w"
  let ?e = "\<lparr>e_data = reply_data r, e_err = err, e_locker = 0\<rparr>" and ?m = "r_cache s (requestType w)"
  have k: "worker_key E w = ?k"
    using wf_request_keys [OF w(2)] .
  have idle: "r_queue s = []" "r_workers s 1 = WIdle" "r_locks s 1 = None"
    using q by (simp_all add: quiet_def)
  define s0 where "s0 = set_client s c (CTry 0 [])"
  define s1 where "s1 = set_client s0 c (CSend 0 [])"
  define s2 where "s2 = set_client (s1\<lparr>r_queue := [c]\<rparr>) c (CWait 0 [])"
  define s3 where "s3 = set_worker (s2\<lparr>r_queue := []\<rparr>) 1 (WTake c)"
  define s4 where "s4 = set_worker (set_cache s3 ?ty (sc_Set ?m ?k \<lparr>e_data = None, e_err = None, e_locker = 1\<rparr>)) 1 (WSendOwn c)"
  define s5 where "s5 = set_worker (set_client s4 c (CTicket 0 [] (Some 1))) 1 (WAcq c)"
  define s6 where "s6 = set_lock (set_worker s5 1 (WReq c)) 1 (Some (WorkerA 1))"
  define s7 where "s7 = set_worker s6 1 (WSet c (reply_data r) err)"
  define s8 where "s8 = set_worker (set_cache s7 ?ty (sc_Set (r_cache s7 ?ty) ?k ?e)) 1 (WSignal c)"
  define s9 where "s9 = set_lock (set_worker (s8\<lparr>r_clients := wake_all 1 (r_clients s8)\<rparr>) 1 WIdle) 1 None"
  note defs = s0_def s1_def s2_def s3_def s4_def s5_def s6_def s7_def s8_def s9_def
  have "run_step E s0 s1"
    using try_cache [of s0 c 0 "[]" E] empty w(1)
    by (simp add: defs try_next_def cacheErrRetryAttempts_def client_entry_def)
  moreover have "run_step E s1 s2"
    using send_work [of s1 c 0 "[]" E] idle by (simp add: defs workQueueSize_def)
  moreover have "run_step E s2 s3"
    using take_work [of 1 E s2 c "[]"] idle n by (simp add: defs)
  moreover have "run_step E s3 s4"
  proof -
    have "sc_GetOrInsert ?m ?k v = (None, sc_Set ?m ?k v)" for v
      using empty [of ?k] by (simp add: sc_GetOrInsert_def sc_Set_def sc_Get_def)
    then show ?thesis
      using look_up [of s3 1 c w E] w(1) k by (simp add: defs look_next_def)
  qed
  moreover have "run_step E s4 s5"
    using send_own [of s4 1 c 0 "[]" E] by (simp add: defs)
  moreover have "run_step E s5 s6"
    using lock_own [of s5 1 c E] idle by (simp add: defs)
  moreover have "run_step E s6 s7"
    using request [of s6 1 c E r err] ans(1) w(1) by (simp add: defs)
  moreover have "run_step E s7 s8"
    using store_reply [of s7 1 c "reply_data r" err w E] w(1) k by (simp add: defs)
  moreover have "run_step E s8 s9"
    using broadcast [of s8 1 c E] by (simp add: defs)
  ultimately have to9: "(run_step E)\<^sup>*\<^sup>* s0 s9"
    by (meson converse_rtranclp_into_rtranclp r_into_rtranclp)
  have cl9: "r_clients s9 x = (if x = c then CTicket 0 [] (Some 1) else r_clients s x)" for x
    using quiet_sleep [OF q, of x c 1] by (auto simp: defs wake_all_def)
  have rest9: "r_queue s9 = []" "r_workers s9 = (r_workers s)(1 := WIdle)" "r_locks s9 = (r_locks s)(1 := None)"
    using idle by (simp_all add: defs fun_eq_iff)
  have entry: "client_entry E s9 c = Some ?e"
    using w(1) by (simp add: defs client_entry_def)
  show ?thesis
  proof (cases "reply_data r")
    case (Some d)
    then have out: "out = Inr d"
      using ans(2) by (simp add: lone_outcome_def)
    let ?s = "set_client s9 c (CDone (Inr d))"
    have "run_step E s9 ?s"
      using use_ticket [of s9 c 0 "[]" "Some 1" E] Some entry by (simp add: cl9 ticket_next_def)
    then have "(run_step E)\<^sup>*\<^sup>* s0 ?s"
      using to9 by (meson rtranclp.rtrancl_into_rtrancl)
    moreover have "quiet ?s"
      using q by (auto simp: quiet_def rest9 cl9 returned_def)
    ultimately show ?thesis
      unfolding s0_def out by (intro exI [of _ ?s]) simp
  next
    case None
    then obtain e where e: "err = Some e" "out = Inl e"
      using ans(2) by (auto simp: lone_outcome_def split: option.splits)
    define t1 where "t1 = set_client s9 c (CLock 0 [] 1)"
    define t2 where "t2 = set_lock (set_client t1 c (CHold 0 [] 1)) 1 (Some (ClientA c))"
    define t3 where "t3 = set_client t2 c (CBreak 0 [] 1 (Some ?e))"
    define t4 where "t4 = set_lock (set_client t3 c (CDone (Inl e))) 1 None"
    note tdefs = t1_def t2_def t3_def t4_def
    have keep: "client_entry E t2 c = client_entry E s9 c"
      by (simp add: tdefs client_entry_def)
    have "run_step E s9 t1"
      using use_ticket [of s9 c 0 "[]" "Some 1" E] None entry by (simp add: cl9 ticket_next_def t1_def)
    moreover have "run_step E t1 t2"
      using lock_ticket [of t1 c 0 "[]" 1 E] by (simp add: tdefs rest9)
    moreover have "run_step E t2 t3"
      using check_entry [of t2 c 0 "[]" 1 E] entry e None keep by (simp add: tdefs hold_next_def)
    moreover have "run_step E t3 t4"
      using unlock_ticket [of t3 c 0 "[]" 1 "Some ?e" E] e None by (simp add: tdefs break_next_def)
    ultimately have "(run_step E)\<^sup>*\<^sup>* s0 t4"
      using to9 by (meson rtranclp.rtrancl_into_rtrancl)
    moreover have "quiet t4"
      using q by (auto simp: quiet_def tdefs rest9 cl9 returned_def)
    ultimately show ?thesis
      unfolding s0_def e(2) by (intro exI [of _ t4]) (simp add: tdefs)
  qed
qed

section \<open>A program alone\<close>

text \<open>Steps of the system and of its surroundings.\<close>

definition sys_move :: "sysenv \<Rightarrow> sys \<Rightarrow> sys \<Rightarrow> bool" where
  "sys_move Y y y' \<longleftrightarrow> sys_step Y y y' \<or> sys_env Y False y y'"

lemma move_reached: "(sys_move Y)\<^sup>*\<^sup>* y y' \<Longrightarrow> reached Y tm t y \<Longrightarrow> reached Y tm t y'"
proof (induction rule: rtranclp_induct)
  case (step y' y'')
  have "sys_env Y tm y' y''" if "sys_env Y False y' y''"
    using that by cases (auto intro: sys_env.intros env_step.intros elim!: env_step.cases)
  then show ?case
    using step by (auto simp: sys_move_def intro: reach_step reach_env)
qed

lemma move_step: "(sys_move Y)\<^sup>*\<^sup>* y y' \<Longrightarrow> sys_step Y y' y'' \<Longrightarrow> (sys_move Y)\<^sup>*\<^sup>* y y''"
  by (auto simp: sys_move_def intro: rtranclp.rtrancl_into_rtrancl)

lemma run_requester:
  assumes "(run_step (y_requester Y))\<^sup>*\<^sup>* r r'" "y_crash y = None"
  shows "(sys_move Y)\<^sup>*\<^sup>* (y\<lparr>y_req := r\<rparr>) (y\<lparr>y_req := r'\<rparr>)"
  using assms(1)
proof (induction rule: rtranclp_induct)
  case (step r1 r2)
  have "sys_step Y (y\<lparr>y_req := r1\<rparr>) (y\<lparr>y_req := r2\<rparr>)"
    using requester [of "y\<lparr>y_req := r1\<rparr>" Y r2] step(2) assms(2) by simp
  then show ?case
    using step(3) by (auto simp: sys_move_def intro: rtranclp.rtrancl_into_rtrancl)
qed simp

text \<open>The caches may be cleared before each call.\<close>

lemma clear_caches:
  assumes "y_crash y = None"
  shows "\<exists>r. (sys_move Y)\<^sup>*\<^sup>* y (y\<lparr>y_req := r\<rparr>) \<and> (\<forall>k. sc_Get (r_cache r ty) k = None) \<and>
    r_clients r = r_clients (y_req y) \<and> (quiet (y_req y) \<longrightarrow> quiet r)"
proof -
  let ?m = "r_cache (y_req y) ty"
  let ?r = "set_cache (y_req y) ty (ClearCache_delete ?m (ClearCache_keys ?m))"
  have "sys_env Y False y (y\<lparr>y_req := ?r\<rparr>)"
    using assms by (intro outside clear_cache) (simp_all add: calls_def)
  then show ?thesis
    using ClearCache_empties [of ?m] by (intro exI [of _ ?r]) (auto simp: sys_move_def quiet_def)
qed

text \<open>
  An accessor that answers as the backend may, with data that is not empty (for empty data the
  requester has an error of its own).
\<close>

definition answers_as :: "('a + 'b) \<Rightarrow> ('b \<Rightarrow> reply) \<Rightarrow> ('a \<Rightarrow> goerr) \<Rightarrow> renv \<Rightarrow> work \<Rightarrow> bool" where
  "answers_as x f g E w \<longleftrightarrow>
     (case x of
        Inr b \<Rightarrow> reply_data (f b) = Some (f b) \<and> (\<exists>err. env_answers E w (f b) err)
      | Inl e \<Rightarrow> \<exists>r. reply_data r = None \<and> env_answers E w r (Some (g e)))"

definition realised :: "sysenv \<Rightarrow> 'w FSAccess \<Rightarrow> bool" where
  "realised Y A \<longleftrightarrow> (\<forall>w.
     (\<forall>p. answers_as (fst (req_ReadFile A p w)) (RFile \<circ> sdata) id (y_requester Y) \<lparr>requestType = workReadFile, arg1 = p, arg2 = []\<rparr>) \<and>
     (\<forall>p. answers_as (fst (req_ReadDir A p w)) RDir id (y_requester Y) \<lparr>requestType = workReadDir, arg1 = p, arg2 = []\<rparr>) \<and>
     (\<forall>n iv x w'. req_DecryptName A n iv w = Inr (x, w') \<longrightarrow>
        answers_as x RName id (y_requester Y) \<lparr>requestType = workDecryptName, arg1 = n, arg2 = iv\<rparr>) \<and>
     (\<forall>p. y_stat Y p (fst (fs_Stat A p w))))"

lemma answers_as_outcome:
  assumes "answers_as x f id E w"
  obtains r err where "env_answers E w r err" "lone_outcome r err = Some (map_sum id f x)"
  using assms by (cases x) (auto simp: answers_as_def lone_outcome_def)

lemma set_thread_req: "set_thread (y\<lparr>y_req := r\<rparr>) j th = (set_thread y j th)\<lparr>y_req := r\<rparr>"
  by (simp add: set_thread_def)

lemma set_thread_twice: "set_thread (set_thread y j th) j th' = set_thread y j th'"
  by (simp add: set_thread_def)

lemma call_alone:
  assumes served: "served_by Y S" and live: "1 \<le> env_workers (y_requester Y)"
    and y: "y_crash y = None" "y_threads y j = TRun m" "quiet (y_req y)" "reachable (y_requester Y) False (y_req y)"
    and m: "wp P S root cc Q m" "prog_request m = Some w" "answers_as x f id (y_requester Y) w"
      "prog_resume cap (map_sum id f x) m = Inr m'"
  shows "\<exists>r'. (sys_move Y)\<^sup>*\<^sup>* y (set_thread (y\<lparr>y_req := r'\<rparr>) j (TRun m')) \<and> quiet r'"
proof -
  obtain r where r: "(sys_move Y)\<^sup>*\<^sup>* y (y\<lparr>y_req := r\<rparr>)" "\<And>k. sc_Get (r_cache r (requestType w)) k = None"
    "r_clients r = r_clients (y_req y)" "quiet r"
    using clear_caches [OF y(1), of Y "requestType w"] y(3) by blast
  obtain c where c: "env_request (y_requester Y) c = w" "r_clients r c = CIdle"
    using free_call [OF served y(4) wp_request_legal [OF m(1,2)]] r(3) by metis
  obtain v err where ans: "env_answers (y_requester Y) w v err" "lone_outcome v err = Some (map_sum id f x)"
    by (rule answers_as_outcome [OF m(3)])
  have "wf_request w"
    using legal_wf wp_request_legal [OF m(1,2)] by blast
  from lone_call [OF r(4) c(2) c(1) [symmetric] this live r(2) ans]
  obtain r' where r': "(run_step (y_requester Y))\<^sup>*\<^sup>* (set_client r c (CTry 0 [])) r'" "quiet r'" "r_clients r' c = CDone (map_sum id f x)"
    by blast
  let ?z = "set_thread y j (TWait c m)"
  have "sys_step Y (y\<lparr>y_req := r\<rparr>) (?z\<lparr>y_req := set_client r c (CTry 0 [])\<rparr>)"
    using begin_call [of "y\<lparr>y_req := r\<rparr>" j m Y c] y m(2) c by (simp add: set_thread_req)
  moreover have "(sys_move Y)\<^sup>*\<^sup>* (?z\<lparr>y_req := set_client r c (CTry 0 [])\<rparr>) (?z\<lparr>y_req := r'\<rparr>)"
    using run_requester [OF r'(1), of ?z] y(1) by simp
  moreover have "sys_step Y (?z\<lparr>y_req := r'\<rparr>) (set_thread (y\<lparr>y_req := r'\<rparr>) j (TRun m'))"
    using end_call [of "?z\<lparr>y_req := r'\<rparr>" j c m _ cap m' Y] y(1) r'(3) m(4) by (simp add: set_thread_req set_thread_twice)
  ultimately have "(sys_move Y)\<^sup>*\<^sup>* y (set_thread (y\<lparr>y_req := r'\<rparr>) j (TRun m'))"
    using move_step [OF move_step [OF r(1), THEN rtranclp_trans]] by blast
  then show ?thesis
    using r'(2) by blast
qed

lemma resume_simps:
  "\<exists>cap. prog_resume cap (map_sum id (RFile \<circ> sdata) x) (PReadFile p k) = Inr (k x)"
  "prog_resume cap (map_sum id RDir l) (PReadDir p k') = Inr (k' l)"
  "prog_resume cap (map_sum id RName n) (PDecryptName e iv k'') = Inr (k'' n)"
proof -
  show "\<exists>cap. prog_resume cap (map_sum id (RFile \<circ> sdata) x) (PReadFile p k) = Inr (k x)"
  proof (cases x)
    case (Inr f)
    then show ?thesis
      by (intro exI [of _ "scap f"]) (cases f, simp add: returns_to_def Requester_ReadFile_def)
  qed (simp add: returns_to_def Requester_ReadFile_def)
qed (cases l; cases n; simp add: returns_to_def Requester_ReadDir_def Requester_DecryptName_def)+

text \<open>The program of a callback \<open>j\<close>, from every state in which the requester is quiet, ends as \<open>exec\<close> says.\<close>

definition ends_alone :: "sysenv \<Rightarrow> 'w FSAccess \<Rightarrow> FileTree \<Rightarrow> nat \<Rightarrow> op_val tprog \<Rightarrow> bool" where
  "ends_alone Y A t0 j m \<longleftrightarrow> (\<forall>y w r t' w'. reached Y False t0 y \<and> y_crash y = None \<and> y_threads y j = TRun m \<and> quiet (y_req y) \<and>
     exec (y_prims Y) A m (y_tree y) w = Inr (r, t', w') \<longrightarrow>
     (\<exists>y'. (sys_move Y)\<^sup>*\<^sup>* y y' \<and> y_crash y' = None \<and> y_threads y' = (y_threads y)(j := TDone r) \<and> y_tree y' = t' \<and>
        quiet (y_req y')))"

lemma ends_aloneI:
  assumes "\<And>y w r t' w'. reached Y False t0 y \<Longrightarrow> y_crash y = None \<Longrightarrow> y_threads y j = TRun m \<Longrightarrow> quiet (y_req y) \<Longrightarrow>
     exec (y_prims Y) A m (y_tree y) w = Inr (r, t', w') \<Longrightarrow>
     \<exists>m' s1 t1 w1. (sys_move Y)\<^sup>*\<^sup>* y (set_thread (y\<lparr>y_req := s1, y_tree := t1\<rparr>) j (TRun m')) \<and> quiet s1 \<and>
       ends_alone Y A t0 j m' \<and> exec (y_prims Y) A m' t1 w1 = Inr (r, t', w')"
  shows "ends_alone Y A t0 j m"
  unfolding ends_alone_def
proof (intro allI impI, elim conjE)
  fix y :: sys and w r t' w'
  assume y: "reached Y False t0 y" "y_crash y = None" "y_threads y j = TRun m" "quiet (y_req y)"
    "exec (y_prims Y) A m (y_tree y) w = Inr (r, t', w')"
  then obtain m' s1 t1 w1 where z: "(sys_move Y)\<^sup>*\<^sup>* y (set_thread (y\<lparr>y_req := s1, y_tree := t1\<rparr>) j (TRun m'))" "quiet s1"
    "ends_alone Y A t0 j m'" "exec (y_prims Y) A m' t1 w1 = Inr (r, t', w')"
    using assms by blast
  let ?z = "set_thread (y\<lparr>y_req := s1, y_tree := t1\<rparr>) j (TRun m')"
  obtain y' where "(sys_move Y)\<^sup>*\<^sup>* ?z y'" "y_crash y' = None" "y_threads y' = (y_threads ?z)(j := TDone r)" "y_tree y' = t'" "quiet (y_req y')"
    using z(3) [unfolded ends_alone_def, rule_format, of ?z w1 r t' w'] move_reached [OF z(1) y(1)] y(2) z(2,4) by auto
  then show "\<exists>y'. (sys_move Y)\<^sup>*\<^sup>* y y' \<and> y_crash y' = None \<and> y_threads y' = (y_threads y)(j := TDone r) \<and> y_tree y' = t' \<and>
      quiet (y_req y')"
    using rtranclp_trans [OF z(1)] by auto
qed

lemma ends_access:
  assumes "\<And>t w r t' w'. exec (y_prims Y) A m t w = Inr (r, t', w') \<Longrightarrow>
     \<exists>t1 m'. tree_access (y_prims Y) t m = Some (Inr (t1, m')) \<and> ends_alone Y A t0 j m' \<and>
       exec (y_prims Y) A m' t1 w = Inr (r, t', w')"
  shows "ends_alone Y A t0 j m"
proof (rule ends_aloneI)
  fix y :: sys and w r t' w'
  assume y: "y_crash y = None" "y_threads y j = TRun m" "quiet (y_req y)" "exec (y_prims Y) A m (y_tree y) w = Inr (r, t', w')"
  then obtain t1 m' where m': "tree_access (y_prims Y) (y_tree y) m = Some (Inr (t1, m'))" "ends_alone Y A t0 j m'"
    "exec (y_prims Y) A m' t1 w = Inr (r, t', w')"
    using assms by blast
  have "sys_step Y y (set_thread (y\<lparr>y_req := y_req y, y_tree := t1\<rparr>) j (TRun m'))"
    using access [OF y(1,2) m'(1)] by simp
  then show "\<exists>m' s1 t1 w1. (sys_move Y)\<^sup>*\<^sup>* y (set_thread (y\<lparr>y_req := s1, y_tree := t1\<rparr>) j (TRun m')) \<and> quiet s1 \<and>
       ends_alone Y A t0 j m' \<and> exec (y_prims Y) A m' t1 w1 = Inr (r, t', w')"
    using y(3) m'(2,3) move_step by blast
qed

lemma program_alone:
  assumes ok: "sys_ok Y S cc" and tree: "tree_inv S (\<lambda>_. True) root cc t0 ()" and live: "1 \<le> env_workers (y_requester Y)"
    and A: "realised Y A"
  shows "ends_alone Y A t0 j m"
proof -
  have served: "served_by Y S"
    using ok by (simp add: sys_ok_def)
  have call: "ends_alone Y A t0 j m"
    if q: "prog_request m = Some v" "\<And>r. ends_alone Y A t0 j (k r)" "\<And>x. \<exists>cap. prog_resume cap (map_sum id f x) m = Inr (k x)"
      and e: "\<And>t w z. exec (y_prims Y) A m t w = Inr z \<Longrightarrow>
        \<exists>x w1. answers_as x f id (y_requester Y) v \<and> exec (y_prims Y) A (k x) t w1 = Inr z"
    for m v f and k :: "goerr + 'x \<Rightarrow> op_val tprog"
  proof (rule ends_aloneI)
    fix y :: sys and w r t' w'
    assume y: "reached Y False t0 y" "y_crash y = None" "y_threads y j = TRun m" "quiet (y_req y)"
      "exec (y_prims Y) A m (y_tree y) w = Inr (r, t', w')"
    have wp: "wp (y_prims Y) S root cc (op_post (y_prims Y) S root cc (y_ops Y j)) m"
      using reached_inv [OF ok tree y(1)] y(3) unfolding sys_inv_def by (metis thread_ok.simps(2))
    obtain x w1 where x: "answers_as x f id (y_requester Y) v" "exec (y_prims Y) A (k x) (y_tree y) w1 = Inr (r, t', w')"
      using e [OF y(5)] by blast
    obtain cap where "prog_resume cap (map_sum id f x) m = Inr (k x)"
      using q(3) by blast
    from call_alone [OF served live y(2-4) reached_base [OF y(1)] wp q(1) x(1) this]
    obtain s1 where s1: "(sys_move Y)\<^sup>*\<^sup>* y (set_thread (y\<lparr>y_req := s1\<rparr>) j (TRun (k x)))" "quiet s1"
      by blast
    moreover have "y\<lparr>y_req := s1\<rparr> = y\<lparr>y_req := s1, y_tree := y_tree y\<rparr>"
      by simp
    ultimately show "\<exists>m' s1 t1 w1. (sys_move Y)\<^sup>*\<^sup>* y (set_thread (y\<lparr>y_req := s1, y_tree := t1\<rparr>) j (TRun m')) \<and> quiet s1 \<and>
       ends_alone Y A t0 j m' \<and> exec (y_prims Y) A m' t1 w1 = Inr (r, t', w')"
      using q(2) x(2) by metis
  qed
  have A1: "answers_as (fst (req_ReadFile A p w)) (RFile \<circ> sdata) id (y_requester Y) \<lparr>requestType = workReadFile, arg1 = p, arg2 = []\<rparr>"
    and A2: "answers_as (fst (req_ReadDir A p w)) RDir id (y_requester Y) \<lparr>requestType = workReadDir, arg1 = p, arg2 = []\<rparr>"
    and A3: "req_DecryptName A n iv w = Inr (x, w') \<Longrightarrow>
      answers_as x RName id (y_requester Y) \<lparr>requestType = workDecryptName, arg1 = n, arg2 = iv\<rparr>"
    and A4: "y_stat Y p (fst (fs_Stat A p w))" for p n iv x w w'
    using A unfolding realised_def by blast+
  show ?thesis
  proof (induction m)
    case (PRet x)
    show ?case
      unfolding ends_alone_def
    proof (intro allI impI, elim conjE)
      fix y :: sys and w r t' w'
      assume y: "y_crash y = None" "y_threads y j = TRun (PRet x)" "quiet (y_req y)" "exec (y_prims Y) A (PRet x) (y_tree y) w = Inr (r, t', w')"
      have "(sys_move Y)\<^sup>*\<^sup>* y (set_thread y j (TDone x))"
        using finish [OF y(1,2)] move_step by blast
      then show "\<exists>y'. (sys_move Y)\<^sup>*\<^sup>* y y' \<and> y_crash y' = None \<and> y_threads y' = (y_threads y)(j := TDone r) \<and> y_tree y' = t' \<and>
          quiet (y_req y')"
        using y by (intro exI [of _ "set_thread y j (TDone x)"]) auto
    qed
  next
    case (PFault f)
    then show ?case
      by (intro ends_access) simp
  next
    case (PRoot k)
    then show ?case
      by (intro ends_access) auto
  next
    case (PFind p k)
    then show ?case
      by (intro ends_access) (auto simp: tbind_def cache_Find_def split: sum.splits)
  next
    case (PStore p c k)
    then show ?case
      by (intro ends_access) (auto simp: tbind_def cache_Store_def split: sum.splits)
  next
    case (PSize i k)
    then show ?case
      by (intro ends_access) (auto split: sum.splits)
  next
    case (PDecrypt f k)
    then show ?case
      by (intro ends_access) (auto split: sum.splits)
  next
    case (PReadFile p k)
    have "\<exists>x w1. answers_as x (RFile \<circ> sdata) id (y_requester Y) \<lparr>requestType = workReadFile, arg1 = p, arg2 = []\<rparr> \<and>
        exec (y_prims Y) A (k x) t w1 = Inr z" if "exec (y_prims Y) A (PReadFile p k) t w = Inr z" for t w z
      using that A1 [of p w] by (cases "req_ReadFile A p w") auto
    from call [where m = "PReadFile p k" and k = k, OF _ _ _ this] show ?case
      by (simp add: PReadFile resume_simps del: prog_resume.simps)
  next
    case (PReadDir p k)
    have "\<exists>x w1. answers_as x RDir id (y_requester Y) \<lparr>requestType = workReadDir, arg1 = p, arg2 = []\<rparr> \<and>
        exec (y_prims Y) A (k x) t w1 = Inr z" if "exec (y_prims Y) A (PReadDir p k) t w = Inr z" for t w z
      using that A2 [of p w] by (cases "req_ReadDir A p w") auto
    from call [where m = "PReadDir p k" and k = k, OF _ _ _ this] show ?case
      by (simp add: PReadDir resume_simps del: prog_resume.simps)
  next
    case (PDecryptName n iv k)
    have "\<exists>x w1. answers_as x RName id (y_requester Y) \<lparr>requestType = workDecryptName, arg1 = n, arg2 = iv\<rparr> \<and>
        exec (y_prims Y) A (k x) t w1 = Inr z" if "exec (y_prims Y) A (PDecryptName n iv k) t w = Inr z" for t w z
      using that A3 [of n iv w] by (auto split: sum.splits prod.splits)
    from call [where m = "PDecryptName n iv k" and k = k, OF _ _ _ this] show ?case
      by (simp add: PDecryptName resume_simps del: prog_resume.simps)
  next
    case (PStat p k)
    show ?case
    proof (rule ends_aloneI)
      fix y :: sys and w r t' w'
      assume y: "y_crash y = None" "y_threads y j = TRun (PStat p k)" "quiet (y_req y)"
        "exec (y_prims Y) A (PStat p k) (y_tree y) w = Inr (r, t', w')"
      obtain x w1 where x: "fs_Stat A p w = (x, w1)" "y_stat Y p x"
        using A4 by (metis prod.collapse)
      let ?z = "set_thread (y\<lparr>y_req := y_req y, y_tree := y_tree y\<rparr>) j (TRun (k x))"
      have "(sys_move Y)\<^sup>*\<^sup>* y ?z"
        using move_step [OF rtranclp.rtrancl_refl call_stat [OF y(1,2) x(2)]] by simp
      moreover have "ends_alone Y A t0 j (k x)"
        using PStat by simp
      moreover have "exec (y_prims Y) A (k x) (y_tree y) w1 = Inr (r, t', w')"
        using y(4) x(1) by simp
      ultimately show "\<exists>m' s1 t1 w1. (sys_move Y)\<^sup>*\<^sup>* y (set_thread (y\<lparr>y_req := s1, y_tree := t1\<rparr>) j (TRun m')) \<and> quiet s1 \<and>
         ends_alone Y A t0 j m' \<and> exec (y_prims Y) A m' t1 w1 = Inr (r, t', w')"
        using y(3) by blast
    qed
  qed
qed

text \<open>So every result of a sequential callback is one that the system can give.\<close>

lemma callback_alone:
  assumes "sys_ok Y S cc" "tree_inv S (\<lambda>_. True) root cc t ()" "1 \<le> env_workers (y_requester Y)" "realised Y A"
    and "is_abs (req_Filepath (op_request (y_ops Y j)))" "exec (y_prims Y) A (op_prog (y_ops Y j)) t w = Inr (r, t', w')"
  shows "\<exists>y. reached Y False t y \<and> y_crash y = None \<and> y_threads y = (\<lambda>_. TNone)(j := TDone r) \<and> y_tree y = t'"
proof -
  let ?y = "set_thread (sys_start t) j (TRun (op_prog (y_ops Y j)))"
  have y: "reached Y False t ?y"
    using assms(5) by (intro reach_env [OF reach_start] new_request) (simp_all add: sys_start_def)
  have "quiet (y_req ?y)"
    by (simp add: sys_start_def quiet_def Requester_New_def returned_def)
  then obtain y' where "(sys_move Y)\<^sup>*\<^sup>* ?y y'" "y_crash y' = None" "y_threads y' = (y_threads ?y)(j := TDone r)" "y_tree y' = t'"
    using program_alone [OF assms(1-4), unfolded ends_alone_def, rule_format, of ?y j _ w r t' w'] y assms(6)
    by (auto simp: sys_start_def)
  then show ?thesis
    using move_reached [OF _ y] by (intro exI [of _ y']) (simp add: sys_start_def)
qed

section \<open>A backend that is a store\<close>

text \<open>The backend that answers from a store without failing.\<close>

definition store_answers :: "store \<Rightarrow> work \<Rightarrow> reply \<Rightarrow> goerr option \<Rightarrow> bool" where
  "store_answers S w r err \<longleftrightarrow>
     (case requestType w of
        workReadFile \<Rightarrow> (case st_ReadFile S (arg1 w) of Inl e \<Rightarrow> r = RFile [] \<and> err = Some e | Inr f \<Rightarrow> r = RFile (sdata f) \<and> err = None)
      | workReadDir \<Rightarrow> (case st_ReadDir S (arg1 w) of Inl e \<Rightarrow> r = RDir [] \<and> err = Some e | Inr l \<Rightarrow> r = RDir l \<and> err = None)
      | workNone \<Rightarrow> r = RName [] \<and> err = Some IoEOF
      | workDecryptName \<Rightarrow> st_panics S (arg1 w) (arg2 w) = None \<and> (case st_DecryptName S (arg1 w) (arg2 w) of Inl e \<Rightarrow> r = RName [] \<and> err = Some e | Inr n \<Rightarrow> r = RName n \<and> err = None))"

definition store_panics :: "store \<Rightarrow> work \<Rightarrow> fault option" where
  "store_panics S w = (if requestType w = workDecryptName then st_panics S (arg1 w) (arg2 w) else None)"

text \<open>A numbering of the legal requests, each with infinitely many numbers.\<close>

definition request_of :: "nat \<times> string \<times> bytes \<Rightarrow> work" where
  "request_of x = (case x of (n, a, b) \<Rightarrow>
     \<lparr>requestType = (if n = 0 then workReadFile else if n = 1 then workReadDir else workDecryptName), arg1 = a, arg2 = b\<rparr>)"

definition numbered_request :: "store \<Rightarrow> nat \<Rightarrow> work" where
  "numbered_request S c =
     (let w = request_of (from_nat (fst (prod_decode c))) in
      if legal_request S w then w else \<lparr>requestType = workReadFile, arg1 = [], arg2 = []\<rparr>)"

definition store_env :: "prims \<Rightarrow> store \<Rightarrow> (u64 \<Rightarrow> u64 \<Rightarrow> bytes \<Rightarrow> u64) \<Rightarrow> nat \<Rightarrow> (nat \<Rightarrow> sftp_op) \<Rightarrow> sysenv" where
  "store_env P S hash n ops = \<lparr>y_prims = P,
     y_requester = \<lparr>env_workers = n, env_siphash = hash, env_request = numbered_request S, env_answers = store_answers S,
       env_panics = store_panics S\<rparr>,
     y_stat = (\<lambda>p r. r = st_Stat S p), y_ops = ops\<rparr>"

lemma store_env_simps [simp]:
  "y_prims (store_env P S hash n ops) = P" "y_ops (store_env P S hash n ops) = ops"
  "env_workers (y_requester (store_env P S hash n ops)) = n"
  by (simp_all add: store_env_def)

lemma numbered_request_legal: "legal_request S (numbered_request S c)"
  by (simp add: numbered_request_def Let_def legal_request_def)

lemma numbered_request_supply:
  assumes "legal_request S w"
  shows "infinite {c. numbered_request S c = w}"
proof -
  define x where "x = ((case requestType w of workReadFile \<Rightarrow> 0 | workReadDir \<Rightarrow> 1 | _ \<Rightarrow> 2) :: nat, arg1 w, arg2 w)"
  have x: "request_of x = w"
    using assms by (cases w) (auto simp: x_def request_of_def legal_request_def split: workType.splits)
  have "numbered_request S (prod_encode (to_nat x, m)) = w" for m
    using assms x by (simp add: numbered_request_def Let_def)
  then have "range (\<lambda>m. prod_encode (to_nat x, m)) \<subseteq> {c. numbered_request S c = w}"
    by auto
  moreover have "infinite (range (\<lambda>m. prod_encode (to_nat x, m)))"
    by (simp add: finite_image_iff inj_on_def)
  ultimately show ?thesis
    using finite_subset by blast
qed

lemma store_env_served:
  assumes "names_unique S" "inj_on (hash sipHashKey1 sipHashKey2) (dir_ivs S)"
  shows "served_by (store_env P S hash n ops) S"
  unfolding served_by_def
proof (intro conjI)
  have "reply_true S w r" if "store_answers S w r err" "reply_data r \<noteq> None" for w r err
    using that by (cases "requestType w") (auto simp: store_answers_def reply_true_def reply_data_def file_data_def split: sum.splits)
  moreover have "case requestType w of workReadFile \<Rightarrow> \<exists>d. r = RFile d | workReadDir \<Rightarrow> \<exists>d. r = RDir d | _ \<Rightarrow> \<exists>d. r = RName d"
    if "store_answers S w r err" for w r err
    using that by (cases "requestType w") (auto simp: store_answers_def split: sum.splits)
  ultimately show "truthful (store_env P S hash n ops) S"
    by (auto simp: truthful_def typed_answers_def store_env_def store_panics_def split: if_splits)
  show "call_supply (store_env P S hash n ops) S"
    by (simp add: call_supply_def store_env_def numbered_request_legal numbered_request_supply)
qed (use assms in \<open>simp_all add: ivs_hashed_apart_def store_env_def\<close>)

lemma store_env_answers: "backend_answers (store_env P S hash n ops)"
proof -
  have "(\<exists>r err. store_answers S w r err) \<or> (requestType w = workDecryptName \<and> st_panics S (arg1 w) (arg2 w) \<noteq> None)" for w
    by (cases "requestType w"; cases "st_ReadFile S (arg1 w)"; cases "st_ReadDir S (arg1 w)"; cases "st_DecryptName S (arg1 w) (arg2 w)")
      (auto simp add: store_answers_def)
  then show ?thesis
    by (simp add: backend_answers_def store_env_def store_panics_def) blast
qed

text \<open>The accessor that reads the store.\<close>

definition store_access :: "store \<Rightarrow> unit FSAccess" where
  "store_access S = \<lparr>fs_ReadFile = (\<lambda>p w. (map_sum id sdata (st_ReadFile S p), w)), fs_Stat = (\<lambda>p w. (st_Stat S p, w)),
     req_ReadFile = (\<lambda>p w. (st_ReadFile S p, w)), req_ReadDir = (\<lambda>p w. (st_ReadDir S p, w)),
     req_DecryptName = (\<lambda>n iv w. case st_panics S n iv of Some f \<Rightarrow> Inl f | None \<Rightarrow> Inr (st_DecryptName S n iv, w))\<rparr>"

lemma store_access_serves: "serves (store_access S) (\<lambda>_. True) S"
  by (simp add: serves_def store_access_def split: option.split)

definition no_empty :: "store \<Rightarrow> bool" where
  "no_empty S \<longleftrightarrow> (\<forall>p f. st_ReadFile S p = Inr f \<longrightarrow> sdata f \<noteq> []) \<and> (\<forall>p. st_ReadDir S p \<noteq> Inr []) \<and>
     (\<forall>n iv. st_DecryptName S n iv \<noteq> Inr [])"

lemma store_realised: "no_empty S \<Longrightarrow> realised (store_env P S hash n ops) (store_access S)"
  by (auto simp: realised_def answers_as_def store_env_def store_access_def store_answers_def reply_data_def no_empty_def
      split: sum.split option.splits)

end
