(* ===== verification/Concurrent.thy ===== *)
theory Concurrent
  imports TreeSystemAlone
begin

text \<open>
  The properties of the server at work: what its clients receive while their requests run at the same
  time, that every request is answered, and that the sequential methods are among its behaviours.
\<close>

section \<open>Results\<close>

lemma thread_done:
  assumes "sys_ok Y S cc" "tree_inv S (\<lambda>_. True) root cc t ()" "reached Y tm t y" "y_threads y j = TDone r"
  shows "op_post (y_prims Y) S root cc (y_ops Y j) r"
  using reached_inv [OF assms(1-3)] assms(4) unfolding sys_inv_def by (metis thread_ok.simps(4))

section \<open>An example\<close>

text \<open>The small tree, without empty directories, served by one worker.\<close>

definition lone_store :: "gslice \<Rightarrow> store" where
  "lone_store f = (demo_store f)\<lparr>st_ReadDir := (\<lambda>p. Inr (if p = ''/c''
     then [demo_file ''gocryptfs.conf'' False, demo_file ''D'' True, demo_file ''F'' False] else [demo_file ''X'' False]))\<rparr>"

definition lone_hash :: "gslice \<Rightarrow> u64 \<Rightarrow> u64 \<Rightarrow> bytes \<Rightarrow> u64" where
  "lone_hash f k0 k1 iv = (if iv = sdata f then 1 else 0)"

definition lone_env :: "prims \<Rightarrow> gslice \<Rightarrow> sftp_op \<Rightarrow> sysenv" where
  "lone_env P f op = store_env P (lone_store f) (lone_hash f) 1 (\<lambda>_. op)"

lemma lone_store_simps [simp]:
  "st_ReadFile (lone_store f) p = (if p = ''/c/F'' then Inr f else Inr (make_slice 16))"
  "st_DecryptName (lone_store f) n iv = (if n = ''D'' then Inr ''d'' else if n = ''F'' then Inr ''f'' else Inl (Errno EBADMSG))"
  "st_Stat (lone_store f) p = Inr (demo_file p True)"
  "st_ReadDir (lone_store f) p = Inr (if p = ''/c''
     then [demo_file ''gocryptfs.conf'' False, demo_file ''D'' True, demo_file ''F'' False] else [demo_file ''X'' False])"
  "st_panics (lone_store f) n iv = None"
  by (simp_all add: lone_store_def demo_store_def)

lemma lone_calm: "calm (lone_store f) root"
  by (simp add: calm_def calm_dir_def)

lemma lone_names: "names_unique (lone_store f)"
  unfolding names_unique_def
proof (intro allI impI ballI)
  fix d iv l i j n
  assume "dir_entries (lone_store f) d = Inr (iv, l)" and mem: "i \<in> set l" "j \<in> set l"
    and dec: "st_DecryptName (lone_store f) (fi_name i) iv = Inr n \<and> st_DecryptName (lone_store f) (fi_name j) iv = Inr n"
  then have "set l \<subseteq> {demo_file ''gocryptfs.conf'' False, demo_file ''D'' True, demo_file ''F'' False, demo_file ''X'' False}"
    by (auto simp: dir_entries_def split: if_splits)
  then have "i \<in> {demo_file ''gocryptfs.conf'' False, demo_file ''D'' True, demo_file ''F'' False, demo_file ''X'' False}"
    "j \<in> {demo_file ''gocryptfs.conf'' False, demo_file ''D'' True, demo_file ''F'' False, demo_file ''X'' False}"
    using mem by blast+
  then show "i = j"
    using dec by (auto simp: demo_file_def split: if_splits)
qed

lemma lone_hashed: "inj_on (lone_hash f sipHashKey1 sipHashKey2) (dir_ivs (lone_store f))"
proof -
  have "dir_ivs (lone_store f) \<subseteq> {sdata f, replicate 16 0}"
    by (auto simp: dir_ivs_def make_slice_def split: if_splits)
  moreover have "inj_on (lone_hash f sipHashKey1 sipHashKey2) {sdata f, z}" for z
    by (auto simp: lone_hash_def inj_on_def)
  ultimately show ?thesis
    using inj_on_subset by blast
qed

lemma lone_ok:
  assumes "length (sdata f) < 2 ^ 62" "core_aead P cc"
  shows "sys_ok (lone_env P f op) (lone_store f) cc"
  using assms store_env_served [where hash = "lone_hash f" and P = P and n = 1 and ops = "\<lambda>_. op", OF lone_names lone_hashed]
  by (auto simp: sys_ok_def lone_env_def small_files_def make_slice_def)

lemma lone_realised: "sdata f \<noteq> [] \<Longrightarrow> realised (lone_env P f op) (store_access (lone_store f))"
  unfolding lone_env_def by (rule store_realised) (auto simp: no_empty_def make_slice_def)

lemma lone_walk:
  "entry (lone_store f) ''/c'' ''f'' = Inr (demo_file ''F'' False)"
  "dir_entries (lone_store f) ''/c'' =
    Inr (replicate 16 0, [demo_file ''gocryptfs.conf'' False, demo_file ''D'' True, demo_file ''F'' False])"
proof -
  show "dir_entries (lone_store f) ''/c'' =
    Inr (replicate 16 0, [demo_file ''gocryptfs.conf'' False, demo_file ''D'' True, demo_file ''F'' False])"
    by (simp add: dir_entries_def demo_Join make_slice_def)
  then show "entry (lone_store f) ''/c'' ''f'' = Inr (demo_file ''F'' False)"
    by (simp add: entry_def) (simp add: demo_file_def)
qed

text \<open>A \<^verbatim>\<open>Get\<close> of the file runs through the system and comes back with its plaintext.\<close>

abbreviation lone_get :: sftp_op where
  "lone_get \<equiv> OpGet \<lparr>req_Method = ''Get'', req_Filepath = ''/x/../f'', req_Target = []\<rparr>"

lemma lone_read:
  assumes t: "tree_inv (lone_store f) (\<lambda>_. True) ''/c'' cc t ()" and P: "core_aead P cc"
    and f: "sdata f = hdr @ concat xs" "ParseHeader hdr = Inr h" "length hdr = 18" "sealed_run P cc (Some (hID h)) 0 [[1, 2, 3]] xs"
  obtains t' where "FileTree_ReadFile P (store_access (lone_store f)) ''/x/../f'' t () = Inr (Inr [1, 2, 3], t', ())"
    "length (sdata f) < 2 ^ 62" "sdata f \<noteq> []"
proof -
  have len: "length (sdata f) < 2 ^ 62" "sdata f \<noteq> []"
    using f(1,3) sealed_run_length [OF f(4)] t by (auto simp: tree_inv_def tree_ok_def tree_enc_def AuthTagLen_def)
  have "\<exists>be'. decryptFile P be f = Inr (Inr [1, 2, 3], be') \<and> tree_enc cc be'" if "tree_enc cc be" for be
  proof -
    have "unat (plainBS be) = 4096"
      using that by (simp add: tree_enc_def)
    moreover have "f = \<lparr>sdata = hdr @ concat xs, scap = scap f\<rparr>"
      using f(1) by (cases f) simp
    ultimately show ?thesis
      using decryptFile_sealed [OF that P f(2,3) _ _ f(4), of "scap f"] by simp
  qed
  from yields_ReadFile [OF store_access_serves lone_calm demo_paths(1), where cs = "[]" and c = "''f''" and d = "''/c''" and P = P, OF _ _ lone_walk(1) _ _ this]
  have "yields (tree_inv (lone_store f) (\<lambda>_. True) ''/c'' cc) (FileTree_ReadFile P (store_access (lone_store f)) ''/x/../f'') (Inr [1, 2, 3])"
    by (simp add: demo_paths demo_file_def demo_Join)
  from yieldsD [OF this t] show thesis
    using that len by auto
qed

section \<open>Properties\<close>

text \<open>
  Under any interleaving of any number of requests, workers, timeouts and cleared caches, and
  whatever errors the backend reports, a listing that is returned is a part of the true listing of
  the directory that the path names, in its order, with the right names and sizes.
\<close>

lemma concurrent_listing:
  assumes "sys_ok Y S cc" and "tree_inv S (\<lambda>_. True) root cc t ()" and "reached Y timers t y"
    and "y_ops Y j = OpList req" and "req_Method req = ''List''" and "y_threads y j = TDone (Inr v)"
  shows "\<exists>l' d iv l. v = VList (Some l') \<and> walk S root (path_comps (req_Filepath req)) = Inr d \<and>
    dir_entries S d = Inr (iv, l) \<and> subseq l' (plain_listing S cc iv l)"
  using thread_done [OF assms(1-3,6)] assms(4,5) by (auto simp: got_listing_def)

text \<open>The listing of the small tree, through the system.\<close>

abbreviation lone_list :: sftp_op where
  "lone_list \<equiv> OpList \<lparr>req_Method = ''List'', req_Filepath = ''/'', req_Target = []\<rparr>"

definition lone_slice :: gslice where
  "lone_slice = \<lparr>sdata = [7], scap = 1\<rparr>"

lemma lone_tree_inv: "tree_inv (lone_store f) (\<lambda>_. True) ''/c'' demo_core demo_tree w"
  using demo_tree_ok by (simp add: tree_inv_def) (simp add: demo_tree_def contents_def NewFastCache_def)

lemma lone_slice_ok: "sys_ok (lone_env demo_prims lone_slice op) (lone_store lone_slice) demo_core" "sdata lone_slice \<noteq> []"
  using lone_ok [OF _ core_aead_demo, of lone_slice] by (simp_all add: lone_slice_def)

lemma lone_callback:
  "\<exists>l t'. callback demo_prims (store_access (lone_store lone_slice)) lone_list demo_tree () = Inr (Inr (VList (Some l)), t', ())"
proof -
  have "walk (lone_store lone_slice) ''/c'' (path_comps ''/'') = Inr ''/c''"
    by (simp add: demo_paths)
  from yieldsD [OF yields_ReadDir [OF store_access_serves lone_calm demo_paths(5) this lone_walk(2)] lone_tree_inv]
  obtain l t' where "FileTree_ReadDir (store_access (lone_store lone_slice)) ''/'' demo_tree () = Inr (Inr l, t', ())"
    by auto
  then show ?thesis
    by (simp add: callback_def as_op_def decrypt_Filelist_def tbind_def tret_def)
qed

lemma lone_lists:
  "\<exists>y v. reached (lone_env demo_prims lone_slice lone_list) False demo_tree y \<and> y_threads y 0 = TDone (Inr v)"
proof -
  obtain l t' where "callback demo_prims (store_access (lone_store lone_slice)) lone_list demo_tree () = Inr (Inr (VList (Some l)), t', ())"
    using lone_callback by blast
  then have "exec demo_prims (store_access (lone_store lone_slice)) (op_prog lone_list) demo_tree () = Inr (Inr (VList (Some l)), t', ())"
    unfolding exec_op_prog .
  then show ?thesis
    using callback_alone [where j = 0, OF lone_slice_ok(1) [of lone_list] lone_tree_inv _ lone_realised [OF lone_slice_ok(2)]]
    by (fastforce simp: lone_env_def is_abs_def)
qed

lemma concurrent_listing_witness:
  "\<exists>y l'. reached (lone_env demo_prims lone_slice lone_list) False demo_tree y \<and> y_threads y 0 = TDone (Inr (VList (Some l'))) \<and>
    subseq l' (plain_listing (lone_store lone_slice) demo_core (replicate 16 0)
      [demo_file ''gocryptfs.conf'' False, demo_file ''D'' True, demo_file ''F'' False])"
proof -
  obtain y v where y: "reached (lone_env demo_prims lone_slice lone_list) False demo_tree y" "y_threads y 0 = TDone (Inr v)"
    using lone_lists by blast
  have "y_ops (lone_env demo_prims lone_slice lone_list) 0 = lone_list"
    by (simp add: lone_env_def)
  from concurrent_listing [OF lone_slice_ok(1) lone_tree_inv y(1) this _ y(2)] show ?thesis
    using y by (auto simp: demo_paths lone_walk)
qed

text \<open>
  The runs of the system are finite, and end with all callbacks returned or with the panic of \<^verbatim>\<open>decryptFile\<close>
  or of the decrypter.
\<close>

lemma requests_end:
  assumes "sys_ok Y S cc" and "tree_inv S (\<lambda>_. True) root cc t ()" and "reached Y False t y"
    and "1 \<le> env_workers (y_requester Y)" and "backend_answers Y"
  shows "(\<nexists>run. run 0 = y \<and> (\<forall>n. sys_step Y (run n) (run (Suc n)))) \<and>
    (\<forall>y'. (sys_step Y)\<^sup>*\<^sup>* y y' \<and> (\<nexists>y''. sys_step Y y' y'') \<longrightarrow>
      (\<forall>j. y_threads y' j = TNone \<or> (\<exists>r. y_threads y' j = TDone r)) \<or>
      (y_crash y' = Some (Panic IndexOutOfRange) \<and> stub_file S) \<or>
      (\<exists>f. y_crash y' = Some f \<and> name_panic S root f))"
proof (intro conjI allI impI notI)
  fix y'
  assume y': "(sys_step Y)\<^sup>*\<^sup>* y y' \<and> (\<nexists>y''. sys_step Y y' y'')"
  then have r: "reached Y False t y'" "sys_stuck Y y'"
    using run_reached assms(3) by (auto simp: sys_stuck_def)
  note inv = reached_inv [OF assms(1,2) r(1)]
  show "(\<forall>j. y_threads y' j = TNone \<or> (\<exists>r. y_threads y' j = TDone r)) \<or> (y_crash y' = Some (Panic IndexOutOfRange) \<and> stub_file S) \<or>
      (\<exists>f. y_crash y' = Some f \<and> name_panic S root f)"
  proof (cases "y_crash y'")
    case None
    then show ?thesis
      using sys_stuck_done [OF assms(1) reached_base [OF r(1)] inv assms(4,5) _ r(2)] by blast
  next
    case (Some f)
    then show ?thesis
      using inv unfolding sys_inv_def by blast
  qed
qed (use no_infinite_run [OF assms(1,2)] assms(3) in blast)

text \<open>
  C4: every request is answered, or the server has panicked in one of two ways: with a worker, a backend
  that answers and no timeouts, and while no request arrives, every run of callbacks, calls and workers is finite, and
  where it can go no further every callback has returned its result or its error; except that the server may have panicked
  with the index error of \<^verbatim>\<open>decryptFile\<close>, on a file that is longer than a header and too short
  for a block, or in a worker that decrypted the name of an entry of a reachable directory on which the
  decrypter panics, as it does if the directory's initialization vector does not have 16 bytes.
\<close>

theorem requests_finish:
  assumes "sys_ok Y S cc" and "tree_inv S (\<lambda>_. True) root cc t ()" and "reached Y False t y"
    and "1 \<le> env_workers (y_requester Y)" and "backend_answers Y"
  shows "(\<nexists>run. run 0 = y \<and> (\<forall>n. sys_step Y (run n) (run (Suc n)))) \<and>
    (\<forall>y'. (sys_step Y)\<^sup>*\<^sup>* y y' \<and> (\<nexists>y''. sys_step Y y' y'') \<longrightarrow>
      (\<forall>j. y_threads y' j = TNone \<or> (\<exists>r. y_threads y' j = TDone r)) \<or>
      (y_crash y' = Some (Panic IndexOutOfRange) \<and> stub_file S) \<or>
      (\<exists>f. y_crash y' = Some f \<and> name_panic S root f))"
  using assms by (rule requests_end)

theorem requests_finish_witness:
  "\<exists>y. reached (lone_env demo_prims lone_slice lone_list) False demo_tree y \<and> y_threads y 0 \<noteq> TNone \<and>
    (\<nexists>run. run 0 = y \<and> (\<forall>n. sys_step (lone_env demo_prims lone_slice lone_list) (run n) (run (Suc n))))"
proof -
  obtain y v where y: "reached (lone_env demo_prims lone_slice lone_list) False demo_tree y" "y_threads y 0 = TDone (Inr v)"
    using lone_lists by blast
  have "1 \<le> env_workers (y_requester (lone_env demo_prims lone_slice lone_list))" "backend_answers (lone_env demo_prims lone_slice lone_list)"
    by (simp_all add: lone_env_def store_env_answers)
  from requests_finish [OF lone_slice_ok(1) lone_tree_inv y(1) this] y show ?thesis
    by auto
qed

text \<open>
  C8: the system does what the sequential callbacks say when nothing interferes: from the start of the
  server, a callback for any request (reading, listing, information, or one of the refused kinds) that runs
  alone can return exactly the result of the sequential callback, its error too, through the queue, the
  workers and the caches, and leaves its tree; provided that the backend can give the answers of the sequential
  accessor and that none of these is an empty file, listing or name, which the requester takes for a missing reply and turns into an
  error of its own.
\<close>

theorem sequential_is_possible:
  assumes "sys_ok Y S cc" and "tree_inv S (\<lambda>_. True) root cc t ()" and "1 \<le> env_workers (y_requester Y)" and "realised Y A"
    and "is_abs (req_Filepath (op_request (y_ops Y j)))" and "callback (y_prims Y) A (y_ops Y j) t w = Inr (r, t', w')"
  shows "\<exists>y. reached Y False t y \<and> y_threads y j = TDone r \<and> y_tree y = t' \<and> y_crash y = None"
  using callback_alone [OF assms(1-5)] assms(6) by (fastforce simp: exec_op_prog)

theorem sequential_is_possible_witness:
  "(\<exists>f y. reached (lone_env demo_prims f lone_get) False demo_tree y \<and> y_threads y 0 = TDone (Inr (VFile [1, 2, 3]))) \<and>
   (\<exists>y l. reached (lone_env demo_prims lone_slice lone_list) False demo_tree y \<and> y_threads y 0 = TDone (Inr (VList (Some l))))"
proof -
  obtain hdr h xs where f: "ParseHeader hdr = Inr h" "length hdr = 18" "sealed_run demo_prims demo_core (Some (hID h)) 0 [[1, 2, 3]] xs"
    by (rule demo_sealed [OF core_aead_demo core_aead_file])
  let ?f = "\<lparr>sdata = hdr @ concat xs, scap = 0\<rparr>"
  have hdr: "sdata ?f = hdr @ concat xs"
    by simp
  obtain t' where run: "FileTree_ReadFile demo_prims (store_access (lone_store ?f)) ''/x/../f'' demo_tree () = Inr (Inr [1, 2, 3], t', ())"
    and len: "length (sdata ?f) < 2 ^ 62" "sdata ?f \<noteq> []"
    by (rule lone_read [OF lone_tree_inv core_aead_demo hdr f])
  have "callback demo_prims (store_access (lone_store ?f)) lone_get demo_tree () = Inr (Inr (VFile [1, 2, 3]), t', ())"
    using run by (simp add: callback_def as_op_def decrypt_Fileread_def tbind_def tret_def)
  then have get: "\<exists>y. reached (lone_env demo_prims ?f lone_get) False demo_tree y \<and> y_threads y 0 = TDone (Inr (VFile [1, 2, 3]))"
    using sequential_is_possible [where j = 0, OF lone_ok [where op = lone_get, OF len(1) core_aead_demo] lone_tree_inv _ lone_realised [OF len(2)]]
    by (fastforce simp: lone_env_def is_abs_def)
  obtain l t' where "callback demo_prims (store_access (lone_store lone_slice)) lone_list demo_tree () = Inr (Inr (VList (Some l)), t', ())"
    using lone_callback by blast
  then have "\<exists>y. reached (lone_env demo_prims lone_slice lone_list) False demo_tree y \<and> y_threads y 0 = TDone (Inr (VList (Some l)))"
    using sequential_is_possible [where j = 0, OF lone_slice_ok(1) [of lone_list] lone_tree_inv _ lone_realised [OF lone_slice_ok(2)]]
    by (fastforce simp: lone_env_def is_abs_def)
  with get show ?thesis
    by blast
qed

end
