(* ===== verification/Vault.thy ===== *)
theory Vault
  imports Concurrent
begin

text \<open>
  The server against its abstract specification, a tree of plaintext files and folders. \<open>presents\<close> says
  that a path of the store holds such a tree in the format of gocryptfs: names encrypted under the
  folder's initialization vector, contents sealed in blocks. A client that lists and reads what the
  server shows then sees exactly the plaintext tree, one request at a time or many at once.
\<close>

section \<open>Plaintext trees\<close>

datatype ptree = File bytes | Folder "(string \<times> ptree) list"

fun is_folder :: "ptree \<Rightarrow> bool" where
  "is_folder (File b) = False"
| "is_folder (Folder es) = True"

fun plook :: "ptree \<Rightarrow> string list \<Rightarrow> ptree option" where
  "plook T [] = Some T"
| "plook (File b) (c # cs) = None"
| "plook (Folder es) (c # cs) = (case map_of es c of None \<Rightarrow> None | Some T \<Rightarrow> plook T cs)"

lemma plook_snoc:
  "plook T (cs @ [c]) = (case plook T cs of Some (Folder es) \<Rightarrow> map_of es c | _ \<Rightarrow> None)"
proof (induction T cs rule: plook.induct)
  case (1 T)
  show ?case by (cases T) (simp_all split: option.split)
qed (auto split: option.split)

text \<open>What a client may get and list.\<close>

definition tree_get :: "ptree \<Rightarrow> string \<Rightarrow> bytes option" where
  "tree_get T p = (case plook T (path_comps p) of Some (File b) \<Rightarrow> Some b | _ \<Rightarrow> None)"

definition tree_list :: "ptree \<Rightarrow> string \<Rightarrow> (string \<times> ptree) list option" where
  "tree_list T p = (case plook T (path_comps p) of Some (Folder es) \<Rightarrow> Some es | _ \<Rightarrow> None)"

text \<open>An entry of a listing that shows an entry of a folder: its name, its kind, and a file's size.\<close>

definition shows_entry :: "string \<times> ptree \<Rightarrow> FileInfo \<Rightarrow> bool" where
  "shows_entry x j \<longleftrightarrow> fi_name j = fst x \<and> fi_isdir j = is_folder (snd x) \<and>
     (\<forall>b. snd x = File b \<longrightarrow> fi_size j = int (length b))"

section \<open>Their encryption\<close>

text \<open>
  A file that is not empty: a header and the blocks of its contents, sealed or, in a sparse file, holes. An empty file is stored without
  contents; the accessor may also report an error for it, as the requester does (\<open>empty_reply_is_error\<close>).
\<close>

definition no_content :: "store \<Rightarrow> string \<Rightarrow> bool" where
  "no_content S p \<longleftrightarrow> (\<forall>f. st_ReadFile S p = Inr f \<longrightarrow> sdata f = [])"

definition stored_file :: "prims \<Rightarrow> CryptoCore \<Rightarrow> gslice \<Rightarrow> bytes \<Rightarrow> bool" where
  "stored_file P cc f b \<longleftrightarrow> (\<exists>hdr h ps xs. sdata f = hdr @ concat xs \<and> ParseHeader hdr = Inr h \<and> length hdr = 18 \<and>
     stored_run 4096 P cc (Some (hID h)) 0 ps xs \<and> well_blocked 4096 ps \<and> ps \<noteq> [] \<and> concat ps = b \<and>
     length b + 32 * length ps + 18 < 2 ^ 62)"

text \<open>
  The entries of a folder are those whose names have no dot; the others are the files that gocryptfs
  keeps for itself, \<^verbatim>\<open>gocryptfs.conf\<close> and \<^verbatim>\<open>gocryptfs.diriv\<close>, and the hashed long names.
\<close>

definition stored_entry :: "store \<Rightarrow> NameTransform \<Rightarrow> bytes \<Rightarrow> string \<Rightarrow> string \<times> ptree \<Rightarrow> FileInfo \<Rightarrow> bool" where
  "stored_entry S nt iv d x i \<longleftrightarrow> valid_name (fst x) \<and> length (fst x) \<le> 2032 \<and> EncryptName nt (fst x) iv = Inr (fi_name i) \<and>
     fi_isdir i = is_folder (snd x) \<and> (snd x = File [] \<longrightarrow> fi_size i = 0) \<and>
     (\<forall>f. \<not> fi_isdir i \<longrightarrow> st_ReadFile S (Join [d, fi_name i]) = Inr f \<longrightarrow> fi_size i = int (length (sdata f)))"

abbreviation dot_free :: "FileInfo \<Rightarrow> bool" where
  "dot_free i \<equiv> CHR ''.'' \<notin> set (fi_name i)"

inductive presents :: "store \<Rightarrow> NameTransform \<Rightarrow> prims \<Rightarrow> CryptoCore \<Rightarrow> string \<Rightarrow> ptree \<Rightarrow> bool" for S nt P cc where
  presents_file: "st_ReadFile S p = Inr f \<Longrightarrow> stored_file P cc f b \<Longrightarrow> presents S nt P cc p (File b)"
| presents_empty: "no_content S p \<Longrightarrow> presents S nt P cc p (File [])"
| presents_folder: "dir_entries S d = Inr (iv, l) \<Longrightarrow> length iv = 16 \<Longrightarrow>
    list_all2 (\<lambda>x i. stored_entry S nt iv d x i \<and> presents S nt P cc (Join [d, fi_name i]) (snd x)) es (filter dot_free l) \<Longrightarrow>
    presents S nt P cc d (Folder es)"

inductive_cases presents_fileE: "presents S nt P cc p (File b)"
inductive_cases presents_folderE: "presents S nt P cc p (Folder es)"

text \<open>
  The store's names are decrypted by the name transformer, which keeps its contract, and the panics of the store's
  decrypter are those of the name transformer.
\<close>

definition decrypts_by :: "store \<Rightarrow> NameTransform \<Rightarrow> bool" where
  "decrypts_by S nt \<longleftrightarrow> (\<forall>n iv s. st_DecryptName S n iv = Inr s \<longleftrightarrow> DecryptName nt n iv = Inr s)"

definition panics_by :: "store \<Rightarrow> NameTransform \<Rightarrow> bool" where
  "panics_by S nt \<longleftrightarrow> (\<forall>n iv. st_panics S n iv = panic_of (DecryptName nt n iv))"

definition names_by :: "store \<Rightarrow> NameTransform \<Rightarrow> bool" where
  "names_by S nt \<longleftrightarrow> decrypts_by S nt \<and> (\<forall>iv. length iv = 16 \<longrightarrow> eme_ok (emeCipher nt) iv)"

section \<open>Lookup\<close>

lemma stored_entry_decrypts:
  assumes "names_by S nt" "length iv = 16" "stored_entry S nt iv d x i"
  shows "st_DecryptName S (fi_name i) iv = Inr (fst x)"
proof -
  have "eme_ok (emeCipher nt) iv"
    using assms(1,2) by (simp add: names_by_def)
  moreover have "short_bytes (to_bytes (fst x))" and v: "valid_name (fst x)"
    using assms(3) by (auto simp: stored_entry_def short_bytes_def valid_name_def)
  ultimately obtain enc where "EncryptName nt (fst x) iv = Inr (b64_encode (B64 nt) enc)"
    "enc_chain (eme_Decrypt (emeCipher nt) iv) unPad16 enc = Inr (to_bytes (fst x))" "eme_block_data enc"
    using EncryptName_block_data by metis
  moreover have "EncryptName nt (fst x) iv = Inr (fi_name i)"
    using assms(3) by (simp add: stored_entry_def)
  ultimately have "DecryptName nt (fi_name i) iv = Inr (fst x)"
    using DecryptName_b64_encode [OF _ _ v] by (metis sum.inject(2))
  then show ?thesis
    using assms(1) by (simp add: names_by_def decrypts_by_def)
qed

lemma names_by_dot_free: "names_by S nt \<Longrightarrow> st_DecryptName S (fi_name i) iv = Inr s \<Longrightarrow> dot_free i"
  using DecryptName_no_dot unfolding names_by_def decrypts_by_def by blast

lemma find_filter: "(\<And>x. p x \<Longrightarrow> q x) \<Longrightarrow> find p xs = find p (filter q xs)"
  by (induction xs) auto

lemma find_related:
  assumes "list_all2 R xs ys" "\<And>x y. R x y \<Longrightarrow> p y \<longleftrightarrow> fst x = c"
  shows "case map_of xs c of None \<Rightarrow> find p ys = None | Some v \<Rightarrow> \<exists>y. find p ys = Some y \<and> R (c, v) y"
  using assms(1)
proof (induction rule: list_all2_induct)
  case (Cons x xs y ys)
  then show ?case
    using assms(2) [OF Cons(1)] by (cases x) (auto split: option.splits)
qed simp

lemma entry_holds:
  assumes "names_by S nt" "presents S nt P cc d (Folder es)"
  shows "case map_of es c of None \<Rightarrow> \<exists>e. entry S d c = Inl e
    | Some T \<Rightarrow> \<exists>i iv. entry S d c = Inr i \<and> stored_entry S nt iv d (c, T) i \<and> presents S nt P cc (Join [d, fi_name i]) T"
proof -
  obtain iv l where d: "dir_entries S d = Inr (iv, l)" "length iv = 16"
    and es: "list_all2 (\<lambda>x i. stored_entry S nt iv d x i \<and> presents S nt P cc (Join [d, fi_name i]) (snd x)) es (filter dot_free l)"
    using assms(2) by (rule presents_folderE) blast
  let ?p = "\<lambda>i. st_DecryptName S (fi_name i) iv = Inr c"
  have "find ?p l = find ?p (filter dot_free l)"
    using names_by_dot_free [OF assms(1)] by (intro find_filter)
  then show ?thesis
    using find_related [OF es, of ?p c] stored_entry_decrypts [OF assms(1) d(2)] d(1)
    by (fastforce simp: entry_def split: option.splits)
qed

lemma walk_holds:
  assumes "names_by S nt" "presents S nt P cc d (Folder es)"
  shows "(\<forall>es'. plook (Folder es) cs = Some (Folder es') \<longrightarrow> (\<exists>d'. walk S d cs = Inr d' \<and> presents S nt P cc d' (Folder es'))) \<and>
    ((\<nexists>es'. plook (Folder es) cs = Some (Folder es')) \<longrightarrow> (\<exists>e. walk S d cs = Inl e))"
  using assms(2)
proof (induction cs arbitrary: d es)
  case (Cons c cs)
  show ?case
  proof (cases "map_of es c")
    case None
    then show ?thesis
      using entry_holds [OF assms(1) Cons.prems, of c] by (auto simp: enter_def)
  next
    case (Some T)
    then obtain i where i: "entry S d c = Inr i" "fi_isdir i = is_folder T" "presents S nt P cc (Join [d, fi_name i]) T"
      using entry_holds [OF assms(1) Cons.prems, of c] by (auto simp: stored_entry_def)
    show ?thesis
    proof (cases T)
      case (File b)
      then show ?thesis
        using Some i by (cases cs) (auto simp: enter_def)
    next
      case (Folder es1)
      then show ?thesis
        using Some i Cons.IH [of "Join [d, fi_name i]" es1] by (simp add: enter_def)
    qed
  qed
qed simp

text \<open>
  A tree in the format of gocryptfs gives the decrypter nothing to panic on: initialization vectors have
  16 bytes, names without a dot are those of the tree's entries, and a name with a dot is no base64.
\<close>

lemma list_all2_partner: "list_all2 R xs ys \<Longrightarrow> y \<in> set ys \<Longrightarrow> \<exists>x. R x y"
  by (induction rule: list_all2_induct) auto

lemma presents_calm:
  assumes "names_by S nt" "panics_by S nt" "presents S nt P cc root (Folder es)"
  shows "calm S root"
  unfolding calm_def calm_dir_def
proof (intro allI impI ballI)
  fix cs d iv l i
  assume d: "walk S root cs = Inr d" and l: "dir_entries S d = Inr (iv, l)" and i: "i \<in> set l"
  obtain es' where "presents S nt P cc d (Folder es')"
    using walk_holds [OF assms(1,3), of cs] d by fastforce
  then have iv: "length iv = 16" and
    es: "list_all2 (\<lambda>x i. stored_entry S nt iv d x i \<and> presents S nt P cc (Join [d, fi_name i]) (snd x)) es' (filter dot_free l)"
    using l by (auto elim: presents_folderE)
  show "st_panics S (fi_name i) iv = None"
  proof (cases "dot_free i")
    case True
    then have "i \<in> set (filter dot_free l)"
      using i by simp
    then obtain x where "stored_entry S nt iv d x i"
      using list_all2_partner [OF es] by blast
    then have "DecryptName nt (fi_name i) iv = Inr (fst x)"
      using stored_entry_decrypts [OF assms(1) iv] assms(1) by (simp add: names_by_def decrypts_by_def)
    then show ?thesis
      using assms(2) by (simp add: panics_by_def)
  next
    case False
    have "panic_of (DecryptName nt (fi_name i) iv) \<noteq> Some f" for f
      using DecryptName_panics [of nt "fi_name i" iv f] b64_decode_no_dot False by blast
    then have "panic_of (DecryptName nt (fi_name i) iv) = None"
      by (metis not_None_eq)
    then show ?thesis
      using assms(2) by (simp add: panics_by_def)
  qed
qed

section \<open>Listings\<close>

text \<open>The listing shows a file with the size of its plaintext.\<close>

lemma stored_file_size:
  assumes "stored_file P cc f b" "core_aead P cc" "tree_enc cc be" "fi_size i = int (length (sdata f))"
  shows "tree_size cc i = int (length b)"
proof -
  obtain hdr h ps xs where f: "sdata f = hdr @ concat xs" "ParseHeader hdr = Inr h" "length hdr = 18"
      "stored_run 4096 P cc (Some (hID h)) 0 ps xs" "ps \<noteq> []" "concat ps = b" "length b + 32 * length ps + 18 < 2 ^ 62"
    and wb: "well_blocked (unat (plainBS be)) ps"
    using assms(1,3) unfolding stored_file_def tree_enc_def by auto
  have small: "length (concat ps) + 32 * length ps + 18 < 2 ^ 62"
    using f(6,7) by simp
  obtain n where n: "CipherSizeToPlainSize be (word_of_nat (length (sdata f))) = Inr n" "unat n = length b" "length (sdata f) < 2 ^ 62"
    using stored_decrypts [OF assms(3,2) f(2,3) wb f(5,4) small] f(1,6) by metis
  have "uint n = int (length b)"
    by (simp only: uint_nat n(2))
  moreover have "int (length b) < 2 ^ 62"
    using f(7) by simp
  ultimately have "sint n = int (length b)"
    by (simp add: sint_uint signed_take_bit_int_eq_self)
  moreover have "plain_size (demo_tree\<lparr>ft_cEnc := be\<rparr>) i = Inr (tree_size cc i)"
    by (rule plain_size_tree) (simp add: assms(3))
  ultimately show ?thesis
    using n(1) assms(4) by (simp add: plain_size_def)
qed

lemma stored_file_not_empty: "stored_file P cc f b \<Longrightarrow> b \<noteq> []"
  using well_blocked_concat by (fastforce simp: stored_file_def)

lemma stored_file_data: "sdata f = [] \<Longrightarrow> \<not> stored_file P cc f b"
  by (auto simp: stored_file_def)

lemma tree_size_empty: "fi_size i = 0 \<Longrightarrow> tree_size cc i = 0"
  by (simp add: tree_size_def CipherSizeToPlainSize_short)

lemma plain_listing_filter:
  assumes "names_by S nt"
  shows "plain_listing S cc iv l = plain_listing S cc iv (filter dot_free l)"
proof (induction l)
  case (Cons i l)
  then show ?case
    using names_by_dot_free [OF assms, of i iv] by (auto simp: plain_listing_def split: sum.split)
qed simp

lemma listing_holds:
  assumes "names_by S nt" "core_aead P cc" "tree_enc cc be" "presents S nt P cc d (Folder es)"
  obtains iv l where "dir_entries S d = Inr (iv, l)" "list_all2 shows_entry es (plain_listing S cc iv l)"
proof -
  obtain iv l where d: "dir_entries S d = Inr (iv, l)" "length iv = 16"
    and es: "list_all2 (\<lambda>x i. stored_entry S nt iv d x i \<and> presents S nt P cc (Join [d, fi_name i]) (snd x)) es (filter dot_free l)"
    using assms(4) by (rule presents_folderE) blast
  have shows_entry: "shows_entry x (plainFileInfo i (fst x) (tree_size cc i))"
    if "stored_entry S nt iv d x i" "presents S nt P cc (Join [d, fi_name i]) (snd x)" for x i
    using that stored_file_size [OF _ assms(2,3)] tree_size_empty
    by (auto simp: shows_entry_def plainFileInfo_def stored_entry_def stored_file_data elim!: presents_fileE)
  from es have "list_all2 shows_entry es (plain_listing S cc iv (filter dot_free l))"
  proof (induction rule: list_all2_induct)
    case (Cons x xs i js)
    then have "st_DecryptName S (fi_name i) iv = Inr (fst x)" "shows_entry x (plainFileInfo i (fst x) (tree_size cc i))"
      using stored_entry_decrypts [OF assms(1) d(2)] shows_entry by blast+
    then show ?case
      using Cons(3) by (simp add: plain_listing_def)
  qed (simp add: plain_listing_def)
  then show thesis
    using that d(1) plain_listing_filter [OF assms(1)] by metis
qed

section \<open>One request at a time\<close>

lemma yields_bind_err: "yields J m (Inl e) \<Longrightarrow> yields J (tbind m wrap k) (Inl (wrap e))"
  using yields_bind [of J m "Inl e"] by simp

lemma yields_bind_ret: "yields J m (Inr a) \<Longrightarrow> yields J (k a) r \<Longrightarrow> yields J (tbind m wrap k) r"
  using yields_bind [of J m "Inr a" k "\<lambda>_. r"] by simp

text \<open>An empty file is an error, from the requester or from \<^verbatim>\<open>decryptFile\<close>, which misses the header.\<close>

lemma yields_no_content:
  assumes "serves A I S" "no_content S q"
  shows "\<exists>e. yields (tree_inv S I root cc) (tbind (tcall (req_ReadFile A q)) wrap (\<lambda>f. tbind (tree_decryptFile P f) wrap' tret)) (Inl e)"
proof (cases "st_ReadFile S q")
  case (Inl e)
  then show ?thesis
    using yields_bind_err [OF yields_calls(1) [OF assms(1), where p = q, unfolded Inl]] by blast
next
  case (Inr f)
  then have "sdata f = []"
    using assms(2) by (simp add: no_content_def)
  then obtain e where "\<And>be. decryptFile P be f = Inr (Inl e, be)"
    using CipherSizeToPlainSize_short by (auto simp: decryptFile_def readFileID_def)
  then have "yields (tree_inv S I root cc) (tree_decryptFile P f) (Inl e)"
    by (simp add: yields_def tree_decryptFile_def)
  then show ?thesis
    by (intro exI [of _ "wrap' e"] yields_bind_ret [OF yields_calls(1) [OF assms(1), where p = q, unfolded Inr]] yields_bind_err)
qed

lemma yields_ReadFile_error:
  assumes "serves A I S" "calm S root" "is_abs p"
    and no_file: "\<And>cs c d i. path_comps p = cs @ [c] \<Longrightarrow> walk S root cs = Inr d \<Longrightarrow> entry S d c = Inr i \<Longrightarrow>
      fi_isdir i \<or> no_content S (Join [d, fi_name i])"
  shows "\<exists>e. yields (tree_inv S I root cc) (FileTree_ReadFile P A p) (Inl e)"
proof (cases "path_comps p" rule: rev_cases)
  case Nil
  then have "Clean p = ''/''"
    using assms(3) by (simp add: Clean_abs abs_path_root)
  then show ?thesis
    unfolding FileTree_ReadFile_def Let_def by (auto intro: yields_err)
next
  case (snoc cs c)
  have can: "canonical (cs @ [c])"
    using canonical_path_comps [of p] snoc by simp
  then have p: "Clean p = abs_path (cs @ [c])" "abs_path (cs @ [c]) \<noteq> ''/''" "Dir (abs_path (cs @ [c])) = abs_path cs"
    "Base (abs_path (cs @ [c])) = c"
    using assms(3) snoc by (simp_all only: Clean_abs Dir_abs_path Base_abs_path abs_path_root) simp
  have dir: "yields (tree_inv S I root cc) (findPath A (abs_path cs)) (walk S root cs)"
    using yields_findPath [OF assms(1,2), of "abs_path cs" cc] can by simp
  show ?thesis
  proof (cases "walk S root cs")
    case (Inl e)
    then show ?thesis
      unfolding FileTree_ReadFile_def Let_def p if_not_P [OF p(2)] using yields_bind_err [OF dir [unfolded Inl]] by blast
  next
    case (Inr d)
    note find = yields_findInDir [OF assms(1) calmD [OF assms(2) Inr], where name = c]
    have ent: "\<exists>e. yields (tree_inv S I root cc) (tbind (findInDir A d c) readFileErr (\<lambda>i. if fi_isdir i then terr (E i)
        else tbind (tcall (req_ReadFile A (Join [d, fi_name i]))) (wrap i) (\<lambda>f. tbind (tree_decryptFile P f) (wrap' i) tret))) (Inl e)"
      for E wrap wrap'
    proof (cases "entry S d c")
      case (Inl e)
      then show ?thesis
        using yields_bind_err [OF find [unfolded Inl]] by blast
    next
      case e: (Inr i)
      then have i: "yields (tree_inv S I root cc) (findInDir A d c) (Inr i)"
        using find by simp
      show ?thesis
      proof (cases "fi_isdir i")
        case True
        then show ?thesis
          by (intro exI [of _ "E i"] yields_bind_ret [OF i]) simp
      next
        case False
        then have "no_content S (Join [d, fi_name i])"
          using no_file [OF snoc Inr e] by simp
        from yields_no_content [OF assms(1) this] obtain e where "yields (tree_inv S I root cc)
            (tbind (tcall (req_ReadFile A (Join [d, fi_name i]))) (wrap i) (\<lambda>f. tbind (tree_decryptFile P f) (wrap' i) tret)) (Inl e)"
          by blast
        then show ?thesis
          using False by (intro exI [of _ e] yields_bind_ret [OF i]) simp
      qed
    qed
    have "\<exists>e. yields (tree_inv S I root cc) (tbind (findPath A (abs_path cs)) wrap0 (\<lambda>d.
        tbind (findInDir A d c) readFileErr (\<lambda>i. if fi_isdir i then terr (E d i)
        else tbind (tcall (req_ReadFile A (Join [d, fi_name i]))) (wrap d i) (\<lambda>f. tbind (tree_decryptFile P f) (wrap' d i) tret)))) (Inl e)"
      for wrap0 E wrap wrap'
      using ent [of "E d" "wrap d" "wrap' d"] by (auto intro: yields_bind_ret [OF dir [unfolded Inr]])
    then show ?thesis
      unfolding FileTree_ReadFile_def Let_def p if_not_P [OF p(2)] .
  qed
qed

text \<open>The file that a path names, in the tree and in the store.\<close>

lemma get_holds:
  assumes "names_by S nt" "presents S nt P cc root (Folder es)" "path_comps p = cs @ [c]"
  shows "(\<forall>b. tree_get (Folder es) p = Some b \<longrightarrow> (\<exists>d i. walk S root cs = Inr d \<and> entry S d c = Inr i \<and> \<not> fi_isdir i \<and>
      presents S nt P cc (Join [d, fi_name i]) (File b))) \<and>
    (\<forall>d i. tree_get (Folder es) p = None \<longrightarrow> walk S root cs = Inr d \<longrightarrow> entry S d c = Inr i \<longrightarrow> fi_isdir i)"
proof (cases "\<exists>es'. plook (Folder es) cs = Some (Folder es')")
  case True
  then obtain es' d where look: "plook (Folder es) cs = Some (Folder es')" and d: "walk S root cs = Inr d" "presents S nt P cc d (Folder es')"
    using walk_holds [OF assms(1,2), of cs] by blast
  have get: "tree_get (Folder es) p = (case map_of es' c of Some (File b) \<Rightarrow> Some b | _ \<Rightarrow> None)"
    by (simp add: tree_get_def assms(3) plook_snoc look)
  show ?thesis
  proof (cases "map_of es' c")
    case None
    then show ?thesis
      using entry_holds [OF assms(1) d(2), of c] get d(1) by auto
  next
    case (Some T)
    then obtain i where "entry S d c = Inr i" "fi_isdir i = is_folder T" "presents S nt P cc (Join [d, fi_name i]) T"
      using entry_holds [OF assms(1) d(2), of c] by (auto simp: stored_entry_def)
    then show ?thesis
      using Some get d(1) by (cases T) auto
  qed
next
  case False
  then have "tree_get (Folder es) p = None"
    by (auto simp: tree_get_def assms(3) plook_snoc split: option.split ptree.split)
  moreover have "\<exists>e. walk S root cs = Inl e"
    using walk_holds [OF assms(1,2), of cs] False by blast
  ultimately show ?thesis
    by auto
qed

lemma tree_get_root: "path_comps p = [] \<Longrightarrow> tree_get (Folder es) p = None"
  by (simp add: tree_get_def)

lemma stored_file_decrypts:
  assumes "stored_file P cc f b" "core_aead P cc" "tree_enc cc be"
  shows "\<exists>be'. decryptFile P be f = Inr (Inr b, be') \<and> tree_enc cc be'"
proof -
  obtain hdr h ps xs where f: "sdata f = hdr @ concat xs" "ParseHeader hdr = Inr h" "length hdr = 18"
      "stored_run 4096 P cc (Some (hID h)) 0 ps xs" "ps \<noteq> []" "concat ps = b" "length b + 32 * length ps + 18 < 2 ^ 62"
    and wb: "well_blocked (unat (plainBS be)) ps"
    using assms(1,3) unfolding stored_file_def tree_enc_def by auto
  have "f = \<lparr>sdata = hdr @ concat xs, scap = scap f\<rparr>"
    using f(1) by (cases f) simp
  then show ?thesis
    using decryptFile_stored [OF assms(3,2) f(2,3) wb f(5,4), of "scap f"] f(6,7) by simp
qed

lemma yields_get:
  assumes "serves A I S" "calm S root" "core_aead P cc" "names_by S nt" "presents S nt P cc root (Folder es)" "is_abs p"
  shows "case tree_get (Folder es) p of
      Some b \<Rightarrow> if b = [] then \<exists>e. yields (tree_inv S I root cc) (FileTree_ReadFile P A p) (Inl e)
        else yields (tree_inv S I root cc) (FileTree_ReadFile P A p) (Inr b)
    | None \<Rightarrow> \<exists>e. yields (tree_inv S I root cc) (FileTree_ReadFile P A p) (Inl e)"
proof (cases "tree_get (Folder es) p")
  case None
  have "fi_isdir i" if "path_comps p = cs @ [c]" "walk S root cs = Inr d" "entry S d c = Inr i" for cs c d i
    using get_holds [OF assms(4,5) that(1)] None that(2,3) by blast
  then show ?thesis
    unfolding None option.case by (intro yields_ReadFile_error [OF assms(1,2,6)]) blast
next
  case (Some b)
  then have "path_comps p \<noteq> []"
    using tree_get_root by force
  then obtain cs c where p: "path_comps p = cs @ [c]"
    by (cases "path_comps p" rule: rev_cases) auto
  obtain d i where d: "walk S root cs = Inr d" "entry S d c = Inr i" "\<not> fi_isdir i" and file_d: "presents S nt P cc (Join [d, fi_name i]) (File b)"
    using get_holds [OF assms(4,5) p] Some by blast
  show ?thesis
  proof (cases "b = []")
    case True
    then have "no_content S (Join [d, fi_name i])"
      using file_d by (auto elim!: presents_fileE dest: stored_file_not_empty)
    then have "no_content S (Join [d', fi_name i'])" if "path_comps p = cs' @ [c']" "walk S root cs' = Inr d'" "entry S d' c' = Inr i'" for cs' c' d' i'
      using that d(1,2) p by simp
    then have "\<exists>e. yields (tree_inv S I root cc) (FileTree_ReadFile P A p) (Inl e)"
      by (intro yields_ReadFile_error [OF assms(1,2,6)]) blast
    then show ?thesis
      unfolding Some option.case using True by simp
  next
    case False
    then obtain f where f: "st_ReadFile S (Join [d, fi_name i]) = Inr f" "stored_file P cc f b"
      using file_d by (auto elim!: presents_fileE)
    have "yields (tree_inv S I root cc) (FileTree_ReadFile P A p) (Inr b)"
      by (rule yields_ReadFile [OF assms(1,2,6) p d f(1)]) (rule stored_file_decrypts [OF f(2) assms(3)])
    then show ?thesis
      unfolding Some option.case using False by simp
  qed
qed

lemma yields_list:
  assumes "serves A I S" "calm S root" "core_aead P cc" "names_by S nt" "presents S nt P cc root (Folder es)" "is_abs p" "tree_enc cc be"
  shows "case tree_list (Folder es) p of
      Some es' \<Rightarrow> \<exists>l. list_all2 shows_entry es' l \<and> yields (tree_inv S I root cc) (FileTree_ReadDir A p) (Inr l)
    | None \<Rightarrow> \<exists>e. yields (tree_inv S I root cc) (FileTree_ReadDir A p) (Inl e)"
proof (cases "tree_list (Folder es) p")
  case None
  then have "\<nexists>es'. plook (Folder es) (path_comps p) = Some (Folder es')"
    by (auto simp: tree_list_def)
  then obtain e where e: "walk S root (path_comps p) = Inl e"
    using walk_holds [OF assms(4,5)] by blast
  have "yields (tree_inv S I root cc) (findPath A (Clean p)) (Inl e)"
    using yields_findPath [OF assms(1,2), of "Clean p" cc] assms(6) e by (simp add: Clean_abs)
  from yields_bind_err [OF this] show ?thesis
    unfolding None option.case FileTree_ReadDir_def Let_def by blast
next
  case (Some es')
  then have "plook (Folder es) (path_comps p) = Some (Folder es')"
    by (auto simp: tree_list_def split: option.splits ptree.splits)
  then obtain d where d: "walk S root (path_comps p) = Inr d" "presents S nt P cc d (Folder es')"
    using walk_holds [OF assms(4,5)] by blast
  obtain iv l where l: "dir_entries S d = Inr (iv, l)" "list_all2 shows_entry es' (plain_listing S cc iv l)"
    by (rule listing_holds [OF assms(4,3,7) d(2)])
  show ?thesis
    unfolding Some option.case using l(2) yields_ReadDir [OF assms(1,2,6) d(1) l(1)] by blast
qed

section \<open>Many requests at once\<close>

lemma got_file_tree:
  assumes "got_file P S root cc p b" "core_aead P cc" "names_by S nt" "presents S nt P cc root (Folder es)"
  shows "tree_get (Folder es) p = Some b"
proof -
  obtain cs c d i f be be' where got: "path_comps p = cs @ [c]" "walk S root cs = Inr d" "entry S d c = Inr i" "\<not> fi_isdir i"
    "file_data S (Join [d, fi_name i]) (sdata f)" "tree_enc cc be" "decryptFile P be f = Inr (Inr b, be')"
    using assms(1) unfolding got_file_def by blast
  then obtain b' where b': "tree_get (Folder es) p = Some b'"
    using get_holds [OF assms(3,4) got(1)] by (cases "tree_get (Folder es) p") auto
  then have "presents S nt P cc (Join [d, fi_name i]) (File b')"
    using get_holds [OF assms(3,4) got(1)] got(2,3) by auto
  then consider g where "st_ReadFile S (Join [d, fi_name i]) = Inr g" "stored_file P cc g b'" | "no_content S (Join [d, fi_name i])"
    by (auto elim: presents_fileE)
  then show ?thesis
  proof cases
    case (1 g)
    then have "stored_file P cc f b'"
      using got(5) by (simp add: file_data_def stored_file_def)
    then show ?thesis
      using stored_file_decrypts [OF _ assms(2) got(6)] got(7) b' by fastforce
  next
    case 2
    then have "sdata f = []"
      using got(5) by (auto simp: no_content_def file_data_def)
    then show ?thesis
      using got(7) CipherSizeToPlainSize_short by (auto simp: decryptFile_def readFileID_def)
  qed
qed

lemma got_listing_tree:
  assumes "got_listing S root cc p l'" "core_aead P cc" "names_by S nt" "presents S nt P cc root (Folder es)" "tree_enc cc be"
  shows "\<exists>es' l. tree_list (Folder es) p = Some es' \<and> list_all2 shows_entry es' l \<and> subseq l' l"
proof -
  obtain d iv l where got: "walk S root (path_comps p) = Inr d" "dir_entries S d = Inr (iv, l)" "subseq l' (plain_listing S cc iv l)"
    using assms(1) unfolding got_listing_def by blast
  then obtain es' where es': "plook (Folder es) (path_comps p) = Some (Folder es')" "presents S nt P cc d (Folder es')"
    using walk_holds [OF assms(3,4), of "path_comps p"] by fastforce
  then show ?thesis
    using listing_holds [OF assms(3,2,5) es'(2)] got(2,3) by (fastforce simp: tree_list_def)
qed

section \<open>An example\<close>

text \<open>A folder with one file, encrypted by a name transformer.\<close>

definition vault_store :: "NameTransform \<Rightarrow> string \<Rightarrow> gslice \<Rightarrow> store" where
  "vault_store nt c f =
     \<lparr>st_ReadFile = (\<lambda>p. if p = ''/c/gocryptfs.diriv'' then Inr (make_slice 16) else if p = ''/c/'' @ c then Inr f else Inl (Errno EBADMSG)),
      st_ReadDir = (\<lambda>p. if p = ''/c'' then Inr [demo_file ''gocryptfs.conf'' False,
          \<lparr>fi_name = c, fi_size = int (length (sdata f)), fi_isdir = False\<rparr>] else Inl (Errno EBADMSG)),
      st_DecryptName = (\<lambda>n iv. case DecryptName nt n iv of Inr s \<Rightarrow> Inr s | Inl _ \<Rightarrow> Inl (Errno EBADMSG)),
      st_panics = (\<lambda>n iv. panic_of (DecryptName nt n iv)),
      st_Stat = (\<lambda>p. Inr (demo_file p True))\<rparr>"

lemma Join_c:
  assumes "plain_comp c"
  shows "Join [''/c'', c] = ''/c/'' @ c"
proof -
  have "canonical [''c'', c]" and "''/c/'' @ c = abs_path [''c'', c]"
    using assms by (simp_all add: plain_comp_def abs_path_def)
  then show ?thesis
    using Clean_abs_path [of "[''c'', c]"] by (simp add: Join_def)
qed

lemma EncryptName_plain_comp:
  assumes "EncryptName nt s iv = Inr c" "eme_ok (emeCipher nt) iv" "valid_name s" "length s \<le> 2032"
  shows "plain_comp c" "CHR ''.'' \<notin> set c"
proof -
  have "short_bytes (to_bytes s)"
    using assms(3,4) by (simp add: short_bytes_def valid_name_def)
  then obtain enc where "EncryptName nt s iv = Inr (b64_encode (B64 nt) enc)" "eme_block_data enc"
    using EncryptName_block_data [OF assms(2)] by metis
  then have "b64_decode (B64 nt) c = Inr enc" "enc \<noteq> []"
    using assms(1) by (auto simp: eme_block_data_def)
  then have "c \<noteq> []"
    by (auto simp: b64_decode_def)
  then show "plain_comp c" "CHR ''.'' \<notin> set c"
    using EncryptName_no_dot [OF assms(1)] by (auto simp: plain_comp_def)
qed

lemma vault_decrypts: "decrypts_by (vault_store nt c f) nt"
  by (auto simp: decrypts_by_def vault_store_def split: sum.splits)

lemma vault_panics: "panics_by (vault_store nt c f) nt"
  by (simp add: panics_by_def vault_store_def)

lemma vault_names: "(\<And>iv. length iv = 16 \<Longrightarrow> eme_ok (emeCipher nt) iv) \<Longrightarrow> names_by (vault_store nt c f) nt"
  by (simp add: names_by_def vault_decrypts)

lemma vault_entries:
  "dir_entries (vault_store nt c f) d = Inr (iv, l) \<Longrightarrow>
     l = [demo_file ''gocryptfs.conf'' False, \<lparr>fi_name = c, fi_size = int (length (sdata f)), fi_isdir = False\<rparr>]"
  "dir_entries (vault_store nt c f) ''/c'' = Inr (replicate 16 0,
     [demo_file ''gocryptfs.conf'' False, \<lparr>fi_name = c, fi_size = int (length (sdata f)), fi_isdir = False\<rparr>])"
  by (auto simp: dir_entries_def demo_Join make_slice_def vault_store_def split: if_splits)

lemma vault_presents:
  assumes "\<And>iv. length iv = 16 \<Longrightarrow> eme_ok (emeCipher nt) iv" "EncryptName nt ''f'' (replicate 16 0) = Inr c"
    "stored_file P cc f b \<or> sdata f = [] \<and> b = []"
  shows "presents (vault_store nt c f) nt P cc ''/c'' (Folder [(''f'', File b)])"
proof (rule presents_folder [OF vault_entries(2)])
  have v: "valid_name ''f''"
    by (simp add: valid_name_def)
  have c: "plain_comp c" "CHR ''.'' \<notin> set c"
    using EncryptName_plain_comp [OF assms(2) assms(1) v] by simp_all
  then have "c \<noteq> ''gocryptfs.diriv''"
    by auto
  then have read: "st_ReadFile (vault_store nt c f) (''/c/'' @ c) = Inr f"
    by (simp add: vault_store_def)
  then have "presents (vault_store nt c f) nt P cc (Join [''/c'', c]) (File b)"
    using assms(3) Join_c [OF c(1)] by (auto intro: presents_file presents_empty simp: no_content_def)
  moreover have "b = [] \<longrightarrow> sdata f = []"
    using assms(3) stored_file_not_empty by blast
  ultimately show "list_all2 (\<lambda>x i. stored_entry (vault_store nt c f) nt (replicate 16 0) ''/c'' x i \<and>
      presents (vault_store nt c f) nt P cc (Join [''/c'', fi_name i]) (snd x)) [(''f'', File b)]
    (filter dot_free [demo_file ''gocryptfs.conf'' False, \<lparr>fi_name = c, fi_size = int (length (sdata f)), fi_isdir = False\<rparr>])"
    using c v read assms(2) by (simp add: stored_entry_def demo_file_def Join_c)
qed simp_all

lemma vault_no_empty: "sdata f \<noteq> [] \<Longrightarrow> no_empty (vault_store nt c f)"
  using DecryptName_plain by (fastforce simp: no_empty_def vault_store_def make_slice_def valid_name_def split: sum.splits if_splits)

lemma vault_served:
  assumes "sdata f \<noteq> []" "\<And>iv. length iv = 16 \<Longrightarrow> eme_ok (emeCipher nt) iv"
  shows "served_by (store_env P (vault_store nt c f) (lone_hash f) 1 ops) (vault_store nt c f)"
    "realised (store_env P (vault_store nt c f) (lone_hash f) 1 ops) (store_access (vault_store nt c f))"
proof -
  let ?S = "vault_store nt c f"
  have "i = j" if "dir_entries ?S d = Inr (iv, l)" "i \<in> set l" "j \<in> set l" "st_DecryptName ?S (fi_name i) iv = Inr n"
      "st_DecryptName ?S (fi_name j) iv = Inr n" for d iv l i j n
  proof -
    have "dot_free i" "dot_free j"
      using names_by_dot_free [OF vault_names [OF assms(2)]] that(4,5) by blast+
    then show ?thesis
      using that(2,3) vault_entries(1) [OF that(1)] by (auto simp: demo_file_def)
  qed
  then have "names_unique ?S"
    unfolding names_unique_def by blast
  moreover have "dir_ivs ?S \<subseteq> {sdata f, replicate 16 0}"
    by (auto simp: dir_ivs_def vault_store_def make_slice_def split: if_splits)
  then have "inj_on (lone_hash f sipHashKey1 sipHashKey2) (dir_ivs ?S)"
    by (rule inj_on_subset [rotated]) (auto simp: lone_hash_def inj_on_def)
  ultimately show "served_by (store_env P ?S (lone_hash f) 1 ops) ?S"
    by (rule store_env_served)
  show "realised (store_env P ?S (lone_hash f) 1 ops) (store_access ?S)"
    by (rule store_realised [OF vault_no_empty [OF assms(1)]])
qed

lemma vault_small: "length (sdata f) < 2 ^ 62 \<Longrightarrow> small_files (vault_store nt c f)"
  by (auto simp: small_files_def vault_store_def make_slice_def split: if_splits)

lemma vault_get: "tree_get (Folder [(''f'', File b)]) ''/x/../f'' = Some b"
  by (simp add: tree_get_def demo_paths)

text \<open>Three bytes as a stored file.\<close>

lemma demo_stored:
  assumes "core_aead demo_prims cc" "tree_enc cc be"
  obtains f where "stored_file demo_prims cc f [1, 2, 3]" "sdata f \<noteq> []" "length (sdata f) < 2 ^ 62"
proof -
  obtain hdr h xs where f: "ParseHeader hdr = Inr h" "length hdr = 18" "sealed_run demo_prims cc (Some (hID h)) 0 [[1, 2, 3]] xs"
    by (rule demo_sealed [OF assms])
  let ?f = "\<lparr>sdata = hdr @ concat xs, scap = 0\<rparr>"
  have "length (concat xs) = 35"
    using sealed_run_length [OF f(3)] assms(2) by (simp add: tree_enc_def AuthTagLen_def)
  then have "sdata ?f \<noteq> []" "length (sdata ?f) < 2 ^ 62"
    using f(2) by auto
  moreover have "stored_file demo_prims cc ?f [1, 2, 3]"
    unfolding stored_file_def using f(1,2) sealed_run_stored [OF f(3)] by (intro exI [of _ hdr] exI [of _ h] exI [of _ "[[1, 2, 3]]"] exI [of _ xs]) simp
  ultimately show thesis
    using that by blast
qed

lemma vault_gets_in:
  assumes "tree_inv (vault_store nt c f) (\<lambda>_. True) ''/c'' cc t ()" "core_aead P cc" "\<And>iv. length iv = 16 \<Longrightarrow> eme_ok (emeCipher nt) iv"
    and "EncryptName nt ''f'' (replicate 16 0) = Inr c" "stored_file P cc f b" "sdata f \<noteq> []" "length (sdata f) < 2 ^ 62"
    and "served_by Y (vault_store nt c f)" "realised Y (store_access (vault_store nt c f))"
    and "y_prims Y = P" "y_ops Y = (\<lambda>_. lone_get)" "env_workers (y_requester Y) = 1"
  obtains y where "reached Y False t y" "y_threads y 0 = TDone (Inr (VFile b))"
proof -
  let ?S = "vault_store nt c f"
  have "yields (tree_inv ?S (\<lambda>_. True) ''/c'' cc) (FileTree_ReadFile P (store_access ?S) ''/x/../f'') (Inr b)"
    using yields_get [OF store_access_serves presents_calm [OF vault_names [OF assms(3)] vault_panics vault_presents [OF assms(3,4) disjI1 [OF assms(5)]]]
        assms(2) vault_names [OF assms(3)] vault_presents [OF assms(3,4) disjI1 [OF assms(5)]] demo_paths(1)] stored_file_not_empty [OF assms(5)]
    by (simp add: vault_get)
  from yieldsD [OF this assms(1)]
  obtain t' where "FileTree_ReadFile P (store_access ?S) ''/x/../f'' t () = Inr (Inr b, t', ())"
    by force
  then have run: "exec P (store_access ?S) (op_prog lone_get) t () = Inr (Inr (VFile b), t', ())"
    unfolding exec_op_prog by (simp add: callback_def as_op_def decrypt_Fileread_def tbind_def tret_def)
  have ok: "sys_ok Y ?S cc"
    using assms(8,10) vault_small [OF assms(7)] assms(2) by (simp add: sys_ok_def)
  have "\<exists>y. reached Y False t y \<and> y_crash y = None \<and> y_threads y = (\<lambda>_. TNone)(0 := TDone (Inr (VFile b))) \<and> y_tree y = t'"
    by (rule callback_alone [OF ok assms(1) _ assms(9), where w = "()" and w' = "()"])
      (simp_all only: assms(10-12) run, simp_all add: is_abs_def)
  then show thesis
    using that by fastforce
qed

lemma vault_gets:
  assumes "tree_inv (vault_store nt c f) (\<lambda>_. True) ''/c'' cc t ()" "core_aead P cc" "\<And>iv. length iv = 16 \<Longrightarrow> eme_ok (emeCipher nt) iv"
    and "EncryptName nt ''f'' (replicate 16 0) = Inr c" "stored_file P cc f b" "sdata f \<noteq> []" "length (sdata f) < 2 ^ 62"
  obtains y where "reached (store_env P (vault_store nt c f) (lone_hash f) 1 (\<lambda>_. lone_get)) False t y" "y_threads y 0 = TDone (Inr (VFile b))"
  by (rule vault_gets_in [OF assms vault_served [OF assms(6,3)]]) simp_all

text \<open>A started server, and the name and the contents of a file that it can serve.\<close>

definition demo_vault :: "ConfFile \<Rightarrow> FileTree \<Rightarrow> string \<Rightarrow> gslice \<Rightarrow> bool" where
  "demo_vault cf t c f \<longleftrightarrow>
     (\<forall>A. (\<forall>p. fs_ReadFile A p () = (Inr [1], ())) \<longrightarrow>
        main_init demo_main demo_prims (\<lambda>_. Inr cf) A demo_tmp ''conf'' Map.empty () () = Inr (demo_cfg, t, Map.empty, ())) \<and>
     EncryptName (ft_nTransform t) ''f'' (replicate 16 0) = Inr c \<and>
     stored_file demo_prims (ft_cCore t) f [1, 2, 3] \<and> sdata f \<noteq> [] \<and> length (sdata f) < 2 ^ 62"

lemma demo_vault_start:
  "demo_vault cf t c f \<Longrightarrow> (\<And>p. fs_ReadFile A p () = (Inr [1], ())) \<Longrightarrow>
     main_init demo_main demo_prims (\<lambda>_. Inr cf) A demo_tmp ''conf'' Map.empty () () = Inr (demo_cfg, t, Map.empty, ())"
  by (simp add: demo_vault_def)

lemma demo_vaultD:
  assumes "demo_vault cf t c f"
  shows "core_aead demo_prims (ft_cCore t)" "tree_inv S (\<lambda>_. True) ''/c'' (ft_cCore t) t ()"
    "length iv = 16 \<Longrightarrow> eme_ok (emeCipher (ft_nTransform t)) iv" "EncryptName (ft_nTransform t) ''f'' (replicate 16 0) = Inr c"
    "stored_file demo_prims (ft_cCore t) f [1, 2, 3]" "sdata f \<noteq> []" "length (sdata f) < 2 ^ 62"
proof -
  have init: "main_init demo_main demo_prims (\<lambda>_. Inr cf) (demo_remote nil_slice) demo_tmp ''conf'' Map.empty () () =
      Inr (demo_cfg, t, Map.empty, ())"
    by (rule demo_vault_start [OF assms]) (simp add: demo_remote_def)
  show "core_aead demo_prims (ft_cCore t)" "tree_inv S (\<lambda>_. True) ''/c'' (ft_cCore t) t ()"
    using main_init_tree [OF demo_lib.crypto_lib_axioms init] by (auto simp: demo_cfg_def)
  show "length iv = 16 \<Longrightarrow> eme_ok (emeCipher (ft_nTransform t)) iv"
    by (rule main_init_names [OF demo_lib.crypto_lib_axioms init])
qed (use assms in \<open>simp_all add: demo_vault_def\<close>)

lemma demo_vault_exists: "\<exists>cf t c f. demo_vault cf t c f"
proof -
  obtain cf t where start: "\<And>A. (\<And>p. fs_ReadFile A p () = (Inr [1], ())) \<Longrightarrow>
      main_init demo_main demo_prims (\<lambda>_. Inr cf) A demo_tmp ''conf'' Map.empty () () = Inr (demo_cfg, t, Map.empty, ())"
    and enc: "tree_enc (ft_cCore t) (ft_cEnc t)"
    using demo_starts_on by blast
  have init: "main_init demo_main demo_prims (\<lambda>_. Inr cf) (demo_remote nil_slice) demo_tmp ''conf'' Map.empty () () =
      Inr (demo_cfg, t, Map.empty, ())"
    by (rule start) (simp add: demo_remote_def)
  have core: "core_aead demo_prims (ft_cCore t)"
    using main_init_tree [OF demo_lib.crypto_lib_axioms init] by blast
  have "short_bytes (to_bytes ''f'')" "eme_ok (emeCipher (ft_nTransform t)) (replicate 16 0)"
    using main_init_names [OF demo_lib.crypto_lib_axioms init, of "replicate 16 0"] by (simp_all add: short_bytes_def)
  then obtain c where "EncryptName (ft_nTransform t) ''f'' (replicate 16 0) = Inr c"
    using EncryptName_block_data by metis
  moreover obtain f where "stored_file demo_prims (ft_cCore t) f [1, 2, 3]" "sdata f \<noteq> []" "length (sdata f) < 2 ^ 62"
    by (rule demo_stored [OF core enc])
  ultimately show ?thesis
    unfolding demo_vault_def using start by blast
qed

lemma demo_vault_presents:
  assumes "demo_vault cf t c f"
  shows "presents (vault_store (ft_nTransform t) c f) (ft_nTransform t) demo_prims (ft_cCore t) (FileRoot (Remote demo_cfg))
    (Folder [(''f'', File [1, 2, 3])])"
  using vault_presents [OF demo_vaultD(3,4) [OF assms] disjI1 [OF demo_vaultD(5) [OF assms]]] by (simp add: demo_cfg_def)

text \<open>The same with an empty file.\<close>

lemma demo_vault_presents_empty:
  assumes "demo_vault cf t c f"
  shows "presents (vault_store (ft_nTransform t) c nil_slice) (ft_nTransform t) demo_prims (ft_cCore t) (FileRoot (Remote demo_cfg))
    (Folder [(''f'', File [])])"
  using vault_presents [OF demo_vaultD(3,4) [OF assms], of demo_prims "ft_cCore t" nil_slice "[]"] by (simp add: demo_cfg_def nil_slice_def)

section \<open>Directories that end the server\<close>

text \<open>
  Why a worker panics: the directory's initialization vector does not have 16 bytes, or a name decodes to
  more than EME takes.
\<close>

lemma name_panic_cause:
  assumes "panics_by S nt" "eme_documented (emeCipher nt)" "name_panic S root f"
  shows "\<exists>cs d iv l i. walk S root cs = Inr d \<and> dir_entries S d = Inr (iv, l) \<and> i \<in> set l \<and>
    (length iv \<noteq> 16 \<or> (\<exists>bin. b64_decode (B64 nt) (fi_name i) = Inr bin \<and> 2048 < length bin))"
proof -
  obtain cs d iv l i where i: "walk S root cs = Inr d" "dir_entries S d = Inr (iv, l)" "i \<in> set l" "st_panics S (fi_name i) iv = Some f"
    using assms(3) unfolding name_panic_def asked_def by blast
  then have "panic_of (DecryptName nt (fi_name i) iv) = Some f"
    using assms(1) by (simp add: panics_by_def)
  then obtain bin where bin: "b64_decode (B64 nt) (fi_name i) = Inr bin" "bin \<noteq> []" "length bin mod 16 = 0"
    "eme_Decrypt (emeCipher nt) iv bin = Inl f"
    by (rule DecryptName_panics)
  have "length iv \<noteq> 16 \<or> 2048 < length bin"
    using assms(2) bin unfolding eme_documented_def eme_block_data_def by fastforce
  then show ?thesis
    using i(1-3) bin(1) by blast
qed

definition eme_checks_tweak :: "eme \<Rightarrow> bool" where
  "eme_checks_tweak E \<longleftrightarrow> (\<forall>iv d. length iv \<noteq> 16 \<longrightarrow> (\<exists>p. eme_Decrypt E iv d = Inl (Panic p)))"

text \<open>
  C17: a damaged directory ends the whole server: if the initialization vector of the root directory does
  not have 16 bytes, say because the file was cut short, and one of the directory's names is base64 of whole AES
  blocks, then listing the root panics, because nothing checks the size before EME does; the panic is in a goroutine of
  the requester, and nothing recovers it. (An empty initialization vector never gets there: the requester's accessor
  reports an error for an empty file.)
\<close>

theorem short_iv_crashes:
  assumes "serves A I S" and "tree_inv S I root cc t w" and "panics_by S nt" and "eme_checks_tweak (emeCipher nt)"
    and "dir_entries S root = Inr (iv, l)" and "length iv \<noteq> 16" and "i \<in> set l"
    and "b64_decode (B64 nt) (fi_name i) = Inr bin" and "bin \<noteq> []" and "length bin mod 16 = 0"
  shows "\<exists>p. FileTree_ReadDir A ''/'' t w = Inl (Panic p)"
proof -
  obtain q where "eme_Decrypt (emeCipher nt) iv bin = Inl (Panic q)"
    using assms(4,6) unfolding eme_checks_tweak_def by blast
  then have "st_panics S (fi_name i) iv = Some (Panic q)"
    using assms(3,8-10) by (simp add: panics_by_def DecryptName_def aes_BlockSize_def)
  then have "\<exists>i \<in> set l. st_panics S (fi_name i) iv \<noteq> None"
    using assms(7) by (intro bexI [of _ i]) simp
  from ReadDir_root_panics [OF assms(1,2,5) this]
  obtain k :: FileInfo and f where f: "st_panics S (fi_name k) iv = Some f" "FileTree_ReadDir A ''/'' t w = Inl f"
    by blast
  have "panic_of (DecryptName nt (fi_name k) iv) = Some f"
    using assms(3) f(1) by (simp add: panics_by_def)
  then obtain bin' where "eme_Decrypt (emeCipher nt) iv bin' = Inl f"
    by (rule DecryptName_panics)
  moreover obtain p where "eme_Decrypt (emeCipher nt) iv bin' = Inl (Panic p)"
    using assms(4,6) unfolding eme_checks_tweak_def by blast
  ultimately show ?thesis
    using f(2) by auto
qed

theorem short_iv_crashes_witness:
  "\<exists>E A t p. (\<forall>iv. length iv = 16 \<longrightarrow> eme_ok E iv) \<and> FileTree_ReadDir A ''/'' t () = Inl (Panic p)"
proof -
  let ?f = "Panic (LibPanic ''Tweak must be 16 bytes long'')"
  let ?E = "\<lparr>eme_Encrypt = (\<lambda>iv d. if length iv = 16 then Inr (rev d) else Inl ?f),
    eme_Decrypt = (\<lambda>iv d. if length iv = 16 then Inr (rev d) else Inl ?f)\<rparr>"
  let ?nt = "NameTransform_New ?E True True"
  let ?i = "demo_file ''Dw8PDw8PDw8PDw8PDw8PYQ'' False"
  let ?S = "(demo_store nil_slice)\<lparr>st_ReadFile := (\<lambda>p. Inr (make_slice 3)), st_ReadDir := (\<lambda>p. Inr [demo_file ''gocryptfs.conf'' False, ?i]),
    st_panics := (\<lambda>n iv. panic_of (DecryptName ?nt n iv))\<rparr>"
  have t: "tree_inv ?S (\<lambda>_. True) ''/c'' demo_core demo_tree ()"
    using demo_tree_ok by (simp add: tree_inv_def) (simp add: demo_tree_def contents_def NewFastCache_def)
  have bin: "b64_decode (B64 ?nt) (fi_name ?i) = Inr [15, 15, 15, 15, 15, 15, 15, 15, 15, 15, 15, 15, 15, 15, 15, 97]"
    by (simp add: NameTransform_New_def demo_file_def eval_simps)
  have dir: "dir_entries ?S ''/c'' = Inr (replicate 3 0, [demo_file ''gocryptfs.conf'' False, ?i])"
    by (simp add: dir_entries_def make_slice_def)
  have E: "eme_checks_tweak (emeCipher ?nt)" "panics_by ?S ?nt"
    by (simp_all add: eme_checks_tweak_def NameTransform_New_def panics_by_def)
  obtain p where p: "FileTree_ReadDir (store_access ?S) ''/'' demo_tree () = Inl (Panic p)"
    using short_iv_crashes [OF store_access_serves t E(2,1) dir _ _ bin] by auto
  have "\<forall>iv. length iv = 16 \<longrightarrow> eme_ok ?E iv"
    by (simp add: eme_ok_def)
  with p show ?thesis
    by blast
qed

section \<open>Long names\<close>

text \<open>
  C38: files with long names are out of reach: in a file system with hashed long names, the default, a
  name of 176 bytes or more is stored under a hash, which the tree, that decrypts every name of a
  listing directly, can never decrypt: the file is in no listing and on no path.
\<close>

theorem long_names_hidden:
  assumes "eme_ok (emeCipher nt) iv" and "longNames nt" and "176 \<le> length s" and "length s \<le> NameMax"
  shows "\<exists>c. EncryptAndHashName sha256 nt s iv = Inr c \<and> prefix longNamePrefix c \<and> (\<forall>iv' s'. DecryptName nt c iv' \<noteq> Inr s') \<and>
    (\<forall>S cc iv' i l. decrypts_by S nt \<and> fi_name i = c \<longrightarrow> plain_listing S cc iv' (i # l) = plain_listing S cc iv' l)"
proof -
  have "to_bytes s \<noteq> []"
    using assms(3) by auto
  then obtain p where p: "pad16 (to_bytes s) = Inr p"
    by (simp add: pad16_ok)
  have len: "length p mod 16 = 0" "176 < length p" "length p \<le> 271"
    using pad16_length [OF p] assms(3,4) by (simp_all add: NameMax_def)
  then have "192 \<le> length p"
    by presburger
  have "eme_block_data p"
    using len by (auto simp: eme_block_data_def)
  then obtain enc where enc: "eme_Encrypt (emeCipher nt) iv p = Inr enc" "length enc = length p"
    using assms(1) unfolding eme_ok_def by blast
  let ?c = "HashLongName sha256 nt (b64_encode (B64 nt) enc)"
  have "256 \<le> length (b64_encode (B64 nt) enc)"
    using \<open>192 \<le> length p\<close> enc(2) unfolding length_b64_encode by (cases "B64 nt") (simp only: b64_encoding.case; presburger)+
  then have "EncryptAndHashName sha256 nt s iv = Inr ?c"
    using assms(2,4) p enc(1) by (simp add: EncryptAndHashName_def EncryptName_def NameMax_def)
  moreover have pre: "prefix longNamePrefix ?c"
    by (simp add: HashLongName_def)
  moreover have hid: "DecryptName nt ?c iv' \<noteq> Inr s'" for iv' s'
    using DecryptName_no_dot dot_in_prefix [OF pre] by blast
  moreover have "plain_listing S cc iv' (i # l) = plain_listing S cc iv' l" if "decrypts_by S nt" "fi_name i = ?c" for S cc iv' i l
    using that hid by (auto simp: plain_listing_def decrypts_by_def split: sum.split)
  ultimately show ?thesis
    by blast
qed

theorem long_names_hidden_witness:
  "\<exists>c. EncryptAndHashName (\<lambda>_. replicate 32 1) (NameTransform_New demo_eme True True) (replicate 200 (CHR ''x'')) (replicate 16 7) = Inr c \<and>
     (\<forall>iv s. DecryptName (NameTransform_New demo_eme True True) c iv \<noteq> Inr s)"
proof -
  have "eme_ok (emeCipher (NameTransform_New demo_eme True True)) (replicate 16 7)" "longNames (NameTransform_New demo_eme True True)"
    by (simp_all add: NameTransform_New_def)
  from long_names_hidden [OF this, of "replicate 200 (CHR ''x'')" "\<lambda>_. replicate 32 1"] show ?thesis
    by (auto simp: NameMax_def)
qed

end
