(* ===== verification/Backend.thy ===== *)
theory Backend
  imports SyncCache
begin

text \<open>
  \<^verbatim>\<open>backend/pool.go\<close> and \<^verbatim>\<open>backend/provider.go\<close>: a pool of connections to the server, and
  the calls that take a connection from it, use it and give it back. Connections are numbers.
  What the network answers is a relation, \<open>network\<close>. Calls run concurrently: a step of the relation is one
  operation of one call on the pool or on its connection.
\<close>

section \<open>The pool\<close>

record pool =
  p_conns :: "nat option list"
  p_capacity :: nat

definition newPool :: "nat \<Rightarrow> pool" where
  "newPool capacity = \<lparr>p_conns = [], p_capacity = capacity\<rparr>"

text \<open>
  \<^verbatim>\<open>Get\<close> dials, with the given outcome, only if no connection is waiting; \<open>None\<close> in the
  channel would be \<^verbatim>\<open>nil\<close>.
\<close>

definition pool_Get :: "pool \<Rightarrow> goerr + nat \<Rightarrow> (goerr + nat) \<times> pool" where
  "pool_Get p dial =
     (case p_conns p of
        c # cs \<Rightarrow> (case c of None \<Rightarrow> Inl (Errorf ''pool is closed'' []) | Some c \<Rightarrow> Inr c, p\<lparr>p_conns := cs\<rparr>)
      | [] \<Rightarrow> (dial, p))"

text \<open>The connection that \<^verbatim>\<open>Put\<close> closes because the pool is full, and the pool.\<close>

definition pool_Put :: "pool \<Rightarrow> nat option \<Rightarrow> nat option \<times> pool" where
  "pool_Put p c =
     (if c = None then (None, p)
      else if length (p_conns p) < p_capacity p then (None, p\<lparr>p_conns := p_conns p @ [c]\<rparr>)
      else (c, p))"

text \<open>
  \<^verbatim>\<open>newConn\<close>: the error of the dial, or of the session on top of it, in which case the
  connection that was dialled is closed again.
\<close>

definition newConn :: "goerr + nat \<Rightarrow> goerr option \<Rightarrow> (goerr + nat) \<times> nat option" where
  "newConn dial session =
     (case dial of
        Inl e \<Rightarrow> (Inl (Errorf ''failed to connect to remote server %s'' [FErr e]), None)
      | Inr c \<Rightarrow>
          (case session of
             Some e \<Rightarrow> (Inl (Errorf ''could not open sftp session to remote %s'' [FErr e]), Some c)
           | None \<Rightarrow> (Inr c, None)))"

section \<open>Calls\<close>

datatype call = CallReadFile string | CallReadDir string | CallStat string

text \<open>What the server sends back: the bytes of a file, a listing or the information on a file.\<close>

datatype answer = AFile bytes | ADir "FileInfo list" | AStat FileInfo

text \<open>
  What the server may answer on a connection: opening a file, reading an opened file to its end, a
  listing and stat.
\<close>

record network =
  n_open :: "string \<Rightarrow> goerr option \<Rightarrow> bool"
  n_read :: "string \<Rightarrow> goerr + bytes \<Rightarrow> bool"
  n_dir :: "string \<Rightarrow> goerr + FileInfo list \<Rightarrow> bool"
  n_stat :: "string \<Rightarrow> goerr + FileInfo \<Rightarrow> bool"

text \<open>A call that holds a connection keeps its number; the request is kept to the end as a ghost.\<close>

datatype ppc =
    PIdle
  | PGet call
  | PUse call nat
  | PRead string nat
  | PPing call nat goerr
  | PPut call nat "goerr + answer"
  | PClose call nat "goerr + answer"
  | PDone call "goerr + answer"

text \<open>
  The first operation on the connection: opening the file, listing or stat. A listing and a stat
  are then done; an opened file is read.
\<close>

definition first_answer :: "network \<Rightarrow> call \<Rightarrow> goerr + answer \<Rightarrow> bool" where
  "first_answer N k res =
     (case k of
        CallReadFile path \<Rightarrow> \<exists>err. n_open N path err \<and> res = (case err of Some e \<Rightarrow> Inl e | None \<Rightarrow> Inr (AFile []))
      | CallReadDir path \<Rightarrow> \<exists>r. n_dir N path r \<and> res = map_sum id ADir r
      | CallStat path \<Rightarrow> \<exists>r. n_stat N path r \<and> res = map_sum id AStat r)"

definition use_next :: "call \<Rightarrow> nat \<Rightarrow> goerr + answer \<Rightarrow> ppc" where
  "use_next k c res =
     (case res of
        Inl err \<Rightarrow> PPing k c err
      | Inr a \<Rightarrow> (case k of CallReadFile path \<Rightarrow> PRead path c | _ \<Rightarrow> PPut k c (Inr a)))"

text \<open>The check of the connection after an error.\<close>

definition ping_next :: "call \<Rightarrow> nat \<Rightarrow> goerr \<Rightarrow> goerr option \<Rightarrow> ppc" where
  "ping_next k c err sshErr = (if sshErr \<noteq> None then PClose k c (Inl err) else PPut k c (Inl err))"

record bstate =
  b_pool :: pool
  b_calls :: "nat \<Rightarrow> ppc"
  b_opened :: "nat set"
  b_closed :: "nat set"

definition NewProvider :: bstate where
  "NewProvider = \<lparr>b_pool = newPool 32, b_calls = (\<lambda>_. PIdle), b_opened = {}, b_closed = {}\<rparr>"

definition set_call :: "bstate \<Rightarrow> nat \<Rightarrow> ppc \<Rightarrow> bstate" where
  "set_call s i pc = s\<lparr>b_calls := (b_calls s)(i := pc)\<rparr>"

definition close_conn :: "bstate \<Rightarrow> nat option \<Rightarrow> bstate" where
  "close_conn s c = (case c of None \<Rightarrow> s | Some c \<Rightarrow> s\<lparr>b_closed := insert c (b_closed s)\<rparr>)"

text \<open>A dial that succeeds yields a connection that did not exist before.\<close>

inductive provider_step :: "network \<Rightarrow> bstate \<Rightarrow> bstate \<Rightarrow> bool" for N where
  start_call: "b_calls s i = PIdle \<Longrightarrow> provider_step N s (set_call s i (PGet k))"
| get_pooled: "b_calls s i = PGet k \<Longrightarrow> p_conns (b_pool s) \<noteq> [] \<Longrightarrow> pool_Get (b_pool s) d = (r, p) \<Longrightarrow>
    provider_step N s (set_call (s\<lparr>b_pool := p\<rparr>) i (case r of Inl e \<Rightarrow> PDone k (Inl e) | Inr c \<Rightarrow> PUse k c))"
| get_new: "b_calls s i = PGet k \<Longrightarrow> p_conns (b_pool s) = [] \<Longrightarrow> dial = Inl e \<or> dial = Inr c \<and> c \<notin> b_opened s \<Longrightarrow>
    newConn dial session = (r, closed) \<Longrightarrow> pool_Get (b_pool s) r = (r', p) \<Longrightarrow>
    provider_step N s (set_call (close_conn (s\<lparr>b_pool := p,
      b_opened := (case dial of Inl _ \<Rightarrow> b_opened s | Inr c \<Rightarrow> insert c (b_opened s))\<rparr>) closed) i
      (case r' of Inl e \<Rightarrow> PDone k (Inl e) | Inr c \<Rightarrow> PUse k c))"
| use: "b_calls s i = PUse k c \<Longrightarrow> first_answer N k res \<Longrightarrow> provider_step N s (set_call s i (use_next k c res))"
| read: "b_calls s i = PRead path c \<Longrightarrow> n_read N path res \<Longrightarrow>
    provider_step N s (set_call s i (PPut (CallReadFile path) c (map_sum id AFile res)))"
| ping: "b_calls s i = PPing k c err \<Longrightarrow> provider_step N s (set_call s i (ping_next k c err sshErr))"
| put: "b_calls s i = PPut k c res \<Longrightarrow> pool_Put (b_pool s) (Some c) = (closed, p) \<Longrightarrow>
    provider_step N s (set_call (close_conn (s\<lparr>b_pool := p\<rparr>) closed) i (PDone k res))"
| close: "b_calls s i = PClose k c res \<Longrightarrow> provider_step N s (set_call (close_conn s (Some c)) i (PDone k res))"

inductive provider_reachable :: "network \<Rightarrow> bstate \<Rightarrow> bool" for N where
  provider_start: "provider_reachable N NewProvider"
| provider_run: "provider_reachable N s \<Longrightarrow> provider_step N s s' \<Longrightarrow> provider_reachable N s'"

section \<open>No connection is shared, lost or reused\<close>

text \<open>The connection a call holds.\<close>

fun holds :: "ppc \<Rightarrow> nat option" where
  "holds (PUse k c) = Some c"
| "holds (PRead path c) = Some c"
| "holds (PPing k c e) = Some c"
| "holds (PPut k c r) = Some c"
| "holds (PClose k c r) = Some c"
| "holds _ = None"

text \<open>
  Every opened connection is in exactly one place: in the pool, with one call, or closed.
\<close>

definition conn_ok :: "nat option list \<Rightarrow> (nat \<Rightarrow> nat option) \<Rightarrow> nat set \<Rightarrow> nat set \<Rightarrow> bool" where
  "conn_ok q h opened closed \<longleftrightarrow>
     None \<notin> set q \<and> distinct q \<and> (\<forall>i j c. h i = Some c \<and> h j = Some c \<longrightarrow> i = j) \<and>
     (\<forall>i c. h i = Some c \<longrightarrow> Some c \<notin> set q \<and> c \<notin> closed) \<and> (\<forall>c \<in> closed. Some c \<notin> set q) \<and>
     opened = {c. Some c \<in> set q} \<union> {c. \<exists>i. h i = Some c} \<union> closed"

definition provider_inv :: "bstate \<Rightarrow> bool" where
  "provider_inv s \<longleftrightarrow> length (p_conns (b_pool s)) \<le> p_capacity (b_pool s) \<and> p_capacity (b_pool s) = 32 \<and>
     conn_ok (p_conns (b_pool s)) (\<lambda>i. holds (b_calls s i)) (b_opened s) (b_closed s)"

lemma conn_ok_take: "conn_ok (Some c # q) h op cl \<Longrightarrow> h i = None \<Longrightarrow> conn_ok q (h(i := Some c)) op cl"
  unfolding conn_ok_def by (auto split: if_splits) (metis option.distinct(1))

lemma conn_ok_dial: "conn_ok q h op cl \<Longrightarrow> h i = None \<Longrightarrow> c \<notin> op \<Longrightarrow> conn_ok q (h(i := Some c)) (insert c op) cl"
  unfolding conn_ok_def by (auto split: if_splits) (metis option.distinct(1))

lemma conn_ok_dial_closed: "conn_ok q h op cl \<Longrightarrow> c \<notin> op \<Longrightarrow> conn_ok q h (insert c op) (insert c cl)"
  unfolding conn_ok_def by auto

lemma conn_ok_put: "conn_ok q h op cl \<Longrightarrow> h i = Some c \<Longrightarrow> conn_ok (q @ [Some c]) (h(i := None)) op cl"
  unfolding conn_ok_def by (auto split: if_splits) (metis option.inject)

lemma conn_ok_close: "conn_ok q h op cl \<Longrightarrow> h i = Some c \<Longrightarrow> conn_ok q (h(i := None)) op (insert c cl)"
  unfolding conn_ok_def by (auto split: if_splits) (metis option.inject)

lemma provider_upd [simp]:
  "b_calls (set_call s i pc) = (b_calls s)(i := pc)" "b_pool (set_call s i pc) = b_pool s"
  "b_opened (set_call s i pc) = b_opened s" "b_closed (set_call s i pc) = b_closed s"
  "b_calls (close_conn s c) = b_calls s" "b_pool (close_conn s c) = b_pool s" "b_opened (close_conn s c) = b_opened s"
  "b_closed (close_conn s c) = (case c of None \<Rightarrow> b_closed s | Some c \<Rightarrow> insert c (b_closed s))"
  by (simp_all add: set_call_def close_conn_def split: option.splits)

lemma holds_upd: "(\<lambda>j. holds ((f(i := pc)) j)) = (\<lambda>j. holds (f j))(i := holds pc)"
  by auto

lemma holds_next [simp]: "holds (use_next k c res) = Some c" "holds (ping_next k c err sshErr) = Some c"
  by (simp_all add: use_next_def ping_next_def split: sum.splits call.splits)

lemma provider_same:
  assumes "provider_inv s" "holds pc = holds (b_calls s i)"
  shows "provider_inv (set_call s i pc)"
proof -
  have "(\<lambda>j. holds (b_calls s j))(i := holds pc) = (\<lambda>j. holds (b_calls s j))"
    using assms(2) by auto
  then show ?thesis
    using assms(1) by (simp add: provider_inv_def holds_upd del: fun_upd_apply)
qed

lemma provider_inv_step: "provider_step N s s' \<Longrightarrow> provider_inv s \<Longrightarrow> provider_inv s'"
proof (induction rule: provider_step.induct)
  case (get_pooled s i k d r p)
  then obtain c q where q: "p_conns (b_pool s) = Some c # q" "r = Inr c" "p = (b_pool s)\<lparr>p_conns := q\<rparr>"
    by (cases "p_conns (b_pool s)"; cases "hd (p_conns (b_pool s))") (auto simp: pool_Get_def provider_inv_def conn_ok_def)
  then show ?case
    using get_pooled conn_ok_take [of c q "\<lambda>j. holds (b_calls s j)" "b_opened s" "b_closed s" i]
    by (simp add: provider_inv_def holds_upd del: fun_upd_apply)
next
  case (get_new s i k dial e c session r closed r' p)
  have p: "r' = r" "p = b_pool s"
    using get_new(2,5) by (simp_all add: pool_Get_def)
  show ?case
  proof (cases "dial = Inl e")
    case True
    then have "r = Inl (Errorf ''failed to connect to remote server %s'' [FErr e])" "closed = None"
      using get_new(4) by (simp_all add: newConn_def)
    then show ?thesis
      using get_new(1,6) p True by (simp add: provider_inv_def holds_upd fun_upd_idem del: fun_upd_apply)
  next
    case False
    then have d: "dial = Inr c" "c \<notin> b_opened s"
      using get_new(3) by auto
    show ?thesis
      using get_new(1,4,6) p d conn_ok_dial [of "p_conns (b_pool s)" "\<lambda>j. holds (b_calls s j)" "b_opened s" "b_closed s" i c]
        conn_ok_dial_closed [of "p_conns (b_pool s)" "\<lambda>j. holds (b_calls s j)" "b_opened s" "b_closed s" c]
      by (auto simp: newConn_def provider_inv_def holds_upd fun_upd_idem simp del: fun_upd_apply split: option.splits)
  qed
next
  case (put s i k c res closed p)
  then show ?case
    using conn_ok_put [of "p_conns (b_pool s)" "\<lambda>j. holds (b_calls s j)" "b_opened s" "b_closed s" i c]
      conn_ok_close [of "p_conns (b_pool s)" "\<lambda>j. holds (b_calls s j)" "b_opened s" "b_closed s" i c]
    by (auto simp: pool_Put_def provider_inv_def holds_upd simp del: fun_upd_apply split: if_splits)
next
  case (close s i k c res)
  then show ?case
    using conn_ok_close [of "p_conns (b_pool s)" "\<lambda>j. holds (b_calls s j)" "b_opened s" "b_closed s" i c]
    by (simp add: provider_inv_def holds_upd del: fun_upd_apply)
qed (simp_all add: provider_same)

lemma provider_reachable_inv: "provider_reachable N s \<Longrightarrow> provider_inv s"
  by (induction rule: provider_reachable.induct)
    (auto simp: provider_inv_step, simp add: provider_inv_def NewProvider_def newPool_def conn_ok_def)

text \<open>
  C19: the promise of \<^verbatim>\<open>Provider\<close>: no two concurrent calls share a connection. A connection
  that a call holds is neither in the pool nor closed; the pool has at most 32 connections, each
  once, and every one of them was opened and has not been closed; and no connection is leaked: every
  one that was opened is held, pooled or closed.
\<close>

theorem no_shared_connection:
  assumes "provider_reachable N s"
  shows "(i \<noteq> j \<and> holds (b_calls s i) = Some c \<longrightarrow> holds (b_calls s j) \<noteq> Some c) \<and>
    (holds (b_calls s i) = Some c \<longrightarrow> Some c \<notin> set (p_conns (b_pool s)) \<and> c \<notin> b_closed s) \<and>
    (Some c \<in> set (p_conns (b_pool s)) \<longrightarrow> c \<in> b_opened s \<and> c \<notin> b_closed s) \<and>
    None \<notin> set (p_conns (b_pool s)) \<and> distinct (p_conns (b_pool s)) \<and> length (p_conns (b_pool s)) \<le> 32 \<and>
    (c \<in> b_opened s \<longleftrightarrow> Some c \<in> set (p_conns (b_pool s)) \<or> (\<exists>n. holds (b_calls s n) = Some c) \<or> c \<in> b_closed s)"
  using provider_reachable_inv [OF assms] unfolding provider_inv_def conn_ok_def by auto

text \<open>A call that dials its connection.\<close>

definition "prov1 = set_call NewProvider 0 (PGet (CallStat ''a''))"
definition "prov2 = set_call (prov1\<lparr>b_opened := {7}\<rparr>) 0 (PUse (CallStat ''a'') 7)"

lemma prov2_reachable: "provider_reachable N prov2"
proof -
  have "provider_step N NewProvider prov1"
    unfolding prov1_def by (rule start_call) (simp add: NewProvider_def)
  moreover have "provider_step N prov1 prov2"
    using get_new [of prov1 0 "CallStat ''a''" "Inr 7" undefined 7 None "Inr 7" None "Inr 7" "newPool 32"]
    by (simp add: prov1_def prov2_def NewProvider_def newPool_def newConn_def pool_Get_def close_conn_def set_call_def)
  ultimately show ?thesis
    using provider_start provider_run by blast
qed

theorem no_shared_connection_witness: "holds (b_calls prov2 0) = Some 7 \<and> 7 \<notin> b_closed prov2"
  using no_shared_connection [OF prov2_reachable, of 0 1 7] by (simp add: prov2_def)

section \<open>Every call gets the answer to its own request\<close>

text \<open>The errors of a dial and of the session on top of it.\<close>

definition conn_error :: "goerr \<Rightarrow> bool" where
  "conn_error e \<longleftrightarrow> (\<exists>d. e = Errorf ''failed to connect to remote server %s'' [FErr d] \<or>
     e = Errorf ''could not open sftp session to remote %s'' [FErr d])"

text \<open>The outcomes of a request that the network allows.\<close>

fun net_answer :: "network \<Rightarrow> call \<Rightarrow> goerr + answer \<Rightarrow> bool" where
  "net_answer N (CallReadFile path) (Inl e) = (conn_error e \<or> n_open N path (Some e) \<or> n_open N path None \<and> n_read N path (Inl e))"
| "net_answer N (CallReadFile path) (Inr a) = (\<exists>b. a = AFile b \<and> n_open N path None \<and> n_read N path (Inr b))"
| "net_answer N (CallReadDir path) (Inl e) = (conn_error e \<or> n_dir N path (Inl e))"
| "net_answer N (CallReadDir path) (Inr a) = (\<exists>l. a = ADir l \<and> n_dir N path (Inr l))"
| "net_answer N (CallStat path) (Inl e) = (conn_error e \<or> n_stat N path (Inl e))"
| "net_answer N (CallStat path) (Inr a) = (\<exists>i. a = AStat i \<and> n_stat N path (Inr i))"

fun ppc_ok :: "network \<Rightarrow> ppc \<Rightarrow> bool" where
  "ppc_ok N (PRead path c) = n_open N path None"
| "ppc_ok N (PPing k c e) = net_answer N k (Inl e)"
| "ppc_ok N (PPut k c r) = net_answer N k r"
| "ppc_ok N (PClose k c r) = net_answer N k r"
| "ppc_ok N (PDone k r) = net_answer N k r"
| "ppc_ok N _ = True"

lemma net_answer_conn: "conn_error e \<Longrightarrow> net_answer N k (Inl e)"
  by (cases k) simp_all

lemma eq_map_sum:
  "Inl e = map_sum id f r \<longleftrightarrow> r = Inl e" "Inr b = map_sum id f r \<longleftrightarrow> (\<exists>x. r = Inr x \<and> b = f x)"
  by (cases r; auto)+

lemma use_next_ok: "first_answer N k res \<Longrightarrow> ppc_ok N (use_next k c res)"
  by (cases k; cases res) (auto simp: first_answer_def use_next_def eq_map_sum split: option.splits sum.splits)

lemma read_ok: "n_open N path None \<Longrightarrow> n_read N path res \<Longrightarrow> net_answer N (CallReadFile path) (map_sum id AFile res)"
  by (cases res) simp_all

lemma provider_step_ok:
  assumes "provider_step N s s'" and "provider_inv s" and "\<And>i. ppc_ok N (b_calls s i)"
  shows "ppc_ok N (b_calls s' i)"
  using assms(1)
proof cases
  case (get_pooled j k d r p)
  then obtain c q where "p_conns (b_pool s) = Some c # q" "r = Inr c"
    using assms(2) by (cases "p_conns (b_pool s)"; cases "hd (p_conns (b_pool s))") (auto simp: pool_Get_def provider_inv_def conn_ok_def)
  then show ?thesis
    using get_pooled(1) assms(3) by simp
next
  case (get_new j k dial e c session r closed r' p)
  have "r' = r"
    using get_new(3,6) by (simp add: pool_Get_def)
  moreover have "conn_error e'" if "r = Inl e'" for e'
    using get_new(5) that by (auto simp: newConn_def conn_error_def split: sum.splits option.splits)
  ultimately have "ppc_ok N (case r' of Inl e \<Rightarrow> PDone k (Inl e) | Inr c \<Rightarrow> PUse k c)"
    by (auto simp: net_answer_conn split: sum.splits)
  then show ?thesis
    using get_new(1) assms(3) by simp
next
  case (read j path c res)
  then show ?thesis
    using assms(3) [of j] assms(3) [of i] read_ok by simp
next
  case (use j k c res)
  then show ?thesis
    using assms(3) [of i] use_next_ok by simp
next
  case (ping j k c err sshErr)
  then show ?thesis
    using assms(3) [of j] assms(3) [of i] by (simp add: ping_next_def)
next
  case (put j k c res closed p)
  then show ?thesis
    using assms(3) [of j] assms(3) [of i] by simp
next
  case (close j k c res)
  then show ?thesis
    using assms(3) [of j] assms(3) [of i] by simp
qed (use assms(3) in simp)

lemma provider_reachable_ok: "provider_reachable N s \<Longrightarrow> ppc_ok N (b_calls s i)"
proof (induction arbitrary: i rule: provider_reachable.induct)
  case provider_start
  then show ?case
    by (simp add: NewProvider_def)
next
  case (provider_run s s')
  then show ?case
    using provider_step_ok provider_reachable_inv by blast
qed

text \<open>A network that answers everything, and how many steps a call may still take.\<close>

definition net_total :: "network \<Rightarrow> bool" where
  "net_total N \<longleftrightarrow> (\<forall>p. (\<exists>e. n_open N p e) \<and> (\<exists>r. n_read N p r) \<and> (\<exists>r. n_dir N p r) \<and> (\<exists>r. n_stat N p r))"

fun ppc_rank :: "ppc \<Rightarrow> nat" where
  "ppc_rank (PGet k) = 4"
| "ppc_rank (PUse k c) = 3"
| "ppc_rank (PRead path c) = 2"
| "ppc_rank (PPing k c e) = 2"
| "ppc_rank (PPut k c r) = 1"
| "ppc_rank (PClose k c r) = 1"
| "ppc_rank _ = 0"

lemma first_answer_total: "net_total N \<Longrightarrow> \<exists>res. first_answer N k res"
proof (cases k)
  case (CallReadFile path)
  assume "net_total N"
  then obtain e where "n_open N path e"
    unfolding net_total_def by blast
  then show ?thesis
    unfolding CallReadFile first_answer_def call.case by blast
next
  case (CallReadDir path)
  assume "net_total N"
  then show ?thesis
    unfolding CallReadDir first_answer_def call.case net_total_def by blast
next
  case (CallStat path)
  assume "net_total N"
  then show ?thesis
    unfolding CallStat first_answer_def call.case net_total_def by blast
qed

lemma call_goes_on:
  assumes N: "net_total N" and pc: "b_calls s i \<noteq> PIdle" "\<nexists>k r. b_calls s i = PDone k r"
  shows "\<exists>s'. provider_step N s s' \<and> ppc_rank (b_calls s' i) < ppc_rank (b_calls s i) \<and> (\<forall>j. j \<noteq> i \<longrightarrow> b_calls s' j = b_calls s j)"
proof (cases "b_calls s i")
  case (PGet k)
  show ?thesis
  proof (cases "p_conns (b_pool s) = []")
    case True
    then show ?thesis
      using get_new [OF PGet, of "Inl undefined" undefined undefined undefined _ _ _ _ N] PGet by (fastforce simp: newConn_def pool_Get_def)
  next
    case False
    obtain r p where "pool_Get (b_pool s) undefined = (r, p)"
      by (cases "pool_Get (b_pool s) undefined")
    then show ?thesis
      using get_pooled [OF PGet False, of undefined r p N] PGet by (auto split: sum.splits)
  qed
next
  case (PUse k c)
  obtain res where "first_answer N k res"
    using first_answer_total [OF N] by blast
  then show ?thesis
    using use [OF PUse] PUse by (fastforce simp: use_next_def split: sum.splits call.splits)
next
  case (PRead path c)
  then show ?thesis
    using N read [OF PRead] by (fastforce simp: net_total_def)
next
  case (PPing k c e)
  then show ?thesis
    using ping [OF PPing, of N None] by (fastforce simp: ping_next_def)
next
  case (PPut k c r)
  obtain closed p where "pool_Put (b_pool s) (Some c) = (closed, p)"
    by (cases "pool_Put (b_pool s) (Some c)")
  then show ?thesis
    using put [OF PPut] PPut by fastforce
next
  case (PClose k c r)
  then show ?thesis
    using close [OF PClose] by fastforce
qed (use pc in auto)

text \<open>The request that a call was started with.\<close>

fun ppc_call :: "ppc \<Rightarrow> call option" where
  "ppc_call PIdle = None"
| "ppc_call (PGet k) = Some k"
| "ppc_call (PUse k c) = Some k"
| "ppc_call (PRead path c) = Some (CallReadFile path)"
| "ppc_call (PPing k c e) = Some k"
| "ppc_call (PPut k c r) = Some k"
| "ppc_call (PClose k c r) = Some k"
| "ppc_call (PDone k r) = Some k"

lemma ppc_call_next [simp]: "ppc_call (use_next k c res) = Some k" "ppc_call (ping_next k c e sshErr) = Some k"
  by (simp_all add: use_next_def ping_next_def split: sum.splits call.splits)

lemma ppc_call_step: "provider_step N s s' \<Longrightarrow> ppc_call (b_calls s i) = Some k \<Longrightarrow> ppc_call (b_calls s' i) = Some k"
  by (induction rule: provider_step.induct) (auto split: sum.splits)

lemma ppc_call_steps: "(provider_step N)\<^sup>*\<^sup>* s s' \<Longrightarrow> ppc_call (b_calls s i) = Some k \<Longrightarrow> ppc_call (b_calls s' i) = Some k"
  by (induction rule: rtranclp_induct) (auto intro: ppc_call_step)

lemma provider_steps: "(provider_step N)\<^sup>*\<^sup>* s s' \<Longrightarrow> provider_reachable N s \<Longrightarrow> provider_reachable N s'"
  by (induction rule: rtranclp_induct) (auto intro: provider_run)

lemma call_returns:
  "net_total N \<Longrightarrow> ppc_call (b_calls s i) = Some k \<Longrightarrow> \<exists>s' res. (provider_step N)\<^sup>*\<^sup>* s s' \<and> b_calls s' i = PDone k res"
proof (induction "ppc_rank (b_calls s i)" arbitrary: s rule: less_induct)
  case less
  show ?case
  proof (cases "\<exists>k' r. b_calls s i = PDone k' r")
    case True
    then show ?thesis
      using less.prems(2) by fastforce
  next
    case False
    moreover have "b_calls s i \<noteq> PIdle"
      using less.prems(2) by auto
    ultimately obtain s1 where s1: "provider_step N s s1" "ppc_rank (b_calls s1 i) < ppc_rank (b_calls s i)"
      using call_goes_on [OF less.prems(1)] by blast
    then show ?thesis
      using less.hyps [OF s1(2) less.prems(1) ppc_call_step [OF s1(1) less.prems(2)]] by (meson converse_rtranclp_into_rtranclp)
  qed
qed

text \<open>
  C20: every call on the pool gets an answer of the network to its own request, over a connection of its own,
  whatever other calls do at the same time: once it has returned, its result is an error of the
  connection's set-up, or an error or the value that the server gave for the path it was called with; and if the
  network answers, a call can always go on to its return.
\<close>

theorem calls_answered:
  assumes "provider_reachable N s" and "ppc_call (b_calls s i) = Some k"
  shows "(\<forall>s' k' res. (provider_step N)\<^sup>*\<^sup>* s s' \<and> b_calls s' i = PDone k' res \<longrightarrow> k' = k \<and> net_answer N k res) \<and>
    (net_total N \<longrightarrow> (\<exists>s' res. (provider_step N)\<^sup>*\<^sup>* s s' \<and> b_calls s' i = PDone k res))"
proof (intro conjI allI impI)
  fix s' k' res
  assume run: "(provider_step N)\<^sup>*\<^sup>* s s' \<and> b_calls s' i = PDone k' res"
  have "k' = k"
    using ppc_call_steps [OF conjunct1 [OF run] assms(2)] run by simp
  moreover have "ppc_ok N (b_calls s' i)"
    using provider_reachable_ok provider_steps [OF conjunct1 [OF run] assms(1)] by blast
  ultimately show "k' = k" "net_answer N k res"
    using run by simp_all
qed (rule call_returns [OF _ assms(2)])

definition demo_net :: network where
  "demo_net = \<lparr>n_open = (\<lambda>_ e. e = None), n_read = (\<lambda>_ r. r = Inr [1]), n_dir = (\<lambda>_ r. r = Inr []), n_stat = (\<lambda>_ r. r = Inl IoEOF)\<rparr>"

theorem calls_answered_witness:
  "\<exists>s' e. (provider_step demo_net)\<^sup>*\<^sup>* prov2 s' \<and> b_calls s' 0 = PDone (CallStat ''a'') (Inl e) \<and>
     (conn_error e \<or> e = IoEOF)"
proof -
  have call: "ppc_call (b_calls prov2 0) = Some (CallStat ''a'')"
    by (simp add: prov2_def)
  have "net_total demo_net"
    by (simp add: net_total_def demo_net_def)
  note result = calls_answered [OF prov2_reachable call]
  obtain s' res where s': "(provider_step demo_net)\<^sup>*\<^sup>* prov2 s'" "b_calls s' 0 = PDone (CallStat ''a'') res"
    using result \<open>net_total demo_net\<close> by blast
  then have "net_answer demo_net (CallStat ''a'') res"
    using result by blast
  then show ?thesis
    using s' by (cases res) (auto simp: demo_net_def)
qed

section \<open>What the calls can return\<close>

definition provider_returns :: "network \<Rightarrow> call \<Rightarrow> goerr + answer \<Rightarrow> bool" where
  "provider_returns N k res \<longleftrightarrow> (\<exists>s i. provider_reachable N s \<and> b_calls s i = PDone k res)"

lemma provider_returns_answer: "provider_returns N k res \<Longrightarrow> net_answer N k res"
  using provider_reachable_ok unfolding provider_returns_def by (metis ppc_ok.simps(5))

lemma use_reachable: "\<exists>s. provider_reachable N s \<and> b_calls s 0 = PUse k 7"
proof -
  let ?s1 = "set_call NewProvider 0 (PGet k)"
  have "provider_step N NewProvider ?s1"
    by (rule start_call) (simp add: NewProvider_def)
  moreover have "provider_step N ?s1 (set_call (?s1\<lparr>b_opened := {7}\<rparr>) 0 (PUse k 7))"
    using get_new [of ?s1 0 k "Inr 7" undefined 7 None "Inr 7" None "Inr 7" "newPool 32" N]
    by (simp add: NewProvider_def newPool_def newConn_def pool_Get_def close_conn_def set_call_def)
  ultimately have "provider_reachable N (set_call (?s1\<lparr>b_opened := {7}\<rparr>) 0 (PUse k 7))"
    using provider_start provider_run by blast
  then show ?thesis
    by (intro exI [of _ "set_call (?s1\<lparr>b_opened := {7}\<rparr>) 0 (PUse k 7)"]) simp
qed

lemma returns_put:
  assumes "provider_reachable N s" and "b_calls s i = PPut k c res"
  shows "provider_returns N k res"
proof -
  obtain closed p where "pool_Put (b_pool s) (Some c) = (closed, p)"
    by (cases "pool_Put (b_pool s) (Some c)")
  from provider_run [OF assms(1) put [OF assms(2) this]] show ?thesis
    unfolding provider_returns_def by (metis fun_upd_same provider_upd(1))
qed

lemma returns_first:
  assumes "first_answer N k res"
  shows "case res of Inl e \<Rightarrow> provider_returns N k res
    | Inr a \<Rightarrow> (case k of CallReadFile path \<Rightarrow> \<forall>r. n_read N path r \<longrightarrow> provider_returns N k (map_sum id AFile r) | _ \<Rightarrow> provider_returns N k res)"
proof -
  obtain s where s: "provider_reachable N s" "b_calls s 0 = PUse k 7"
    using use_reachable by blast
  define s1 where "s1 = set_call s 0 (use_next k 7 res)"
  have s1: "provider_reachable N s1" "b_calls s1 0 = use_next k 7 res"
    using provider_run [OF s(1) use [OF s(2) assms]] by (simp_all add: s1_def)
  show ?thesis
  proof (cases res)
    case (Inl e)
    then have "b_calls s1 0 = PPing k 7 e"
      using s1(2) by (simp add: use_next_def)
    from provider_run [OF s1(1) ping [OF this, of N None]] have "provider_returns N k (Inl e)"
      by (rule returns_put [where i = 0 and c = 7]) (simp add: ping_next_def)
    then show ?thesis
      using Inl by simp
  next
    case (Inr a)
    show ?thesis
    proof (cases "\<exists>path. k = CallReadFile path")
      case True
      then obtain path where k: "k = CallReadFile path"
        by blast
      have "b_calls s1 0 = PRead path 7"
        using s1(2) Inr k by (simp add: use_next_def)
      then have "provider_returns N k (map_sum id AFile r)" if "n_read N path r" for r
        using provider_run [OF s1(1) read [OF _ that]] returns_put [where i = 0 and c = 7] k by (metis fun_upd_same provider_upd(1))
      then show ?thesis
        using Inr k by simp
    next
      case False
      then have "b_calls s1 0 = PPut k 7 (Inr a)"
        using s1(2) Inr by (cases k) (simp_all add: use_next_def)
      then have "provider_returns N k (Inr a)"
        by (rule returns_put [OF s1(1)])
      then show ?thesis
        using Inr False by (cases k) simp_all
    qed
  qed
qed

end
