(* ===== verification/Provided.thy ===== *)
theory Provided
  imports Vault Backend
begin

text \<open>
  The backend under the system of concurrent requests: the relation between requests and answers that
  \<open>TreeSystem\<close> takes for the backend is here what calls of \<^verbatim>\<open>backend.Provider\<close> return (\<open>Backend\<close>),
  for files and listings through the workers of the requester and for \<^verbatim>\<open>Stat\<close> directly. What is left to assume
  is the network: what the server sends for a path is what its directory holds there.
\<close>

text \<open>
  The request functions of the worker; names are decrypted as the store says, or with a panic. The nil result of a call that failed is an empty reply. A work without
  a type, which no request has (\<open>new_call\<close>), calls nothing; its case only makes the relation total.
\<close>

definition provided_answers :: "network \<Rightarrow> store \<Rightarrow> work \<Rightarrow> reply \<Rightarrow> goerr option \<Rightarrow> bool" where
  "provided_answers N S w r err \<longleftrightarrow>
     (case requestType w of
        workReadFile \<Rightarrow>
          (\<exists>e. provider_returns N (CallReadFile (arg1 w)) (Inl e) \<and> r = RFile [] \<and> err = Some e) \<or>
          (\<exists>b. provider_returns N (CallReadFile (arg1 w)) (Inr (AFile b)) \<and> r = RFile b \<and> err = None)
      | workReadDir \<Rightarrow>
          (\<exists>e. provider_returns N (CallReadDir (arg1 w)) (Inl e) \<and> r = RDir [] \<and> err = Some e) \<or>
          (\<exists>l. provider_returns N (CallReadDir (arg1 w)) (Inr (ADir l)) \<and> r = RDir l \<and> err = None)
      | workDecryptName \<Rightarrow>
          st_panics S (arg1 w) (arg2 w) = None \<and>
          (case st_DecryptName S (arg1 w) (arg2 w) of Inl e \<Rightarrow> r = RName [] \<and> err = Some e | Inr n \<Rightarrow> r = RName n \<and> err = None)
      | workNone \<Rightarrow> r = RName [] \<and> err = Some IoEOF)"

definition provided_stat :: "network \<Rightarrow> string \<Rightarrow> goerr + FileInfo \<Rightarrow> bool" where
  "provided_stat N path r \<longleftrightarrow> provider_returns N (CallStat path) (map_sum id AStat r)"

text \<open>The server's network: errors may happen at any time, but what it sends is what is stored.\<close>

definition net_truthful :: "network \<Rightarrow> store \<Rightarrow> bool" where
  "net_truthful N S \<longleftrightarrow>
     (\<forall>p b. n_open N p None \<and> n_read N p (Inr b) \<longrightarrow> file_data S p b) \<and>
     (\<forall>p l. n_dir N p (Inr l) \<longrightarrow> st_ReadDir S p = Inr l) \<and>
     (\<forall>p i. n_stat N p (Inr i) \<longrightarrow> st_Stat S p = Inr i)"

definition over_network :: "network \<Rightarrow> store \<Rightarrow> sysenv \<Rightarrow> bool" where
  "over_network N S Y \<longleftrightarrow> env_answers (y_requester Y) = provided_answers N S \<and>
     env_panics (y_requester Y) = store_panics S \<and> y_stat Y = provided_stat N"

lemma over_network_truthful:
  assumes "over_network N S Y" and "net_truthful N S"
  shows "truthful Y S"
  unfolding truthful_def
proof (intro conjI allI impI)
  have E: "env_answers (y_requester Y) = provided_answers N S" and F: "env_panics (y_requester Y) = store_panics S"
    and Y: "y_stat Y = provided_stat N"
    using assms(1) by (simp_all add: over_network_def)
  show "typed_answers (y_requester Y)"
    unfolding typed_answers_def E by (auto simp: provided_answers_def split: workType.splits sum.split_asm)
  show "reply_true S w r" if "env_answers (y_requester Y) w r err \<and> reply_data r \<noteq> None" for w r err
    using that assms(2) unfolding E
    by (auto simp: provided_answers_def reply_true_def reply_data_def net_truthful_def
        dest!: provider_returns_answer split: workType.splits sum.splits)
  show "requestType w = workDecryptName" "st_panics S (arg1 w) (arg2 w) = Some f" if "env_panics (y_requester Y) w = Some f" for w f
    using that unfolding F by (simp_all add: store_panics_def split: if_splits)
  show "st_Stat S p = Inr i" if "y_stat Y p (Inr i)" for p i
    using that assms(2) unfolding Y by (auto simp: provided_stat_def net_truthful_def dest!: provider_returns_answer)
qed

text \<open>A network that answers everything gives a backend that answers everything, so that requests finish.\<close>

lemma provider_total: "net_total N \<Longrightarrow> \<exists>res. provider_returns N k res"
proof -
  assume N: "net_total N"
  obtain s where s: "provider_reachable N s" "b_calls s 0 = PUse k 7"
    using use_reachable by blast
  then show ?thesis
    using call_returns [OF N, of s 0 k] provider_steps unfolding provider_returns_def by fastforce
qed

lemma over_network_answers:
  assumes "over_network N S Y" and "net_total N"
  shows "backend_answers Y"
proof -
  have "(\<exists>r err. provided_answers N S w r err) \<or> store_panics S w \<noteq> None" for w
  proof (cases "requestType w")
    case workReadFile
    obtain res where res: "provider_returns N (CallReadFile (arg1 w)) res"
      using provider_total [OF assms(2)] by blast
    then show ?thesis
      using workReadFile provider_returns_answer [OF res] by (cases res) (auto simp: provided_answers_def)
  next
    case workReadDir
    obtain res where res: "provider_returns N (CallReadDir (arg1 w)) res"
      using provider_total [OF assms(2)] by blast
    then show ?thesis
      using workReadDir provider_returns_answer [OF res] by (cases res) (auto simp: provided_answers_def)
  next
    case workDecryptName
    then show ?thesis
      by (cases "st_DecryptName S (arg1 w) (arg2 w)") (auto simp: provided_answers_def store_panics_def)
  qed (auto simp: provided_answers_def)
  moreover have "\<exists>r. provided_stat N p r" for p
  proof -
    obtain res where res: "provider_returns N (CallStat p) res"
      using provider_total [OF assms(2)] by blast
    then consider e where "res = map_sum id AStat (Inl e)" | i where "res = map_sum id AStat (Inr i)"
      using provider_returns_answer [OF res] by (cases res) auto
    then show ?thesis
      using res unfolding provided_stat_def by cases blast+
  qed
  ultimately show ?thesis
    using assms(1) by (simp add: backend_answers_def over_network_def)
qed

section \<open>A server over a network\<close>

text \<open>The network of a store that never fails by itself.\<close>

definition store_net :: "store \<Rightarrow> network" where
  "store_net S = \<lparr>n_open = (\<lambda>p e. e = (case st_ReadFile S p of Inl e \<Rightarrow> Some e | Inr _ \<Rightarrow> None)),
     n_read = (\<lambda>p r. r = map_sum id sdata (st_ReadFile S p)),
     n_dir = (\<lambda>p r. r = st_ReadDir S p), n_stat = (\<lambda>p r. r = st_Stat S p)\<rparr>"

definition net_env :: "prims \<Rightarrow> store \<Rightarrow> (u64 \<Rightarrow> u64 \<Rightarrow> bytes \<Rightarrow> u64) \<Rightarrow> nat \<Rightarrow> (nat \<Rightarrow> sftp_op) \<Rightarrow> sysenv" where
  "net_env P S hash n ops = \<lparr>y_prims = P,
     y_requester = \<lparr>env_workers = n, env_siphash = hash, env_request = numbered_request S,
       env_answers = provided_answers (store_net S) S, env_panics = store_panics S\<rparr>,
     y_stat = provided_stat (store_net S), y_ops = ops\<rparr>"

lemma net_env_simps [simp]:
  "y_prims (net_env P S hash n ops) = P" "y_ops (net_env P S hash n ops) = ops" "env_workers (y_requester (net_env P S hash n ops)) = n"
  by (simp_all add: net_env_def)

lemma net_env_over: "over_network (store_net S) S (net_env P S hash n ops)"
  by (simp add: over_network_def net_env_def)

lemma store_net_truthful: "net_truthful (store_net S) S"
  by (auto simp: net_truthful_def store_net_def file_data_def eq_map_sum split: sum.splits)

lemma store_net_total: "net_total (store_net S)"
  by (simp add: net_total_def store_net_def)

lemma net_env_supply: "call_supply (net_env P S hash n ops) S"
  by (simp add: call_supply_def net_env_def numbered_request_legal numbered_request_supply)

lemma store_net_returns:
  "provider_returns (store_net S) (CallReadFile p) (map_sum id (AFile \<circ> sdata) (st_ReadFile S p))"
  "provider_returns (store_net S) (CallReadDir p) (map_sum id ADir (st_ReadDir S p))"
  "provider_returns (store_net S) (CallStat p) (map_sum id AStat (st_Stat S p))"
proof -
  let ?N = "store_net S"
  show "provider_returns ?N (CallReadFile p) (map_sum id (AFile \<circ> sdata) (st_ReadFile S p))"
  proof (cases "st_ReadFile S p")
    case (Inl e)
    then show ?thesis
      using returns_first [of ?N "CallReadFile p" "Inl e"] by (simp add: first_answer_def store_net_def)
  next
    case (Inr f)
    then have "first_answer ?N (CallReadFile p) (Inr (AFile []))" "n_read ?N p (Inr (sdata f))"
      by (simp_all add: first_answer_def store_net_def)
    then show ?thesis
      using returns_first [of ?N "CallReadFile p" "Inr (AFile [])"] Inr by force
  qed
  have "first_answer ?N (CallReadDir p) (map_sum id ADir (st_ReadDir S p))"
    "first_answer ?N (CallStat p) (map_sum id AStat (st_Stat S p))"
    by (simp_all add: first_answer_def store_net_def)
  from this [THEN returns_first]
  show "provider_returns ?N (CallReadDir p) (map_sum id ADir (st_ReadDir S p))" "provider_returns ?N (CallStat p) (map_sum id AStat (st_Stat S p))"
    by (simp_all split: sum.splits)
qed

lemma net_env_realised:
  assumes "no_empty S"
  shows "realised (net_env P S hash n ops) (store_access S)"
proof -
  note R = store_net_returns [of S]
  have "answers_as (st_ReadFile S p) (RFile \<circ> sdata) id (y_requester (net_env P S hash n ops)) \<lparr>requestType = workReadFile, arg1 = p, arg2 = []\<rparr>" for p
    using R(1) [of p] assms
    by (cases "st_ReadFile S p") (auto simp: answers_as_def net_env_def provided_answers_def reply_data_def no_empty_def)
  moreover have "answers_as (st_ReadDir S p) RDir id (y_requester (net_env P S hash n ops)) \<lparr>requestType = workReadDir, arg1 = p, arg2 = []\<rparr>" for p
    using R(2) [of p] assms
    by (cases "st_ReadDir S p") (auto simp: answers_as_def net_env_def provided_answers_def reply_data_def no_empty_def)
  moreover have "answers_as (st_DecryptName S m iv) RName id (y_requester (net_env P S hash n ops)) \<lparr>requestType = workDecryptName, arg1 = m, arg2 = iv\<rparr>"
    if "st_panics S m iv = None" for m iv
    using assms that by (auto simp: answers_as_def net_env_def provided_answers_def reply_data_def no_empty_def split: sum.split)
  moreover have "y_stat (net_env P S hash n ops) p (st_Stat S p)" for p
    using R(3) by (simp add: net_env_def provided_stat_def)
  ultimately show ?thesis
    by (simp add: realised_def store_access_def split: option.split)
qed

lemma net_env_served:
  assumes "served_by (store_env P S hash n ops) S"
  shows "served_by (net_env P S hash n ops) S"
  using assms over_network_truthful [OF net_env_over store_net_truthful, of P S hash n ops] net_env_supply [of P S hash n ops]
  by (simp add: served_by_def ivs_hashed_apart_def net_env_def store_env_def)

text \<open>The small plaintext tree of \<open>Vault\<close>, served over a network by a provider with its pool of connections.\<close>

lemma net_vault_gets:
  assumes "tree_inv (vault_store nt c f) (\<lambda>_. True) ''/c'' cc t ()" "core_aead P cc" "\<And>iv. length iv = 16 \<Longrightarrow> eme_ok (emeCipher nt) iv"
    and "EncryptName nt ''f'' (replicate 16 0) = Inr c" "stored_file P cc f b" "sdata f \<noteq> []" "length (sdata f) < 2 ^ 62"
  obtains y where "reached (net_env P (vault_store nt c f) (lone_hash f) 1 (\<lambda>_. lone_get)) False t y" "y_threads y 0 = TDone (Inr (VFile b))"
  by (rule vault_gets_in [OF assms net_env_served [OF vault_served(1) [OF assms(6,3)]] net_env_realised [OF vault_no_empty [OF assms(6)]]]) simp_all

end
