(* ===== verification/Tlog.thy ===== *)
theory Tlog
  imports Gc_Prelude
begin

text \<open>
  \<^verbatim>\<open>gocrypt/tlog/log.go\<close>: the loggers and the reminder of the master key. A logger's effect is
  the lines it writes and whether it panics. \<open>sprintf\<close> is \<^verbatim>\<open>fmt.Sprintf\<close> of a format without
  arguments, which a message goes through when the underlying logger prints it.
\<close>

record toggledLogger =
  Enabled :: bool
  Wpanic :: bool
  log_prefix :: string
  log_postfix :: string

definition wpanicMsg :: string where
  "wpanicMsg = ''-wpanic turns this warning into a panic: ''"

definition trimNewline :: "string \<Rightarrow> string" where
  "trimNewline msg =
     (if length msg = 0 then msg
      else if last msg = CHR 0x0A then butlast msg
      else msg)"

text \<open>\<^verbatim>\<open>JSONDump\<close>: the library's indented JSON, or the text of its error.\<close>

definition JSONDump :: "('a \<Rightarrow> goerr + bytes) \<Rightarrow> (goerr \<Rightarrow> string) \<Rightarrow> 'a \<Rightarrow> string" where
  "JSONDump MarshalIndent Error obj = (case MarshalIndent obj of Inl err \<Rightarrow> Error err | Inr b \<Rightarrow> of_bytes b)"

text \<open>The line that is written, if any, and the panic that follows it.\<close>

definition tlog_Printf :: "(string \<Rightarrow> string) \<Rightarrow> toggledLogger \<Rightarrow> string \<Rightarrow> string list \<times> gopanic option" where
  "tlog_Printf sprintf l formatted =
     (if \<not> Enabled l then ([], None)
      else
        let msg = trimNewline formatted in
        ([sprintf (log_prefix l @ msg @ log_postfix l)], if Wpanic l then Some (LogPanic (wpanicMsg @ msg)) else None))"

definition tlog_Println :: "toggledLogger \<Rightarrow> string \<Rightarrow> string list \<times> gopanic option" where
  "tlog_Println l formatted =
     (if \<not> Enabled l then ([], None)
      else
        let msg = trimNewline formatted in
        ([log_prefix l @ msg @ log_postfix l], if Wpanic l then Some (LogPanic (wpanicMsg @ msg)) else None))"

text \<open>The colors and the four loggers after \<^verbatim>\<open>init\<close>.\<close>

definition esc :: "string \<Rightarrow> string" where "esc s = [CHR 0x1B] @ s"

definition Color :: "bool \<Rightarrow> string \<Rightarrow> string" where
  "Color terminal s = (if terminal then esc s else [])"

definition Debug :: "bool \<Rightarrow> toggledLogger" where
  "Debug terminal = \<lparr>Enabled = False, Wpanic = False, log_prefix = [], log_postfix = []\<rparr>"

definition Info :: "bool \<Rightarrow> toggledLogger" where
  "Info terminal = \<lparr>Enabled = True, Wpanic = False, log_prefix = [], log_postfix = []\<rparr>"

definition Warn :: "bool \<Rightarrow> toggledLogger" where
  "Warn terminal =
     \<lparr>Enabled = True, Wpanic = False, log_prefix = Color terminal ''[33m'', log_postfix = Color terminal ''[0m''\<rparr>"

definition Fatal :: "bool \<Rightarrow> toggledLogger" where
  "Fatal terminal =
     \<lparr>Enabled = True, Wpanic = False, log_prefix = Color terminal ''[31m'', log_postfix = Color terminal ''[0m''\<rparr>"

section \<open>The reminder\<close>

text \<open>
  The loop over the hexadecimal key: \<open>h\<close> is the part from position \<open>i\<close> on. A last chunk of
  fewer than eight digits is a slice out of range.
\<close>

function hex_chunks :: "nat \<Rightarrow> string \<Rightarrow> string result" where
  "hex_chunks i h =
     (if h = [] then Inr []
      else if length h < 8 then Inl (Panic SliceOutOfRange)
      else case hex_chunks (i + 8) (drop 8 h) of
          Inl f \<Rightarrow> Inl f
        | Inr rest \<Rightarrow>
            Inr (take 8 h @ (if i < 52 then ''-'' else []) @ (if i = 24 then CHR 0x0A # ''    '' else []) @ rest))"
  by auto
termination
  by (relation "measure (\<lambda>(i, h). length h)") auto

declare hex_chunks.simps [simp del]

text \<open>What is printed, if it is printed at all, for the hexadecimal form of the key.\<close>

definition PrintMasterkeyReminder :: "toggledLogger \<Rightarrow> bool \<Rightarrow> string \<Rightarrow> string option result" where
  "PrintMasterkeyReminder info terminal h =
     (if \<not> Enabled info then Inr None
      else if \<not> terminal then Inr (Some ''Not running on a terminal, suppressing master key display'')
      else case hex_chunks 0 h of
          Inl f \<Rightarrow> Inl f
        | Inr hChunked \<Rightarrow> Inr (Some (Color terminal ''[2m'' @ hChunked @ Color terminal ''[0m'')))"

lemma hex_chunks_digits:
  assumes "\<forall>c \<in> set h. c \<noteq> CHR ''-'' \<and> c \<noteq> CHR 0x0A \<and> c \<noteq> CHR '' ''" "8 dvd length h"
  shows "\<exists>s. hex_chunks i h = Inr s \<and> filter (\<lambda>c. c \<noteq> CHR ''-'' \<and> c \<noteq> CHR 0x0A \<and> c \<noteq> CHR '' '') s = h"
  using assms
proof (induction i h rule: hex_chunks.induct)
  case (1 i h)
  let ?P = "\<lambda>c. c \<noteq> CHR ''-'' \<and> c \<noteq> CHR 0x0A \<and> c \<noteq> CHR '' ''"
  show ?case
  proof (cases "h = []")
    case False
    then have len: "\<not> length h < 8"
      using 1(3) by (auto dest: dvd_imp_le)
    have "8 dvd length (drop 8 h)"
      using 1(3) by simp
    moreover have "\<forall>c \<in> set (drop 8 h). ?P c"
      using 1(2) by (meson in_set_dropD)
    ultimately obtain s where s: "hex_chunks (i + 8) (drop 8 h) = Inr s" "filter ?P s = drop 8 h"
      using 1(1) [OF False len] by blast
    have "filter ?P (take 8 h) = take 8 h"
      using 1(2) by (intro filter_True) (meson in_set_takeD)
    then show ?thesis
      using False len s by (subst hex_chunks.simps) simp
  qed (simp add: hex_chunks.simps)
qed

text \<open>
  The reminder shows the whole key: for every key whose length is a multiple of four bytes, the
  digits of the printed chunks are those of the key; every other key makes it panic.
\<close>

lemma hex_chunks_panics: "\<not> 8 dvd length h \<Longrightarrow> hex_chunks i h = Inl (Panic SliceOutOfRange)"
proof (induction i h rule: hex_chunks.induct)
  case (1 i h)
  then have "h \<noteq> []" by auto
  show ?case
  proof (cases "length h < 8")
    case True
    then show ?thesis using \<open>h \<noteq> []\<close> by (simp add: hex_chunks.simps)
  next
    case False
    moreover from this have "\<not> 8 dvd length (drop 8 h)"
      using 1(2) by (simp add: dvd_minus_self)
    ultimately show ?thesis
      using 1(1) \<open>h \<noteq> []\<close> by (subst hex_chunks.simps) simp
  qed
qed

lemma trimNewline_cases: "trimNewline (s @ [c]) = (if c = CHR 0x0A then s else s @ [c])" "trimNewline [] = []"
  by (simp_all add: trimNewline_def)

end
