(* ===== verification/Fakes.thy ===== *)
theory Fakes
  imports Config SyncCache
begin

text \<open>
  The test doubles that stand in for the interfaces of the program in its unit tests:
  \<^verbatim>\<open>FakePasswordReader\<close>, \<^verbatim>\<open>FakeBackend\<close>, \<^verbatim>\<open>FakeDecrypter\<close> and \<^verbatim>\<open>FakeFileInfo\<close>. They have one shape: for every
  method a stub, the arguments of the calls so far, the results to give, the results to give on
  the call of some index, and for the whole double a map from the methods to the
  arguments they were called with. The shape is the record \<open>fake_method\<close> with its operations;
  each double is a record of such methods, with one definition per Go method. A slice or map that is
  nil is read as an empty one. A stub is a function that may change the state of the test, of type \<open>'w\<close>.
  A call is in two parts: what happens under the mutex of the method, \<open>fake_record\<close>, and the
  answer that is given after the mutex is released, \<open>fake_answer\<close>; \<open>FakesConc\<close> interleaves them.
\<close>

section \<open>A method of a test double\<close>

record ('a, 'r, 'w) fake_method =
  fm_Stub :: "('a \<Rightarrow> 'w \<Rightarrow> 'r \<times> 'w) option"
  fm_ArgsForCall :: "'a list"
  fm_Returns :: 'r
  fm_ReturnsOnCall :: "int \<rightharpoonup> 'r"

text \<open>What \<^verbatim>\<open>new\<close> gives: all fields are zero values.\<close>

definition fake_new :: "'r \<Rightarrow> ('a, 'r, 'w) fake_method" where
  "fake_new zero = \<lparr>fm_Stub = None, fm_ArgsForCall = [], fm_Returns = zero, fm_ReturnsOnCall = Map.empty\<rparr>"

definition fake_record :: "'a \<Rightarrow> ('a, 'r, 'w) fake_method \<Rightarrow> 'r option \<times> ('a, 'r, 'w) fake_method" where
  "fake_record args m =
     (fm_ReturnsOnCall m (int (length (fm_ArgsForCall m))), m\<lparr>fm_ArgsForCall := fm_ArgsForCall m @ [args]\<rparr>)"

definition fake_answer :: "('a, 'r, 'w) fake_method \<Rightarrow> 'r option \<Rightarrow> 'a \<Rightarrow> 'w \<Rightarrow> 'r \<times> 'w" where
  "fake_answer m specific args w =
     (case fm_Stub m of
        Some stub \<Rightarrow> stub args w
      | None \<Rightarrow> (case specific of Some ret \<Rightarrow> (ret, w) | None \<Rightarrow> (fm_Returns m, w)))"

definition fake_CallCount :: "('a, 'r, 'w) fake_method \<Rightarrow> nat" where
  "fake_CallCount m = length (fm_ArgsForCall m)"

definition fake_Calls :: "('a \<Rightarrow> 'w \<Rightarrow> 'r \<times> 'w) option \<Rightarrow> ('a, 'r, 'w) fake_method \<Rightarrow> ('a, 'r, 'w) fake_method" where
  "fake_Calls stub m = m\<lparr>fm_Stub := stub\<rparr>"

definition fake_ArgsForCall :: "('a, 'r, 'w) fake_method \<Rightarrow> int \<Rightarrow> 'a result" where
  "fake_ArgsForCall m i =
     (if 0 \<le> i \<and> i < int (length (fm_ArgsForCall m)) then Inr (fm_ArgsForCall m ! nat i) else Inl (Panic IndexOutOfRange))"

definition fake_Returns :: "'r \<Rightarrow> ('a, 'r, 'w) fake_method \<Rightarrow> ('a, 'r, 'w) fake_method" where
  "fake_Returns r m = m\<lparr>fm_Stub := None, fm_Returns := r\<rparr>"

definition fake_ReturnsOnCall :: "int \<Rightarrow> 'r \<Rightarrow> ('a, 'r, 'w) fake_method \<Rightarrow> ('a, 'r, 'w) fake_method" where
  "fake_ReturnsOnCall i r m = m\<lparr>fm_Stub := None, fm_ReturnsOnCall := (fm_ReturnsOnCall m)(i \<mapsto> r)\<rparr>"

text \<open>The values behind \<^verbatim>\<open>[]interface{}\<close>, and the map of the calls of all methods of a double.\<close>

datatype fake_arg = ArgString string | ArgBytes "bytes option"

type_synonym fake_invocations = "string \<rightharpoonup> fake_arg list list"

definition invoked :: "fake_invocations \<Rightarrow> string \<Rightarrow> fake_arg list list" where
  "invoked invs key = (case invs key of None \<Rightarrow> [] | Some calls \<Rightarrow> calls)"

definition fake_recordInvocation :: "string \<Rightarrow> fake_arg list \<Rightarrow> fake_invocations \<Rightarrow> fake_invocations" where
  "fake_recordInvocation key args invs = invs(key \<mapsto> invoked invs key @ [args])"

section \<open>FakePasswordReader\<close>

record 'w FakePasswordReader =
  pw_readPassword :: "(string, (bytes \<times> goerr option), 'w) fake_method"
  pw_invocations :: fake_invocations

definition FakePasswordReader_new :: "'w FakePasswordReader" where
  "FakePasswordReader_new = \<lparr>pw_readPassword = fake_new ([], None), pw_invocations = Map.empty\<rparr>"

definition FakePasswordReader_recordInvocation :: "string \<Rightarrow> fake_arg list \<Rightarrow> 'w FakePasswordReader \<Rightarrow> 'w FakePasswordReader" where
  "FakePasswordReader_recordInvocation key args fake = fake\<lparr>pw_invocations := fake_recordInvocation key args (pw_invocations fake)\<rparr>"

definition FakePasswordReader_Invocations :: "'w FakePasswordReader \<Rightarrow> fake_invocations" where
  "FakePasswordReader_Invocations fake = pw_invocations fake"

text \<open>\<^verbatim>\<open>ReadPassword\<close>\<close>

definition FakePasswordReader_ReadPassword :: "string \<Rightarrow> 'w FakePasswordReader \<Rightarrow> 'w \<Rightarrow> ((bytes \<times> goerr option) \<times> 'w) \<times> 'w FakePasswordReader" where
  "FakePasswordReader_ReadPassword arg1 fake w =
     (case fake_record arg1 (pw_readPassword fake) of (specific, m) \<Rightarrow>
       (fake_answer m specific arg1 w, FakePasswordReader_recordInvocation ''ReadPassword'' [ArgString arg1] (fake\<lparr>pw_readPassword := m\<rparr>)))"

definition FakePasswordReader_ReadPasswordCallCount :: "'w FakePasswordReader \<Rightarrow> nat" where
  "FakePasswordReader_ReadPasswordCallCount fake = fake_CallCount (pw_readPassword fake)"

definition FakePasswordReader_ReadPasswordCalls :: "(string \<Rightarrow> 'w \<Rightarrow> (bytes \<times> goerr option) \<times> 'w) option \<Rightarrow> 'w FakePasswordReader \<Rightarrow> 'w FakePasswordReader" where
  "FakePasswordReader_ReadPasswordCalls stub fake = fake\<lparr>pw_readPassword := fake_Calls stub (pw_readPassword fake)\<rparr>"

definition FakePasswordReader_ReadPasswordArgsForCall :: "'w FakePasswordReader \<Rightarrow> int \<Rightarrow> string result" where
  "FakePasswordReader_ReadPasswordArgsForCall fake i = fake_ArgsForCall (pw_readPassword fake) i"

definition FakePasswordReader_ReadPasswordReturns :: "bytes \<Rightarrow> goerr option \<Rightarrow> 'w FakePasswordReader \<Rightarrow> 'w FakePasswordReader" where
  "FakePasswordReader_ReadPasswordReturns result1 result2 fake = fake\<lparr>pw_readPassword := fake_Returns (result1, result2) (pw_readPassword fake)\<rparr>"

definition FakePasswordReader_ReadPasswordReturnsOnCall :: "int \<Rightarrow> bytes \<Rightarrow> goerr option \<Rightarrow> 'w FakePasswordReader \<Rightarrow> 'w FakePasswordReader" where
  "FakePasswordReader_ReadPasswordReturnsOnCall i result1 result2 fake = fake\<lparr>pw_readPassword := fake_ReturnsOnCall i (result1, result2) (pw_readPassword fake)\<rparr>"

section \<open>FakeDecrypter\<close>

text \<open>The bytes are copied for the record, so that the caller may overwrite them; the stub gets the caller's.\<close>

definition copy_arg :: "bytes option \<Rightarrow> bytes option" where
  "copy_arg arg = (case arg of None \<Rightarrow> None | Some b \<Rightarrow> Some (take (length b) b))"

record 'w FakeDecrypter =
  fd_decryptName :: "((string \<times> bytes option), (string \<times> goerr option), 'w) fake_method"
  fd_invocations :: fake_invocations

definition FakeDecrypter_new :: "'w FakeDecrypter" where
  "FakeDecrypter_new = \<lparr>fd_decryptName = fake_new ([], None), fd_invocations = Map.empty\<rparr>"

definition FakeDecrypter_recordInvocation :: "string \<Rightarrow> fake_arg list \<Rightarrow> 'w FakeDecrypter \<Rightarrow> 'w FakeDecrypter" where
  "FakeDecrypter_recordInvocation key args fake = fake\<lparr>fd_invocations := fake_recordInvocation key args (fd_invocations fake)\<rparr>"

definition FakeDecrypter_Invocations :: "'w FakeDecrypter \<Rightarrow> fake_invocations" where
  "FakeDecrypter_Invocations fake = fd_invocations fake"

text \<open>\<^verbatim>\<open>DecryptName\<close>\<close>

definition FakeDecrypter_DecryptName :: "string \<Rightarrow> bytes option \<Rightarrow> 'w FakeDecrypter \<Rightarrow> 'w \<Rightarrow> ((string \<times> goerr option) \<times> 'w) \<times> 'w FakeDecrypter" where
  "FakeDecrypter_DecryptName arg1 arg2 fake w =
     (let arg2Copy = copy_arg arg2 in
      case fake_record (arg1, arg2Copy) (fd_decryptName fake) of (specific, m) \<Rightarrow>
       (fake_answer m specific (arg1, arg2) w, FakeDecrypter_recordInvocation ''DecryptName'' [ArgString arg1, ArgBytes arg2Copy] (fake\<lparr>fd_decryptName := m\<rparr>)))"

definition FakeDecrypter_DecryptNameCallCount :: "'w FakeDecrypter \<Rightarrow> nat" where
  "FakeDecrypter_DecryptNameCallCount fake = fake_CallCount (fd_decryptName fake)"

definition FakeDecrypter_DecryptNameCalls :: "((string \<times> bytes option) \<Rightarrow> 'w \<Rightarrow> (string \<times> goerr option) \<times> 'w) option \<Rightarrow> 'w FakeDecrypter \<Rightarrow> 'w FakeDecrypter" where
  "FakeDecrypter_DecryptNameCalls stub fake = fake\<lparr>fd_decryptName := fake_Calls stub (fd_decryptName fake)\<rparr>"

definition FakeDecrypter_DecryptNameArgsForCall :: "'w FakeDecrypter \<Rightarrow> int \<Rightarrow> (string \<times> bytes option) result" where
  "FakeDecrypter_DecryptNameArgsForCall fake i = fake_ArgsForCall (fd_decryptName fake) i"

definition FakeDecrypter_DecryptNameReturns :: "string \<Rightarrow> goerr option \<Rightarrow> 'w FakeDecrypter \<Rightarrow> 'w FakeDecrypter" where
  "FakeDecrypter_DecryptNameReturns result1 result2 fake = fake\<lparr>fd_decryptName := fake_Returns (result1, result2) (fd_decryptName fake)\<rparr>"

definition FakeDecrypter_DecryptNameReturnsOnCall :: "int \<Rightarrow> string \<Rightarrow> goerr option \<Rightarrow> 'w FakeDecrypter \<Rightarrow> 'w FakeDecrypter" where
  "FakeDecrypter_DecryptNameReturnsOnCall i result1 result2 fake = fake\<lparr>fd_decryptName := fake_ReturnsOnCall i (result1, result2) (fd_decryptName fake)\<rparr>"

section \<open>FakeBackend\<close>

record 'w FakeBackend =
  fb_readDir :: "(string, (FileInfo list \<times> goerr option), 'w) fake_method"
  fb_readFile :: "(string, (bytes \<times> goerr option), 'w) fake_method"
  fb_invocations :: fake_invocations

definition FakeBackend_new :: "'w FakeBackend" where
  "FakeBackend_new = \<lparr>fb_readDir = fake_new ([], None), fb_readFile = fake_new ([], None), fb_invocations = Map.empty\<rparr>"

definition FakeBackend_recordInvocation :: "string \<Rightarrow> fake_arg list \<Rightarrow> 'w FakeBackend \<Rightarrow> 'w FakeBackend" where
  "FakeBackend_recordInvocation key args fake = fake\<lparr>fb_invocations := fake_recordInvocation key args (fb_invocations fake)\<rparr>"

definition FakeBackend_Invocations :: "'w FakeBackend \<Rightarrow> fake_invocations" where
  "FakeBackend_Invocations fake = fb_invocations fake"

text \<open>\<^verbatim>\<open>ReadDir\<close>\<close>

definition FakeBackend_ReadDir :: "string \<Rightarrow> 'w FakeBackend \<Rightarrow> 'w \<Rightarrow> ((FileInfo list \<times> goerr option) \<times> 'w) \<times> 'w FakeBackend" where
  "FakeBackend_ReadDir arg1 fake w =
     (case fake_record arg1 (fb_readDir fake) of (specific, m) \<Rightarrow>
       (fake_answer m specific arg1 w, FakeBackend_recordInvocation ''ReadDir'' [ArgString arg1] (fake\<lparr>fb_readDir := m\<rparr>)))"

definition FakeBackend_ReadDirCallCount :: "'w FakeBackend \<Rightarrow> nat" where
  "FakeBackend_ReadDirCallCount fake = fake_CallCount (fb_readDir fake)"

definition FakeBackend_ReadDirCalls :: "(string \<Rightarrow> 'w \<Rightarrow> (FileInfo list \<times> goerr option) \<times> 'w) option \<Rightarrow> 'w FakeBackend \<Rightarrow> 'w FakeBackend" where
  "FakeBackend_ReadDirCalls stub fake = fake\<lparr>fb_readDir := fake_Calls stub (fb_readDir fake)\<rparr>"

definition FakeBackend_ReadDirArgsForCall :: "'w FakeBackend \<Rightarrow> int \<Rightarrow> string result" where
  "FakeBackend_ReadDirArgsForCall fake i = fake_ArgsForCall (fb_readDir fake) i"

definition FakeBackend_ReadDirReturns :: "FileInfo list \<Rightarrow> goerr option \<Rightarrow> 'w FakeBackend \<Rightarrow> 'w FakeBackend" where
  "FakeBackend_ReadDirReturns result1 result2 fake = fake\<lparr>fb_readDir := fake_Returns (result1, result2) (fb_readDir fake)\<rparr>"

definition FakeBackend_ReadDirReturnsOnCall :: "int \<Rightarrow> FileInfo list \<Rightarrow> goerr option \<Rightarrow> 'w FakeBackend \<Rightarrow> 'w FakeBackend" where
  "FakeBackend_ReadDirReturnsOnCall i result1 result2 fake = fake\<lparr>fb_readDir := fake_ReturnsOnCall i (result1, result2) (fb_readDir fake)\<rparr>"

text \<open>\<^verbatim>\<open>ReadFile\<close>\<close>

definition FakeBackend_ReadFile :: "string \<Rightarrow> 'w FakeBackend \<Rightarrow> 'w \<Rightarrow> ((bytes \<times> goerr option) \<times> 'w) \<times> 'w FakeBackend" where
  "FakeBackend_ReadFile arg1 fake w =
     (case fake_record arg1 (fb_readFile fake) of (specific, m) \<Rightarrow>
       (fake_answer m specific arg1 w, FakeBackend_recordInvocation ''ReadFile'' [ArgString arg1] (fake\<lparr>fb_readFile := m\<rparr>)))"

definition FakeBackend_ReadFileCallCount :: "'w FakeBackend \<Rightarrow> nat" where
  "FakeBackend_ReadFileCallCount fake = fake_CallCount (fb_readFile fake)"

definition FakeBackend_ReadFileCalls :: "(string \<Rightarrow> 'w \<Rightarrow> (bytes \<times> goerr option) \<times> 'w) option \<Rightarrow> 'w FakeBackend \<Rightarrow> 'w FakeBackend" where
  "FakeBackend_ReadFileCalls stub fake = fake\<lparr>fb_readFile := fake_Calls stub (fb_readFile fake)\<rparr>"

definition FakeBackend_ReadFileArgsForCall :: "'w FakeBackend \<Rightarrow> int \<Rightarrow> string result" where
  "FakeBackend_ReadFileArgsForCall fake i = fake_ArgsForCall (fb_readFile fake) i"

definition FakeBackend_ReadFileReturns :: "bytes \<Rightarrow> goerr option \<Rightarrow> 'w FakeBackend \<Rightarrow> 'w FakeBackend" where
  "FakeBackend_ReadFileReturns result1 result2 fake = fake\<lparr>fb_readFile := fake_Returns (result1, result2) (fb_readFile fake)\<rparr>"

definition FakeBackend_ReadFileReturnsOnCall :: "int \<Rightarrow> bytes \<Rightarrow> goerr option \<Rightarrow> 'w FakeBackend \<Rightarrow> 'w FakeBackend" where
  "FakeBackend_ReadFileReturnsOnCall i result1 result2 fake = fake\<lparr>fb_readFile := fake_ReturnsOnCall i (result1, result2) (fb_readFile fake)\<rparr>"

section \<open>FakeFileInfo\<close>

text \<open>Times and the values of \<^verbatim>\<open>Sys\<close> are type parameters; \<^verbatim>\<open>ModTime\<close> and \<^verbatim>\<open>Sys\<close> start with their zero values.\<close>

record ('t, 'i, 'w) FakeFileInfo =
  ff_IsDir :: "(unit, bool, 'w) fake_method"
  ff_ModTime :: "(unit, 't, 'w) fake_method"
  ff_Mode :: "(unit, 32 word, 'w) fake_method"
  ff_Name :: "(unit, string, 'w) fake_method"
  ff_Size :: "(unit, 64 word, 'w) fake_method"
  ff_Sys :: "(unit, 'i, 'w) fake_method"
  ff_invocations :: fake_invocations

definition FakeFileInfo_new :: "'t \<Rightarrow> 'i \<Rightarrow> ('t, 'i, 'w) FakeFileInfo" where
  "FakeFileInfo_new zeroTime nilSys = \<lparr>ff_IsDir = fake_new False, ff_ModTime = fake_new zeroTime, ff_Mode = fake_new 0, ff_Name = fake_new [], ff_Size = fake_new 0, ff_Sys = fake_new nilSys, ff_invocations = Map.empty\<rparr>"

definition FakeFileInfo_recordInvocation :: "string \<Rightarrow> fake_arg list \<Rightarrow> ('t, 'i, 'w) FakeFileInfo \<Rightarrow> ('t, 'i, 'w) FakeFileInfo" where
  "FakeFileInfo_recordInvocation key args fake = fake\<lparr>ff_invocations := fake_recordInvocation key args (ff_invocations fake)\<rparr>"

definition FakeFileInfo_Invocations :: "('t, 'i, 'w) FakeFileInfo \<Rightarrow> fake_invocations" where
  "FakeFileInfo_Invocations fake = ff_invocations fake"

text \<open>\<^verbatim>\<open>IsDir\<close>\<close>

definition FakeFileInfo_IsDir :: "('t, 'i, 'w) FakeFileInfo \<Rightarrow> 'w \<Rightarrow> (bool \<times> 'w) \<times> ('t, 'i, 'w) FakeFileInfo" where
  "FakeFileInfo_IsDir fake w =
     (case fake_record () (ff_IsDir fake) of (specific, m) \<Rightarrow>
       (fake_answer m specific () w, FakeFileInfo_recordInvocation ''IsDir'' [] (fake\<lparr>ff_IsDir := m\<rparr>)))"

definition FakeFileInfo_IsDirCallCount :: "('t, 'i, 'w) FakeFileInfo \<Rightarrow> nat" where
  "FakeFileInfo_IsDirCallCount fake = fake_CallCount (ff_IsDir fake)"

definition FakeFileInfo_IsDirCalls :: "(unit \<Rightarrow> 'w \<Rightarrow> bool \<times> 'w) option \<Rightarrow> ('t, 'i, 'w) FakeFileInfo \<Rightarrow> ('t, 'i, 'w) FakeFileInfo" where
  "FakeFileInfo_IsDirCalls stub fake = fake\<lparr>ff_IsDir := fake_Calls stub (ff_IsDir fake)\<rparr>"

definition FakeFileInfo_IsDirReturns :: "bool \<Rightarrow> ('t, 'i, 'w) FakeFileInfo \<Rightarrow> ('t, 'i, 'w) FakeFileInfo" where
  "FakeFileInfo_IsDirReturns result1 fake = fake\<lparr>ff_IsDir := fake_Returns result1 (ff_IsDir fake)\<rparr>"

definition FakeFileInfo_IsDirReturnsOnCall :: "int \<Rightarrow> bool \<Rightarrow> ('t, 'i, 'w) FakeFileInfo \<Rightarrow> ('t, 'i, 'w) FakeFileInfo" where
  "FakeFileInfo_IsDirReturnsOnCall i result1 fake = fake\<lparr>ff_IsDir := fake_ReturnsOnCall i result1 (ff_IsDir fake)\<rparr>"

text \<open>\<^verbatim>\<open>ModTime\<close>\<close>

definition FakeFileInfo_ModTime :: "('t, 'i, 'w) FakeFileInfo \<Rightarrow> 'w \<Rightarrow> ('t \<times> 'w) \<times> ('t, 'i, 'w) FakeFileInfo" where
  "FakeFileInfo_ModTime fake w =
     (case fake_record () (ff_ModTime fake) of (specific, m) \<Rightarrow>
       (fake_answer m specific () w, FakeFileInfo_recordInvocation ''ModTime'' [] (fake\<lparr>ff_ModTime := m\<rparr>)))"

definition FakeFileInfo_ModTimeCallCount :: "('t, 'i, 'w) FakeFileInfo \<Rightarrow> nat" where
  "FakeFileInfo_ModTimeCallCount fake = fake_CallCount (ff_ModTime fake)"

definition FakeFileInfo_ModTimeCalls :: "(unit \<Rightarrow> 'w \<Rightarrow> 't \<times> 'w) option \<Rightarrow> ('t, 'i, 'w) FakeFileInfo \<Rightarrow> ('t, 'i, 'w) FakeFileInfo" where
  "FakeFileInfo_ModTimeCalls stub fake = fake\<lparr>ff_ModTime := fake_Calls stub (ff_ModTime fake)\<rparr>"

definition FakeFileInfo_ModTimeReturns :: "'t \<Rightarrow> ('t, 'i, 'w) FakeFileInfo \<Rightarrow> ('t, 'i, 'w) FakeFileInfo" where
  "FakeFileInfo_ModTimeReturns result1 fake = fake\<lparr>ff_ModTime := fake_Returns result1 (ff_ModTime fake)\<rparr>"

definition FakeFileInfo_ModTimeReturnsOnCall :: "int \<Rightarrow> 't \<Rightarrow> ('t, 'i, 'w) FakeFileInfo \<Rightarrow> ('t, 'i, 'w) FakeFileInfo" where
  "FakeFileInfo_ModTimeReturnsOnCall i result1 fake = fake\<lparr>ff_ModTime := fake_ReturnsOnCall i result1 (ff_ModTime fake)\<rparr>"

text \<open>\<^verbatim>\<open>Mode\<close>\<close>

definition FakeFileInfo_Mode :: "('t, 'i, 'w) FakeFileInfo \<Rightarrow> 'w \<Rightarrow> (32 word \<times> 'w) \<times> ('t, 'i, 'w) FakeFileInfo" where
  "FakeFileInfo_Mode fake w =
     (case fake_record () (ff_Mode fake) of (specific, m) \<Rightarrow>
       (fake_answer m specific () w, FakeFileInfo_recordInvocation ''Mode'' [] (fake\<lparr>ff_Mode := m\<rparr>)))"

definition FakeFileInfo_ModeCallCount :: "('t, 'i, 'w) FakeFileInfo \<Rightarrow> nat" where
  "FakeFileInfo_ModeCallCount fake = fake_CallCount (ff_Mode fake)"

definition FakeFileInfo_ModeCalls :: "(unit \<Rightarrow> 'w \<Rightarrow> 32 word \<times> 'w) option \<Rightarrow> ('t, 'i, 'w) FakeFileInfo \<Rightarrow> ('t, 'i, 'w) FakeFileInfo" where
  "FakeFileInfo_ModeCalls stub fake = fake\<lparr>ff_Mode := fake_Calls stub (ff_Mode fake)\<rparr>"

definition FakeFileInfo_ModeReturns :: "32 word \<Rightarrow> ('t, 'i, 'w) FakeFileInfo \<Rightarrow> ('t, 'i, 'w) FakeFileInfo" where
  "FakeFileInfo_ModeReturns result1 fake = fake\<lparr>ff_Mode := fake_Returns result1 (ff_Mode fake)\<rparr>"

definition FakeFileInfo_ModeReturnsOnCall :: "int \<Rightarrow> 32 word \<Rightarrow> ('t, 'i, 'w) FakeFileInfo \<Rightarrow> ('t, 'i, 'w) FakeFileInfo" where
  "FakeFileInfo_ModeReturnsOnCall i result1 fake = fake\<lparr>ff_Mode := fake_ReturnsOnCall i result1 (ff_Mode fake)\<rparr>"

text \<open>\<^verbatim>\<open>Name\<close>\<close>

definition FakeFileInfo_Name :: "('t, 'i, 'w) FakeFileInfo \<Rightarrow> 'w \<Rightarrow> (string \<times> 'w) \<times> ('t, 'i, 'w) FakeFileInfo" where
  "FakeFileInfo_Name fake w =
     (case fake_record () (ff_Name fake) of (specific, m) \<Rightarrow>
       (fake_answer m specific () w, FakeFileInfo_recordInvocation ''Name'' [] (fake\<lparr>ff_Name := m\<rparr>)))"

definition FakeFileInfo_NameCallCount :: "('t, 'i, 'w) FakeFileInfo \<Rightarrow> nat" where
  "FakeFileInfo_NameCallCount fake = fake_CallCount (ff_Name fake)"

definition FakeFileInfo_NameCalls :: "(unit \<Rightarrow> 'w \<Rightarrow> string \<times> 'w) option \<Rightarrow> ('t, 'i, 'w) FakeFileInfo \<Rightarrow> ('t, 'i, 'w) FakeFileInfo" where
  "FakeFileInfo_NameCalls stub fake = fake\<lparr>ff_Name := fake_Calls stub (ff_Name fake)\<rparr>"

definition FakeFileInfo_NameReturns :: "string \<Rightarrow> ('t, 'i, 'w) FakeFileInfo \<Rightarrow> ('t, 'i, 'w) FakeFileInfo" where
  "FakeFileInfo_NameReturns result1 fake = fake\<lparr>ff_Name := fake_Returns result1 (ff_Name fake)\<rparr>"

definition FakeFileInfo_NameReturnsOnCall :: "int \<Rightarrow> string \<Rightarrow> ('t, 'i, 'w) FakeFileInfo \<Rightarrow> ('t, 'i, 'w) FakeFileInfo" where
  "FakeFileInfo_NameReturnsOnCall i result1 fake = fake\<lparr>ff_Name := fake_ReturnsOnCall i result1 (ff_Name fake)\<rparr>"

text \<open>\<^verbatim>\<open>Size\<close>\<close>

definition FakeFileInfo_Size :: "('t, 'i, 'w) FakeFileInfo \<Rightarrow> 'w \<Rightarrow> (64 word \<times> 'w) \<times> ('t, 'i, 'w) FakeFileInfo" where
  "FakeFileInfo_Size fake w =
     (case fake_record () (ff_Size fake) of (specific, m) \<Rightarrow>
       (fake_answer m specific () w, FakeFileInfo_recordInvocation ''Size'' [] (fake\<lparr>ff_Size := m\<rparr>)))"

definition FakeFileInfo_SizeCallCount :: "('t, 'i, 'w) FakeFileInfo \<Rightarrow> nat" where
  "FakeFileInfo_SizeCallCount fake = fake_CallCount (ff_Size fake)"

definition FakeFileInfo_SizeCalls :: "(unit \<Rightarrow> 'w \<Rightarrow> 64 word \<times> 'w) option \<Rightarrow> ('t, 'i, 'w) FakeFileInfo \<Rightarrow> ('t, 'i, 'w) FakeFileInfo" where
  "FakeFileInfo_SizeCalls stub fake = fake\<lparr>ff_Size := fake_Calls stub (ff_Size fake)\<rparr>"

definition FakeFileInfo_SizeReturns :: "64 word \<Rightarrow> ('t, 'i, 'w) FakeFileInfo \<Rightarrow> ('t, 'i, 'w) FakeFileInfo" where
  "FakeFileInfo_SizeReturns result1 fake = fake\<lparr>ff_Size := fake_Returns result1 (ff_Size fake)\<rparr>"

definition FakeFileInfo_SizeReturnsOnCall :: "int \<Rightarrow> 64 word \<Rightarrow> ('t, 'i, 'w) FakeFileInfo \<Rightarrow> ('t, 'i, 'w) FakeFileInfo" where
  "FakeFileInfo_SizeReturnsOnCall i result1 fake = fake\<lparr>ff_Size := fake_ReturnsOnCall i result1 (ff_Size fake)\<rparr>"

text \<open>\<^verbatim>\<open>Sys\<close>\<close>

definition FakeFileInfo_Sys :: "('t, 'i, 'w) FakeFileInfo \<Rightarrow> 'w \<Rightarrow> ('i \<times> 'w) \<times> ('t, 'i, 'w) FakeFileInfo" where
  "FakeFileInfo_Sys fake w =
     (case fake_record () (ff_Sys fake) of (specific, m) \<Rightarrow>
       (fake_answer m specific () w, FakeFileInfo_recordInvocation ''Sys'' [] (fake\<lparr>ff_Sys := m\<rparr>)))"

definition FakeFileInfo_SysCallCount :: "('t, 'i, 'w) FakeFileInfo \<Rightarrow> nat" where
  "FakeFileInfo_SysCallCount fake = fake_CallCount (ff_Sys fake)"

definition FakeFileInfo_SysCalls :: "(unit \<Rightarrow> 'w \<Rightarrow> 'i \<times> 'w) option \<Rightarrow> ('t, 'i, 'w) FakeFileInfo \<Rightarrow> ('t, 'i, 'w) FakeFileInfo" where
  "FakeFileInfo_SysCalls stub fake = fake\<lparr>ff_Sys := fake_Calls stub (ff_Sys fake)\<rparr>"

definition FakeFileInfo_SysReturns :: "'i \<Rightarrow> ('t, 'i, 'w) FakeFileInfo \<Rightarrow> ('t, 'i, 'w) FakeFileInfo" where
  "FakeFileInfo_SysReturns result1 fake = fake\<lparr>ff_Sys := fake_Returns result1 (ff_Sys fake)\<rparr>"

definition FakeFileInfo_SysReturnsOnCall :: "int \<Rightarrow> 'i \<Rightarrow> ('t, 'i, 'w) FakeFileInfo \<Rightarrow> ('t, 'i, 'w) FakeFileInfo" where
  "FakeFileInfo_SysReturnsOnCall i result1 fake = fake\<lparr>ff_Sys := fake_ReturnsOnCall i result1 (ff_Sys fake)\<rparr>"

section \<open>The password reader of the tests\<close>

text \<open>
  \<^verbatim>\<open>SetTestPWReader\<close> puts the double in the place of the terminal: a call that returns an error is a
  prompt that failed.
\<close>

definition fake_pwReader :: "('w FakePasswordReader \<times> 'w) reader" where
  "fake_pwReader prompt s =
     (case s of (fake, w) \<Rightarrow>
        (case FakePasswordReader_ReadPassword prompt fake w of
           (((passphrase, err), w'), fake') \<Rightarrow>
             ((case err of None \<Rightarrow> Inr passphrase | Some e \<Rightarrow> Inl e), (fake', w'))))"

text \<open>What the double is set up to answer on the call of an index, when it has no stub.\<close>

definition planned_answer :: "'w FakePasswordReader \<Rightarrow> nat \<Rightarrow> goerr + bytes" where
  "planned_answer fake i =
     (case (case fm_ReturnsOnCall (pw_readPassword fake) (int i) of Some r \<Rightarrow> r | None \<Rightarrow> fm_Returns (pw_readPassword fake)) of
        (passphrase, None) \<Rightarrow> Inr passphrase
      | (passphrase, Some e) \<Rightarrow> Inl e)"

text \<open>The double after some more calls with the same prompt.\<close>

definition prompted :: "nat \<Rightarrow> string \<Rightarrow> 'w FakePasswordReader \<Rightarrow> 'w FakePasswordReader" where
  "prompted n prompt fake =
     fake\<lparr>pw_readPassword := pw_readPassword fake\<lparr>fm_ArgsForCall := fm_ArgsForCall (pw_readPassword fake) @ replicate n prompt\<rparr>,
       pw_invocations := (fake_recordInvocation ''ReadPassword'' [ArgString prompt] ^^ n) (pw_invocations fake)\<rparr>"

lemma prompted_0 [simp]: "prompted 0 prompt fake = fake"
  by (simp add: prompted_def)

lemma prompted_prompted [simp]: "prompted n prompt (prompted (Suc 0) prompt fake) = prompted (Suc n) prompt fake"
  by (simp add: prompted_def funpow_swap1)

lemma prompted_stub [simp]: "fm_Stub (pw_readPassword (prompted n prompt fake)) = fm_Stub (pw_readPassword fake)"
  by (simp add: prompted_def)

lemma prompted_count [simp]:
  "FakePasswordReader_ReadPasswordCallCount (prompted n prompt fake) = FakePasswordReader_ReadPasswordCallCount fake + n"
  by (simp add: prompted_def FakePasswordReader_ReadPasswordCallCount_def fake_CallCount_def)

lemma prompted_planned [simp]: "planned_answer (prompted n prompt fake) = planned_answer fake"
  by (rule ext) (simp add: prompted_def planned_answer_def cong: option.case_cong)

lemma invoked_record: "invoked ((fake_recordInvocation key args ^^ n) invs) key = invoked invs key @ replicate n args"
  by (induction n) (simp_all add: fake_recordInvocation_def invoked_def replicate_append_same)

lemma prompted_invoked:
  "invoked (FakePasswordReader_Invocations (prompted n prompt fake)) ''ReadPassword'' =
     invoked (FakePasswordReader_Invocations fake) ''ReadPassword'' @ replicate n [ArgString prompt]"
  by (simp add: prompted_def FakePasswordReader_Invocations_def invoked_record)

lemma prompted_args:
  assumes "FakePasswordReader_ReadPasswordCallCount fake = 0"
  shows "FakePasswordReader_ReadPasswordArgsForCall (prompted n prompt fake) i =
    (if 0 \<le> i \<and> i < int n then Inr prompt else Inl (Panic IndexOutOfRange))"
proof -
  have "nat i < n" if "0 \<le> i" "i < int n"
    using that by linarith
  then show ?thesis
    using assms by (simp add: prompted_def FakePasswordReader_ReadPasswordArgsForCall_def fake_ArgsForCall_def
        FakePasswordReader_ReadPasswordCallCount_def fake_CallCount_def)
qed

lemma fake_pwReader_step:
  assumes "fm_Stub (pw_readPassword fake) = None"
  shows "fake_pwReader prompt (fake, w) =
    (planned_answer fake (FakePasswordReader_ReadPasswordCallCount fake), (prompted (Suc 0) prompt fake, w))"
  using assms
  by (auto simp: fake_pwReader_def FakePasswordReader_ReadPassword_def fake_record_def fake_answer_def planned_answer_def
      prompted_def FakePasswordReader_recordInvocation_def FakePasswordReader_ReadPasswordCallCount_def fake_CallCount_def
      split: prod.splits option.splits)

lemma key_attempts_Suc:
  "key_attempts L pw prompt key (Suc n) w =
     (case pw prompt w of (a, w') \<Rightarrow>
        (case attempt_outcome L key a of Some r \<Rightarrow> (r, w') | None \<Rightarrow> key_attempts L pw prompt key n w'))"
  by (auto simp: attempt_outcome_def split: prod.splits sum.splits)

lemma key_attempts_fake:
  assumes "fm_Stub (pw_readPassword fake) = None"
  shows "key_attempts L fake_pwReader prompt key n (fake, w) =
     (let c = FakePasswordReader_ReadPasswordCallCount fake;
          k = length (takeWhile (\<lambda>a. attempt_outcome L key a = None) (map (planned_answer fake) [c..<c + n])) in
      (if k < n then the (attempt_outcome L key (planned_answer fake (c + k))) else Inl IncorrectPasswordError,
       (prompted (min n (Suc k)) prompt fake, w)))"
  using assms
proof (induction n arbitrary: fake)
  case (Suc n)
  let ?c = "FakePasswordReader_ReadPasswordCallCount fake"
  have IH: "key_attempts L fake_pwReader prompt key n (prompted (Suc 0) prompt fake, w) =
     (let k = length (takeWhile (\<lambda>a. attempt_outcome L key a = None) (map (planned_answer fake) [Suc ?c..<Suc ?c + n])) in
      (if k < n then the (attempt_outcome L key (planned_answer fake (Suc ?c + k))) else Inl IncorrectPasswordError,
       (prompted (Suc (min n (Suc k))) prompt fake, w)))"
    using Suc.IH [of "prompted (Suc 0) prompt fake"] Suc.prems by (simp add: Let_def del: upt_Suc)
  have range: "[?c..<?c + Suc n] = ?c # [Suc ?c..<Suc ?c + n]"
    by (simp add: upt_conv_Cons del: upt_Suc)
  show ?case
  proof (cases "attempt_outcome L key (planned_answer fake ?c)")
    case None
    then show ?thesis
      unfolding Let_def range key_attempts_Suc fake_pwReader_step [OF Suc.prems] using IH by (simp add: Let_def del: upt_Suc)
  next
    case (Some r)
    then show ?thesis
      unfolding Let_def range key_attempts_Suc fake_pwReader_step [OF Suc.prems] by (simp add: Let_def del: upt_Suc)
  qed
qed simp

text \<open>
  With the double in the place of the terminal, and without a stub, loading an encrypted key ends
  as the answers that were set up for the first three calls say; the double then has counted as many calls as
  prompts were needed, which is three when all the answers are wrong passphrases, and has the
  prompt with the path of the key as the arguments of each of them.
\<close>

lemma FakePasswordReader_attempts:
  fixes fake :: "'w FakePasswordReader" and w :: 'w
  assumes "read_file (PrivateKeyPath (Remote c)) = Inr key" and "pem_Decode L key = Some block" and "IsEncryptedPEMBlock L block"
    and "fm_Stub (pw_readPassword fake) = None" and "FakePasswordReader_ReadPasswordCallCount fake = 0"
  shows "\<exists>fake'. let k = length (takeWhile (\<lambda>a. attempt_outcome L key a = None) (map (planned_answer fake) [0, 1, 2])) in
    LoadSSHKey L read_file fake_pwReader c (fake, w) =
      Inr (if k < 3 then the (attempt_outcome L key (planned_answer fake k)) else Inl IncorrectPasswordError, (fake', w)) \<and>
    FakePasswordReader_ReadPasswordCallCount fake' = min 3 (k + 1) \<and>
    (\<forall>i. FakePasswordReader_ReadPasswordArgsForCall fake' i =
       (if 0 \<le> i \<and> i < int (min 3 (k + 1))
        then Inr (''Enter passphrase for key '' @ [CHR 0x27] @ PrivateKeyPath (Remote c) @ [CHR 0x27] @ '': '')
        else Inl (Panic IndexOutOfRange)))"
proof -
  let ?prompt = "''Enter passphrase for key '' @ [CHR 0x27] @ PrivateKeyPath (Remote c) @ [CHR 0x27] @ '': ''"
  let ?k = "length (takeWhile (\<lambda>a. attempt_outcome L key a = None) (map (planned_answer fake) [0, 1, 2]))"
  have three: "[0..<3] = [0, 1, 2::nat]"
    by (simp add: upt_rec)
  have "LoadSSHKey L read_file fake_pwReader c (fake, w) =
      Inr (if ?k < 3 then the (attempt_outcome L key (planned_answer fake ?k)) else Inl IncorrectPasswordError,
        (prompted (min 3 (?k + 1)) ?prompt fake, w))"
    using assms key_attempts_fake [OF assms(4), of L ?prompt key 3 w]
    by (simp add: LoadSSHKey_def isPrivateKeyEncrypted_def Let_def three)
  then show ?thesis
    using assms(5) by (intro exI [of _ "prompted (min 3 (?k + 1)) ?prompt fake"]) (simp only: Let_def prompted_count prompted_args, simp)
qed

text \<open>The double of the unit test: a wrong passphrase, and the right one on the second call.\<close>

definition demo_fake_reader :: "unit FakePasswordReader" where
  "demo_fake_reader =
     FakePasswordReader_ReadPasswordReturnsOnCall 1 [1] None (FakePasswordReader_ReadPasswordReturns [0] None FakePasswordReader_new)"

lemma FakePasswordReader_attempts_witness:
  "\<exists>fake'. LoadSSHKey demo_keylib (\<lambda>_. Inr [9]) fake_pwReader
     \<lparr>ProxyUser = [], ProxyPassword = [], KnownHostsPath = [], Remote = \<lparr>Addr = [], FileRoot = [], User = [], PrivateKeyPath = ''k''\<rparr>\<rparr>
     (demo_fake_reader, ()) = Inr (Inr [9], (fake', ())) \<and> FakePasswordReader_ReadPasswordCallCount fake' = 2"
  using FakePasswordReader_attempts [of "\<lambda>_. Inr [9]" "\<lparr>ProxyUser = [], ProxyPassword = [], KnownHostsPath = [],
      Remote = \<lparr>Addr = [], FileRoot = [], User = [], PrivateKeyPath = ''k''\<rparr>\<rparr>" "[9]" demo_keylib "()" demo_fake_reader "()"]
  by (auto simp: demo_keylib_def demo_fake_reader_def FakePasswordReader_ReadPasswordReturnsOnCall_def
      FakePasswordReader_ReadPasswordReturns_def FakePasswordReader_new_def fake_new_def fake_Returns_def fake_ReturnsOnCall_def
      FakePasswordReader_ReadPasswordCallCount_def fake_CallCount_def planned_answer_def attempt_outcome_def)

end
