(* ===== verification/FakesConc.thy ===== *)
theory FakesConc
  imports Fakes
begin

text \<open>
  A test double under concurrent calls: the workers of the requester call \<^verbatim>\<open>FakeDecrypter\<close> at the
  same time, while the test sets it up and looks at it. A thread holds the mutex of the method while
  a call is recorded, takes the mutex of the invocations inside, and reads the stub and the results after it has
  released both. A read lock that is taken and released without waiting in between is one step.
  Shown are that the calls are counted correctly under every interleaving, and two faults: a call and
  \<^verbatim>\<open>Invocations\<close> take the two mutexes in opposite orders and can block each other, and
  the stub can be reset between its test and its call.
\<close>

section \<open>Threads\<close>

text \<open>
  A call of \<^verbatim>\<open>DecryptName\<close> keeps its arguments, the specific result it found and, as a ghost, its index. The
  other methods are \<open>I\<close>, \<^verbatim>\<open>Invocations\<close>, and \<open>O\<close>, those that take one mutex.
\<close>

type_synonym name_result = "string \<times> goerr option"

datatype 'w fpc =
    FNone
  | DCall string "bytes option"
  | DLocked string "bytes option"
  | DRecorded string "bytes option" "name_result option" nat
  | DUnlocked string "bytes option" "name_result option" nat
  | DStub string "bytes option" nat
  | DPlain string "bytes option" "name_result option" nat
  | DDone string "bytes option" nat name_result
  | DPanic string "bytes option" nat
  | ICall
  | IHeld
  | IDone fake_invocations
  | OCount
  | OCounted nat
  | OArgs int
  | OArgsDone "(string \<times> bytes option) result"
  | OCalls "(string \<times> bytes option \<Rightarrow> 'w \<Rightarrow> name_result \<times> 'w) option"
  | OReturns string "goerr option"
  | OReturnsOnCall int string "goerr option"
  | OSet

text \<open>
  The double with its two mutexes: whether the one of the method is held by a call, and how many
  readers hold the one of the invocations.
\<close>

record 'w fstate =
  fs_fake :: "'w FakeDecrypter"
  fs_locked :: bool
  fs_inv_readers :: nat
  fs_world :: 'w
  fs_threads :: "nat \<Rightarrow> 'w fpc"

definition fs_put :: "nat \<Rightarrow> 'w fpc \<Rightarrow> 'w fstate \<Rightarrow> 'w fstate" where
  "fs_put t pc s = s\<lparr>fs_threads := (fs_threads s)(t := pc)\<rparr>"

text \<open>The next step of a thread, if it has one and is not blocked.\<close>

definition DecryptName_next :: "nat \<Rightarrow> 'w fstate \<Rightarrow> 'w fstate option" where
  "DecryptName_next t s =
     (let m = fd_decryptName (fs_fake s) in
      case fs_threads s t of
        DCall a b \<Rightarrow> if fs_locked s then None else Some (fs_put t (DLocked a b) (s\<lparr>fs_locked := True\<rparr>))
      | DLocked a b \<Rightarrow>
          (case fake_record (a, copy_arg b) m of (specific, m') \<Rightarrow>
             Some (fs_put t (DRecorded a b specific (fake_CallCount m)) (s\<lparr>fs_fake := fs_fake s\<lparr>fd_decryptName := m'\<rparr>\<rparr>)))
      | DRecorded a b specific k \<Rightarrow>
          if 0 < fs_inv_readers s then None
          else Some (fs_put t (DUnlocked a b specific k)
                 (s\<lparr>fs_fake := FakeDecrypter_recordInvocation ''DecryptName'' [ArgString a, ArgBytes (copy_arg b)] (fs_fake s),
                    fs_locked := False\<rparr>))
      | DUnlocked a b specific k \<Rightarrow>
          Some (fs_put t (case fm_Stub m of Some _ \<Rightarrow> DStub a b k | None \<Rightarrow> DPlain a b specific k) s)
      | DStub a b k \<Rightarrow>
          (case fm_Stub m of
             None \<Rightarrow> Some (fs_put t (DPanic a b k) s)
           | Some stub \<Rightarrow> (case stub (a, b) (fs_world s) of (r, w) \<Rightarrow> Some (fs_put t (DDone a b k r) (s\<lparr>fs_world := w\<rparr>))))
      | DPlain a b specific k \<Rightarrow>
          Some (fs_put t (DDone a b k (case specific of Some r \<Rightarrow> r | None \<Rightarrow> fm_Returns m)) s)
      | _ \<Rightarrow> None)"

definition Invocations_next :: "nat \<Rightarrow> 'w fstate \<Rightarrow> 'w fstate option" where
  "Invocations_next t s =
     (case fs_threads s t of
        ICall \<Rightarrow> Some (fs_put t IHeld (s\<lparr>fs_inv_readers := Suc (fs_inv_readers s)\<rparr>))
      | IHeld \<Rightarrow>
          if fs_locked s then None
          else Some (fs_put t (IDone (FakeDecrypter_Invocations (fs_fake s))) (s\<lparr>fs_inv_readers := fs_inv_readers s - 1\<rparr>))
      | _ \<Rightarrow> None)"

definition other_next :: "nat \<Rightarrow> 'w fstate \<Rightarrow> 'w fstate option" where
  "other_next t s =
     (if fs_locked s then None
      else case fs_threads s t of
        OCount \<Rightarrow> Some (fs_put t (OCounted (FakeDecrypter_DecryptNameCallCount (fs_fake s))) s)
      | OArgs i \<Rightarrow> Some (fs_put t (OArgsDone (FakeDecrypter_DecryptNameArgsForCall (fs_fake s) i)) s)
      | OCalls stub \<Rightarrow> Some (fs_put t OSet (s\<lparr>fs_fake := FakeDecrypter_DecryptNameCalls stub (fs_fake s)\<rparr>))
      | OReturns r e \<Rightarrow> Some (fs_put t OSet (s\<lparr>fs_fake := FakeDecrypter_DecryptNameReturns r e (fs_fake s)\<rparr>))
      | OReturnsOnCall i r e \<Rightarrow> Some (fs_put t OSet (s\<lparr>fs_fake := FakeDecrypter_DecryptNameReturnsOnCall i r e (fs_fake s)\<rparr>))
      | _ \<Rightarrow> None)"

inductive fd_step :: "'w fstate \<Rightarrow> 'w fstate \<Rightarrow> bool" where
  step_DecryptName: "DecryptName_next t s = Some s' \<Longrightarrow> fd_step s s'"
| step_Invocations: "Invocations_next t s = Some s' \<Longrightarrow> fd_step s s'"
| step_other: "other_next t s = Some s' \<Longrightarrow> fd_step s s'"

text \<open>Threads that wait to start, those that change what the double answers, and those that have ended.\<close>

fun fpc_starts :: "'w fpc \<Rightarrow> bool" where
  "fpc_starts FNone = True"
| "fpc_starts (DCall a b) = True"
| "fpc_starts ICall = True"
| "fpc_starts OCount = True"
| "fpc_starts (OArgs i) = True"
| "fpc_starts (OCalls stub) = True"
| "fpc_starts (OReturns r e) = True"
| "fpc_starts (OReturnsOnCall i r e) = True"
| "fpc_starts _ = False"

fun fpc_sets :: "'w fpc \<Rightarrow> bool" where
  "fpc_sets (OCalls stub) = True"
| "fpc_sets (OReturns r e) = True"
| "fpc_sets (OReturnsOnCall i r e) = True"
| "fpc_sets _ = False"

fun fpc_ended :: "'w fpc \<Rightarrow> bool" where
  "fpc_ended FNone = True"
| "fpc_ended (DDone a b k r) = True"
| "fpc_ended (DPanic a b k) = True"
| "fpc_ended (IDone m) = True"
| "fpc_ended (OCounted n) = True"
| "fpc_ended (OArgsDone r) = True"
| "fpc_ended OSet = True"
| "fpc_ended _ = False"

text \<open>A new double, possibly set up, with its threads about to start.\<close>

definition fd_start :: "'w fstate \<Rightarrow> bool" where
  "fd_start s \<longleftrightarrow> FakeDecrypter_DecryptNameCallCount (fs_fake s) = 0 \<and>
     invoked (FakeDecrypter_Invocations (fs_fake s)) ''DecryptName'' = [] \<and>
     \<not> fs_locked s \<and> fs_inv_readers s = 0 \<and> (\<forall>t. fpc_starts (fs_threads s t))"

section \<open>Calls are counted\<close>

text \<open>The call a thread has recorded, and its index.\<close>

fun recorded_call :: "'w fpc \<Rightarrow> ((string \<times> bytes option) \<times> nat) option" where
  "recorded_call (DRecorded a b specific k) = Some ((a, b), k)"
| "recorded_call (DUnlocked a b specific k) = Some ((a, b), k)"
| "recorded_call (DStub a b k) = Some ((a, b), k)"
| "recorded_call (DPlain a b specific k) = Some ((a, b), k)"
| "recorded_call (DDone a b k r) = Some ((a, b), k)"
| "recorded_call (DPanic a b k) = Some ((a, b), k)"
| "recorded_call _ = None"

fun fpc_locks :: "'w fpc \<Rightarrow> bool" where
  "fpc_locks (DLocked a b) = True"
| "fpc_locks (DRecorded a b specific k) = True"
| "fpc_locks _ = False"

fun fpc_records :: "'w fpc \<Rightarrow> bool" where
  "fpc_records (DRecorded a b specific k) = True"
| "fpc_records _ = False"

lemma copy_arg_same [simp]: "copy_arg b = b"
  by (cases b) (simp_all add: copy_arg_def)

definition call_args :: "string \<times> bytes option \<Rightarrow> fake_arg list" where
  "call_args a = (case a of (name, iv) \<Rightarrow> [ArgString name, ArgBytes iv])"

text \<open>
  The invariant, over what it depends on: the call each thread has recorded, the threads that hold the
  mutex, the thread between the two parts of a record, the arguments and the invocations.
\<close>

definition counted_by ::
    "(nat \<Rightarrow> ('a \<times> nat) option) \<Rightarrow> (nat \<Rightarrow> bool) \<Rightarrow> (nat \<Rightarrow> bool) \<Rightarrow> bool \<Rightarrow> 'a list \<Rightarrow> 'a list \<Rightarrow> bool" where
  "counted_by rc lk rd locked args calls \<longleftrightarrow>
     (\<forall>t a k. rc t = Some (a, k) \<longrightarrow> k < length args \<and> args ! k = a) \<and>
     (\<forall>t t' a a' k. rc t = Some (a, k) \<longrightarrow> rc t' = Some (a', k) \<longrightarrow> t = t') \<and>
     (\<forall>k < length args. \<exists>t a. rc t = Some (a, k)) \<and>
     (\<forall>t. lk t \<longrightarrow> locked) \<and> (locked \<longrightarrow> (\<exists>t. lk t)) \<and>
     (\<forall>t t'. lk t \<longrightarrow> lk t' \<longrightarrow> t = t') \<and>
     (\<forall>t. rd t \<longrightarrow> lk t \<and> args \<noteq> [] \<and> (\<exists>a. rc t = Some (a, length args - 1))) \<and>
     calls = (if \<exists>t. rd t then butlast args else args)"

lemma counted_byI:
  assumes "\<And>t a k. rc t = Some (a, k) \<Longrightarrow> k < length args \<and> args ! k = a"
    and "\<And>t t' a a' k. rc t = Some (a, k) \<Longrightarrow> rc t' = Some (a', k) \<Longrightarrow> t = t'"
    and "\<And>k. k < length args \<Longrightarrow> \<exists>t a. rc t = Some (a, k)"
    and "\<And>t. lk t \<Longrightarrow> locked"
    and "locked \<Longrightarrow> \<exists>t. lk t"
    and "\<And>t t'. lk t \<Longrightarrow> lk t' \<Longrightarrow> t = t'"
    and "\<And>t. rd t \<Longrightarrow> lk t \<and> args \<noteq> [] \<and> (\<exists>a. rc t = Some (a, length args - 1))"
    and "calls = (if \<exists>t. rd t then butlast args else args)"
  shows "counted_by rc lk rd locked args calls"
  unfolding counted_by_def using assms by (intro conjI allI impI) blast+

lemma counted_byD:
  assumes "counted_by rc lk rd locked args calls"
  shows "rc t = Some (a, k) \<Longrightarrow> k < length args \<and> args ! k = a"
    and "rc t = Some (a, k) \<Longrightarrow> rc t' = Some (a', k) \<Longrightarrow> t = t'"
    and "k < length args \<Longrightarrow> \<exists>t a. rc t = Some (a, k)"
    and "lk t \<Longrightarrow> locked"
    and "lk t \<Longrightarrow> lk t' \<Longrightarrow> t = t'"
    and "rd t \<Longrightarrow> lk t \<and> args \<noteq> [] \<and> (\<exists>a. rc t = Some (a, length args - 1))"
    and "calls = (if \<exists>t. rd t then butlast args else args)"
    and "locked \<Longrightarrow> \<exists>t. lk t"
  using assms unfolding counted_by_def by blast+

lemma counted_by_lock:
  assumes "counted_by rc lk rd False args calls"
  shows "counted_by rc (lk(t := True)) rd True args calls"
  using assms by (auto simp: counted_by_def)

lemma counted_by_record:
  assumes inv: "counted_by rc lk rd locked args calls" and t: "lk t" "rc t = None"
  shows "counted_by (rc(t \<mapsto> (a, length args))) lk (rd(t := True)) locked (args @ [a]) calls"
proof (rule counted_byI)
  note D = counted_byD [OF inv]
  have none: "\<not> rd t'" for t'
    using D(5,6) t by (metis option.distinct(1))
  then have calls: "calls = args"
    using D(7) by meson
  show "k < length (args @ [a]) \<and> (args @ [a]) ! k = b" if "(rc(t \<mapsto> (a, length args))) t' = Some (b, k)" for t' b k
    using that D(1) [of t' b k] by (auto simp: nth_append split: if_splits)
  show "t1 = t2" if "(rc(t \<mapsto> (a, length args))) t1 = Some (b, k)" "(rc(t \<mapsto> (a, length args))) t2 = Some (b', k)" for t1 t2 b b' k
    using that D(2) [of t1 b k t2 b'] D(1) [of t1 b k] D(1) [of t2 b' k] by (auto split: if_splits)
  show "\<exists>t' a'. (rc(t \<mapsto> (a, length args))) t' = Some (a', k)" if len: "k < length (args @ [a])" for k
  proof (cases "k = length args")
    case True
    then show ?thesis
      by (intro exI [of _ t]) simp
  next
    case False
    then obtain t' a' where t': "rc t' = Some (a', k)"
      using len D(3) [of k] by auto
    then show ?thesis
      using t(2) by (intro exI [of _ t'] exI [of _ a']) auto
  qed
  show "locked" if "lk t1" for t1
    using D(4) that by blast
  show "\<exists>t1. lk t1" if "locked"
    using D(8) that by blast
  show "t1 = t2" if "lk t1" "lk t2" for t1 t2
    using D(5) that by blast
  show "lk t' \<and> args @ [a] \<noteq> [] \<and> (\<exists>b. (rc(t \<mapsto> (a, length args))) t' = Some (b, length (args @ [a]) - 1))"
    if "(rd(t := True)) t'" for t'
    using that none t(1) by (auto split: if_splits)
  show "calls = (if \<exists>t'. (rd(t := True)) t' then butlast (args @ [a]) else args @ [a])"
    using calls by auto
qed

lemma counted_by_unlock:
  assumes inv: "counted_by rc lk rd locked args calls" and t: "rd t" "rc t = Some (a, k)"
  shows "counted_by rc (lk(t := False)) (rd(t := False)) False args (calls @ [a])"
proof (rule counted_byI)
  note D = counted_byD [OF inv]
  have last: "args \<noteq> []" "k = length args - 1" "lk t" "args ! k = a"
    using D(1) [OF t(2)] D(6) [OF t(1)] t(2) by auto
  have "calls = butlast args"
    using D(7) t(1) by auto
  then have calls: "calls @ [a] = args"
    using last by (metis append_butlast_last_id last_conv_nth)
  have none: "\<not> (lk(t := False)) t'" "\<not> (rd(t := False)) t'" for t'
    using D(5) [OF last(3)] D(6) by auto
  show "calls @ [a] = (if \<exists>t'. (rd(t := False)) t' then butlast args else args)"
    using calls none(2) by presburger
  show "k < length args \<and> args ! k = b" if "rc t' = Some (b, k)" for t' b k
    using D(1) that by blast
  show "t1 = t2" if "rc t1 = Some (b, k)" "rc t2 = Some (b', k)" for t1 t2 b b' k
    using D(2) that by blast
  show "\<exists>t' a'. rc t' = Some (a', k)" if "k < length args" for k
    using D(3) that by blast
qed (use counted_byD(5,6) [OF inv] t(1) in \<open>auto split: if_splits\<close>)

text \<open>The steps change these things in four ways.\<close>

definition fd_counted :: "'w fstate \<Rightarrow> bool" where
  "fd_counted s \<longleftrightarrow> (\<exists>calls. invoked (fd_invocations (fs_fake s)) ''DecryptName'' = map call_args calls \<and>
     counted_by (recorded_call \<circ> fs_threads s) (fpc_locks \<circ> fs_threads s) (fpc_records \<circ> fs_threads s) (fs_locked s)
       (fm_ArgsForCall (fd_decryptName (fs_fake s))) calls)"

lemma comp_upd [simp]: "f \<circ> g(t := pc) = (f \<circ> g)(t := f pc)"
  by auto

lemma fs_put_simps [simp]:
  "fs_fake (fs_put t pc s) = fs_fake s" "fs_locked (fs_put t pc s) = fs_locked s" "fs_inv_readers (fs_put t pc s) = fs_inv_readers s"
  "fs_world (fs_put t pc s) = fs_world s" "fs_threads (fs_put t pc s) = (fs_threads s)(t := pc)"
  by (simp_all add: fs_put_def)

lemma DecryptName_next_counted:
  assumes "DecryptName_next t s = Some s'" and inv: "fd_counted s"
  shows "fd_counted s'"
proof -
  obtain calls where calls: "invoked (fd_invocations (fs_fake s)) ''DecryptName'' = map call_args calls"
    and counted: "counted_by (recorded_call \<circ> fs_threads s) (fpc_locks \<circ> fs_threads s) (fpc_records \<circ> fs_threads s) (fs_locked s)
       (fm_ArgsForCall (fd_decryptName (fs_fake s))) calls"
    using inv by (auto simp: fd_counted_def)
  note next_def = DecryptName_next_def Let_def
  have same: "(f \<circ> fs_threads s)(t := v) = f \<circ> fs_threads s" if "f (fs_threads s t) = v" for f :: "'a fpc \<Rightarrow> 'b" and v
    using that by auto
  show ?thesis
  proof (cases "fs_threads s t")
    case (DCall a b)
    then show ?thesis
      using assms(1) calls counted counted_by_lock [of _ "fpc_locks \<circ> fs_threads s" _ _ _ t]
      by (auto simp: next_def fd_counted_def same intro!: exI [of _ calls] split: if_splits)
  next
    case (DLocked a b)
    then show ?thesis
      using assms(1) calls counted_by_record [OF counted, of t "(a, b)"]
      by (auto simp: next_def fd_counted_def same fake_record_def fake_CallCount_def intro!: exI [of _ calls])
  next
    case (DRecorded a b specific k)
    then have "invoked (fd_invocations (fs_fake s')) ''DecryptName'' = map call_args (calls @ [(a, b)])"
      using assms(1) calls
      by (auto simp: next_def FakeDecrypter_recordInvocation_def fake_recordInvocation_def invoked_def call_args_def split: if_splits)
    with DRecorded show ?thesis
      using assms(1) counted_by_unlock [OF counted, of t "(a, b)" k]
      by (auto simp: next_def fd_counted_def same FakeDecrypter_recordInvocation_def intro!: exI [of _ "calls @ [(a, b)]"] split: if_splits)
  next
    case (DUnlocked a b specific k)
    then show ?thesis
      using assms(1) calls counted by (auto simp: next_def fd_counted_def same intro!: exI [of _ calls] split: option.splits)
  next
    case (DStub a b k)
    then show ?thesis
      using assms(1) calls counted by (auto simp: next_def fd_counted_def same intro!: exI [of _ calls] split: option.splits prod.splits)
  next
    case (DPlain a b specific k)
    then show ?thesis
      using assms(1) calls counted by (auto simp: next_def fd_counted_def same intro!: exI [of _ calls])
  qed (use assms(1) in \<open>simp_all add: next_def\<close>)
qed

lemma other_next_counted:
  assumes "Invocations_next t s = Some s' \<or> other_next t s = Some s'" and inv: "fd_counted s"
  shows "fd_counted s'"
proof -
  have same: "(f \<circ> fs_threads s)(t := v) = f \<circ> fs_threads s" if "f (fs_threads s t) = v" for f :: "'a fpc \<Rightarrow> 'b" and v
    using that by auto
  show ?thesis
    using assms
    by (auto simp: Invocations_next_def other_next_def fd_counted_def same FakeDecrypter_DecryptNameCalls_def fake_Calls_def
        FakeDecrypter_DecryptNameReturns_def fake_Returns_def FakeDecrypter_DecryptNameReturnsOnCall_def fake_ReturnsOnCall_def
        split: fpc.splits if_splits)
qed

lemma fd_step_counted: "fd_step s s' \<Longrightarrow> fd_counted s \<Longrightarrow> fd_counted s'"
  by (induction rule: fd_step.induct) (blast intro: DecryptName_next_counted other_next_counted)+

lemma fpc_starts_fresh:
  "fpc_starts pc \<Longrightarrow> recorded_call pc = None \<and> \<not> fpc_locks pc \<and> \<not> fpc_records pc"
  by (cases pc) simp_all

lemma fd_start_counted: "fd_start s \<Longrightarrow> fd_counted s"
  using fpc_starts_fresh
  by (fastforce simp: fd_start_def fd_counted_def counted_by_def FakeDecrypter_DecryptNameCallCount_def fake_CallCount_def
      FakeDecrypter_Invocations_def)

lemma fd_reach_counted: "fd_step\<^sup>*\<^sup>* s0 s \<Longrightarrow> fd_start s0 \<Longrightarrow> fd_counted s"
  by (induction rule: rtranclp_induct) (auto intro: fd_start_counted fd_step_counted)

section \<open>Calls get the results that were set up\<close>

text \<open>What a call of an index returns when nothing changes the set-up: the result of the stub, or the planned one.\<close>

definition fd_planned :: "'w fstate \<Rightarrow> nat \<Rightarrow> name_result" where
  "fd_planned s k =
     (case fm_ReturnsOnCall (fd_decryptName (fs_fake s)) (int k) of
        Some r \<Rightarrow> r | None \<Rightarrow> fm_Returns (fd_decryptName (fs_fake s)))"

fun fpc_fixed :: "'w fstate \<Rightarrow> 'w fpc \<Rightarrow> bool" where
  "fpc_fixed s0 (DRecorded a b specific k) = (specific = fm_ReturnsOnCall (fd_decryptName (fs_fake s0)) (int k))"
| "fpc_fixed s0 (DUnlocked a b specific k) = (specific = fm_ReturnsOnCall (fd_decryptName (fs_fake s0)) (int k))"
| "fpc_fixed s0 (DPlain a b specific k) =
     (fm_Stub (fd_decryptName (fs_fake s0)) = None \<and> specific = fm_ReturnsOnCall (fd_decryptName (fs_fake s0)) (int k))"
| "fpc_fixed s0 (DStub a b k) = (fm_Stub (fd_decryptName (fs_fake s0)) \<noteq> None)"
| "fpc_fixed s0 (DDone a b k r) =
     (case fm_Stub (fd_decryptName (fs_fake s0)) of None \<Rightarrow> r = fd_planned s0 k | Some stub \<Rightarrow> \<exists>w. r = fst (stub (a, b) w))"
| "fpc_fixed s0 (DPanic a b k) = False"
| "fpc_fixed s0 pc = (\<not> fpc_sets pc)"

definition fd_fixed :: "'w fstate \<Rightarrow> 'w fstate \<Rightarrow> bool" where
  "fd_fixed s0 s \<longleftrightarrow> (let m0 = fd_decryptName (fs_fake s0); m = fd_decryptName (fs_fake s) in
     fm_Stub m = fm_Stub m0 \<and> fm_Returns m = fm_Returns m0 \<and> fm_ReturnsOnCall m = fm_ReturnsOnCall m0 \<and>
     (\<forall>t. fpc_fixed s0 (fs_threads s t)))"

lemma fd_fixedE:
  assumes "fd_fixed s0 s"
  shows "fm_Stub (fd_decryptName (fs_fake s)) = fm_Stub (fd_decryptName (fs_fake s0))"
    and "fm_Returns (fd_decryptName (fs_fake s)) = fm_Returns (fd_decryptName (fs_fake s0))"
    and "fm_ReturnsOnCall (fd_decryptName (fs_fake s)) = fm_ReturnsOnCall (fd_decryptName (fs_fake s0))"
    and "fpc_fixed s0 (fs_threads s t)"
  using assms by (simp_all add: fd_fixed_def Let_def)

lemma fpc_fixed_not_sets: "fpc_fixed s0 pc \<Longrightarrow> \<not> fpc_sets pc"
  by (cases pc) simp_all

lemma DecryptName_next_fixed:
  assumes step: "DecryptName_next t s = Some s'" and inv: "fd_fixed s0 s"
  shows "fd_fixed s0 s'"
proof -
  note pc = fd_fixedE(4) [OF inv, of t] and D = fd_fixedE [OF inv]
  have put: "fd_fixed s0 (fs_put t q s1)"
    if "fs_threads s1 = fs_threads s" "fpc_fixed s0 q"
      "fm_Stub (fd_decryptName (fs_fake s1)) = fm_Stub (fd_decryptName (fs_fake s))"
      "fm_Returns (fd_decryptName (fs_fake s1)) = fm_Returns (fd_decryptName (fs_fake s))"
      "fm_ReturnsOnCall (fd_decryptName (fs_fake s1)) = fm_ReturnsOnCall (fd_decryptName (fs_fake s))" for q s1
    using that inv by (simp add: fd_fixed_def Let_def)
  show ?thesis
  proof (cases "fs_threads s t")
    case (DRecorded a b specific k)
    then show ?thesis
      using step pc by (auto simp: DecryptName_next_def Let_def FakeDecrypter_recordInvocation_def intro!: put split: if_splits)
  next
    case (DStub a b k)
    then obtain stub where stub: "fm_Stub (fd_decryptName (fs_fake s)) = Some stub"
      using pc D(1) by auto
    moreover have "\<exists>w. r = fst (stub (a, b) w)" if "stub (a, b) w0 = (r, w1)" for r w0 w1
      using that by (intro exI [of _ w0]) simp
    ultimately show ?thesis
      using step DStub D(1) by (auto simp: DecryptName_next_def Let_def intro!: put split: prod.splits)
  next
    case (DPlain a b specific k)
    then show ?thesis
      using step pc D(2) by (auto simp: DecryptName_next_def Let_def fd_planned_def intro!: put cong: option.case_cong)
  next
    case (DUnlocked a b specific k)
    then show ?thesis
      using step pc D(1) by (auto simp: DecryptName_next_def Let_def intro!: put split: option.splits)
  next
    case (DLocked a b)
    then show ?thesis
      using step D(3) by (auto simp: DecryptName_next_def Let_def fake_record_def fake_CallCount_def intro!: put)
  next
    case (DCall a b)
    then show ?thesis
      using step by (auto simp: DecryptName_next_def Let_def intro!: put split: if_splits)
  qed (use step in \<open>simp_all add: DecryptName_next_def Let_def\<close>)
qed

lemma other_next_fixed:
  assumes "Invocations_next t s = Some s' \<or> other_next t s = Some s'" and inv: "fd_fixed s0 s"
  shows "fd_fixed s0 s'"
proof -
  have "\<not> fpc_sets (fs_threads s t)"
    using fpc_fixed_not_sets [OF fd_fixedE(4) [OF inv]] .
  then show ?thesis
    using assms(1) inv by (cases "fs_threads s t") (auto simp: Invocations_next_def other_next_def fd_fixed_def Let_def split: if_splits)
qed

lemma fd_step_fixed: "fd_step s s' \<Longrightarrow> fd_fixed s0 s \<Longrightarrow> fd_fixed s0 s'"
  by (induction rule: fd_step.induct) (blast intro: DecryptName_next_fixed other_next_fixed)+

lemma fpc_starts_fixed: "fpc_starts pc \<Longrightarrow> \<not> fpc_sets pc \<Longrightarrow> fpc_fixed s0 pc"
  by (cases pc) simp_all

lemma fd_reach_fixed:
  assumes "fd_step\<^sup>*\<^sup>* s0 s" and "fd_start s0" and "\<And>t. \<not> fpc_sets (fs_threads s0 t)"
  shows "fd_fixed s0 s"
  using assms(1)
proof (induction rule: rtranclp_induct)
  case base
  show ?case
    using assms(2,3) by (simp add: fd_fixed_def fd_start_def fpc_starts_fixed)
qed (rule fd_step_fixed)

text \<open>
  C39: under every interleaving of calls, set-ups and observers the double counts every call once: a call
  that has returned has an index below the call count, no other call has it, \<^verbatim>\<open>DecryptNameArgsForCall\<close> gives
  its arguments, every index is that of a call, and, while no call is being recorded, \<^verbatim>\<open>Invocations\<close> lists the same
  calls in the same order. Unless the set-up changes on the way, the call of an index returns what
  \<^verbatim>\<open>DecryptNameReturnsOnCall\<close> or \<^verbatim>\<open>DecryptNameReturns\<close> set up for that index, or what the stub gives.
\<close>

theorem FakeDecrypter_counts_calls:
  assumes "fd_start s0" and "fd_step\<^sup>*\<^sup>* s0 s"
  shows "(\<forall>t a b k r. fs_threads s t = DDone a b k r \<longrightarrow>
        k < FakeDecrypter_DecryptNameCallCount (fs_fake s) \<and> FakeDecrypter_DecryptNameArgsForCall (fs_fake s) (int k) = Inr (a, b) \<and>
        (\<forall>t' a' b' r'. fs_threads s t' = DDone a' b' k r' \<longrightarrow> t' = t) \<and>
        ((\<forall>t. \<not> fpc_sets (fs_threads s0 t)) \<longrightarrow>
          (case fm_Stub (fd_decryptName (fs_fake s0)) of
             None \<Rightarrow> r = fd_planned s0 k | Some stub \<Rightarrow> \<exists>w. r = fst (stub (a, b) w)))) \<and>
      (\<forall>k < FakeDecrypter_DecryptNameCallCount (fs_fake s). \<exists>!t. \<exists>a. recorded_call (fs_threads s t) = Some (a, k)) \<and>
      ((\<forall>t. \<not> fpc_records (fs_threads s t)) \<longrightarrow>
        map Inr (invoked (FakeDecrypter_Invocations (fs_fake s)) ''DecryptName'') =
          map (\<lambda>k. map_sum id call_args (FakeDecrypter_DecryptNameArgsForCall (fs_fake s) (int k)))
            [0..<FakeDecrypter_DecryptNameCallCount (fs_fake s)])"
proof -
  let ?args = "fm_ArgsForCall (fd_decryptName (fs_fake s))"
  obtain calls where calls: "invoked (fd_invocations (fs_fake s)) ''DecryptName'' = map call_args calls"
    and inv: "counted_by (recorded_call \<circ> fs_threads s) (fpc_locks \<circ> fs_threads s) (fpc_records \<circ> fs_threads s) (fs_locked s) ?args calls"
    using fd_reach_counted [OF assms(2,1)] by (auto simp: fd_counted_def)
  note D = counted_byD [OF inv, unfolded comp_def]
  have count: "FakeDecrypter_DecryptNameCallCount (fs_fake s) = length ?args"
    by (simp add: FakeDecrypter_DecryptNameCallCount_def fake_CallCount_def)
  have args: "FakeDecrypter_DecryptNameArgsForCall (fs_fake s) (int k) = Inr (?args ! k)" if "k < length ?args" for k
    using that by (simp add: FakeDecrypter_DecryptNameArgsForCall_def fake_ArgsForCall_def)
  have "map Inr (map call_args ?args) = map (\<lambda>k. map_sum id call_args (FakeDecrypter_DecryptNameArgsForCall (fs_fake s) (int k)))
      [0..<length ?args]"
    by (rule nth_equalityI) (simp_all add: args)
  then have invs: "(\<forall>t. \<not> fpc_records (fs_threads s t)) \<longrightarrow>
        map Inr (invoked (FakeDecrypter_Invocations (fs_fake s)) ''DecryptName'') =
          map (\<lambda>k. map_sum id call_args (FakeDecrypter_DecryptNameArgsForCall (fs_fake s) (int k))) [0..<length ?args]"
    using calls D(7) by (auto simp: FakeDecrypter_Invocations_def)
  have "\<forall>k < length ?args. \<exists>!t. \<exists>a. recorded_call (fs_threads s t) = Some (a, k)"
    using D(2,3) by blast
  moreover have "k < length ?args \<and> FakeDecrypter_DecryptNameArgsForCall (fs_fake s) (int k) = Inr (a, b) \<and>
        (\<forall>t' a' b' r'. fs_threads s t' = DDone a' b' k r' \<longrightarrow> t' = t) \<and>
        ((\<forall>t. \<not> fpc_sets (fs_threads s0 t)) \<longrightarrow>
          (case fm_Stub (fd_decryptName (fs_fake s0)) of
             None \<Rightarrow> r = fd_planned s0 k | Some stub \<Rightarrow> \<exists>w. r = fst (stub (a, b) w)))"
    if fin: "fs_threads s t = DDone a b k r" for t a b k r
  proof (intro conjI allI impI)
    have rc: "recorded_call (fs_threads s t) = Some ((a, b), k)"
      using fin by simp
    show "k < length ?args"
      using D(1) [OF rc] by simp
    then show "FakeDecrypter_DecryptNameArgsForCall (fs_fake s) (int k) = Inr (a, b)"
      using D(1) [OF rc] args by simp
    show "t' = t" if "fs_threads s t' = DDone a' b' k r'" for t' a' b' r'
      using D(2) [of t' _ k t] that rc by simp
    show "case fm_Stub (fd_decryptName (fs_fake s0)) of
             None \<Rightarrow> r = fd_planned s0 k | Some stub \<Rightarrow> \<exists>w. r = fst (stub (a, b) w)"
      if "\<forall>t. \<not> fpc_sets (fs_threads s0 t)"
      using fd_fixedE(4) [OF fd_reach_fixed [OF assms(2,1)], of t] that fin by simp
  qed
  ultimately show ?thesis
    using invs unfolding count by blast
qed

text \<open>The run of a schedule; a thread that is blocked or has ended is passed over.\<close>

fun fd_run :: "nat list \<Rightarrow> 'w fstate \<Rightarrow> 'w fstate" where
  "fd_run [] s = s"
| "fd_run (t # ts) s =
     (case DecryptName_next t s of
        Some s' \<Rightarrow> fd_run ts s'
      | None \<Rightarrow>
          (case Invocations_next t s of
             Some s' \<Rightarrow> fd_run ts s'
           | None \<Rightarrow> (case other_next t s of Some s' \<Rightarrow> fd_run ts s' | None \<Rightarrow> fd_run ts s)))"

lemma fd_run_reach: "fd_step\<^sup>*\<^sup>* s (fd_run ts s)"
  by (induction ts s rule: fd_run.induct)
     (auto split: option.splits intro: converse_rtranclp_into_rtranclp fd_step.intros)

definition demo_fd :: "nat \<Rightarrow> unit fpc list \<Rightarrow> unit fstate" where
  "demo_fd n pcs =
     \<lparr>fs_fake = FakeDecrypter_DecryptNameReturnsOnCall 1 ''second'' None
        (FakeDecrypter_DecryptNameReturns ''other'' None FakeDecrypter_new),
      fs_locked = False, fs_inv_readers = 0, fs_world = (), fs_threads = (\<lambda>t. if t < n then pcs ! t else FNone)\<rparr>"

lemmas demo_fd_simps = demo_fd_def FakeDecrypter_DecryptNameReturnsOnCall_def FakeDecrypter_DecryptNameReturns_def FakeDecrypter_new_def
  fake_new_def fake_Returns_def fake_ReturnsOnCall_def DecryptName_next_def Invocations_next_def other_next_def Let_def
  fake_record_def fake_CallCount_def fs_put_def FakeDecrypter_recordInvocation_def fake_recordInvocation_def invoked_def

theorem FakeDecrypter_counts_calls_witness:
  "\<exists>s. FakeDecrypter_DecryptNameCallCount (fs_fake s) = 2 \<and> fs_threads s 0 = DDone ''a'' None 1 (''second'', None) \<and>
     FakeDecrypter_DecryptNameArgsForCall (fs_fake s) 1 = Inr (''a'', None) \<and>
     fd_step\<^sup>*\<^sup>* (demo_fd 2 [DCall ''a'' None, DCall ''b'' (Some [7])]) s"
proof -
  let ?start = "demo_fd 2 [DCall ''a'' None, DCall ''b'' (Some [7])]"
  let ?s = "fd_run [1, 0, 1, 1, 0, 0, 0, 0, 0] ?start"
  have start: "fd_start ?start"
    by (simp add: fd_start_def demo_fd_simps FakeDecrypter_DecryptNameCallCount_def FakeDecrypter_Invocations_def less_Suc_eq numeral_2_eq_2)
  have s: "fs_threads ?s 0 = DDone ''a'' None 1 (''second'', None)" "FakeDecrypter_DecryptNameCallCount (fs_fake ?s) = 2"
    by (simp_all add: demo_fd_simps FakeDecrypter_DecryptNameCallCount_def)
  have "FakeDecrypter_DecryptNameArgsForCall (fs_fake ?s) (int 1) = Inr (''a'', None)"
    using FakeDecrypter_counts_calls [OF start fd_run_reach, THEN conjunct1, rule_format, OF s(1)] by (rule conjunct1 [OF conjunct2])
  then show ?thesis
    using s fd_run_reach [where ts = "[1, 0, 1, 1, 0, 0, 0, 0, 0]" and s = ?start]
    by (intro exI [of _ ?s]) (simp only: of_nat_1)
qed

section \<open>Progress\<close>

text \<open>How many steps a thread has left.\<close>

fun fpc_rank :: "'w fpc \<Rightarrow> nat" where
  "fpc_rank (DCall a b) = 5"
| "fpc_rank (DLocked a b) = 4"
| "fpc_rank (DRecorded a b specific k) = 3"
| "fpc_rank (DUnlocked a b specific k) = 2"
| "fpc_rank (DStub a b k) = 1"
| "fpc_rank (DPlain a b specific k) = 1"
| "fpc_rank ICall = 2"
| "fpc_rank IHeld = 1"
| "fpc_rank pc = (if fpc_ended pc then 0 else 1)"

lemma fpc_rank_0: "fpc_rank pc = 0 \<longleftrightarrow> fpc_ended pc"
  by (cases pc) simp_all

lemma fd_next_rank:
  "DecryptName_next t s = Some s' \<or> Invocations_next t s = Some s' \<or> other_next t s = Some s' \<Longrightarrow>
     fs_threads s' = (fs_threads s)(t := fs_threads s' t) \<and> fpc_rank (fs_threads s' t) < fpc_rank (fs_threads s t)"
  by (cases "fs_threads s t")
     (auto simp: DecryptName_next_def Invocations_next_def other_next_def Let_def split: if_splits prod.splits option.splits)

lemma fd_step_rank:
  assumes "fd_step s s'"
  obtains t pc where "fs_threads s' = (fs_threads s)(t := pc)" and "fpc_rank pc < fpc_rank (fs_threads s t)"
  using assms by cases (metis fd_next_rank)+

text \<open>Without a thread in \<^verbatim>\<open>Invocations\<close> nobody reads the invocations, so that the mutexes cannot block each other.\<close>

definition fd_free :: "'w fstate \<Rightarrow> bool" where
  "fd_free s \<longleftrightarrow> fs_inv_readers s = 0 \<and> (\<forall>t. fs_threads s t \<noteq> ICall \<and> fs_threads s t \<noteq> IHeld)"

lemma fd_step_free: "fd_step s s' \<Longrightarrow> fd_free s \<Longrightarrow> fd_free s'"
  by (induction rule: fd_step.induct)
     (auto simp: DecryptName_next_def Invocations_next_def other_next_def Let_def fd_free_def
       split: fpc.splits if_splits prod.splits option.splits)

lemma fd_free_progress:
  assumes "fd_free s" and "fd_counted s" and "\<not> fpc_ended (fs_threads s t)"
  shows "\<exists>s'. fd_step s s'"
proof (cases "fs_locked s")
  case True
  then obtain t' where t': "fpc_locks (fs_threads s t')"
    using assms(2) by (auto simp: fd_counted_def dest: counted_byD(8))
  then have "\<exists>s'. DecryptName_next t' s = Some s'"
    using assms(1) by (cases "fs_threads s t'") (auto simp: DecryptName_next_def fd_free_def Let_def split: prod.splits)
  then show ?thesis
    by (blast intro: fd_step.intros)
next
  case False
  then have "(\<exists>s'. DecryptName_next t s = Some s') \<or> (\<exists>s'. other_next t s = Some s')"
    using assms(1,3) by (cases "fs_threads s t")
      (auto simp: DecryptName_next_def other_next_def fd_free_def Let_def split: prod.splits option.splits)
  then show ?thesis
    by (blast intro: fd_step.intros)
qed

lemma fpc_starts_not_held: "fpc_starts pc \<Longrightarrow> pc \<noteq> IHeld"
  by (cases pc) simp_all

lemma fd_steps_rank:
  assumes "(fd_step ^^ n) s0 s" and "finite T" and "\<And>t. t \<notin> T \<Longrightarrow> fpc_ended (fs_threads s0 t)"
  shows "n + (\<Sum>t\<in>T. fpc_rank (fs_threads s t)) \<le> (\<Sum>t\<in>T. fpc_rank (fs_threads s0 t)) \<and>
    (\<forall>t. t \<notin> T \<longrightarrow> fpc_ended (fs_threads s t))"
  using assms(1)
proof (induction n arbitrary: s)
  case (Suc n)
  then obtain s1 where s1: "(fd_step ^^ n) s0 s1" "fd_step s1 s"
    by auto
  obtain t pc where t: "fs_threads s = (fs_threads s1)(t := pc)" "fpc_rank pc < fpc_rank (fs_threads s1 t)"
    using fd_step_rank [OF s1(2)] .
  note IH = Suc.IH [OF s1(1)]
  have "t \<in> T"
    using IH t(2) by (metis fpc_rank_0 not_less_zero)
  then have "(\<Sum>u\<in>T. fpc_rank (fs_threads s u)) < (\<Sum>u\<in>T. fpc_rank (fs_threads s1 u))"
    using t assms(2) by (intro sum_strict_mono_ex1) auto
  then show ?case
    using IH t(1) \<open>t \<in> T\<close> by auto
qed (use assms(3) in auto)

text \<open>
  Without a thread in \<^verbatim>\<open>Invocations\<close>, every run of calls, set-ups and observers of the double is
  finite, with at most five steps for each thread, and it can only stop when all threads have ended.
\<close>

lemma FakeDecrypter_calls_end:
  assumes "fd_start s0" and "\<And>t. fs_threads s0 t \<noteq> ICall" and "finite {t. fs_threads s0 t \<noteq> FNone}"
    and "(fd_step ^^ n) s0 s"
  shows "n \<le> 5 * card {t. fs_threads s0 t \<noteq> FNone} \<and>
    ((\<nexists>s'. fd_step s s') \<longrightarrow> (\<forall>t. fpc_ended (fs_threads s t)))"
proof -
  let ?T = "{t. fs_threads s0 t \<noteq> FNone}"
  have reach: "fd_step\<^sup>*\<^sup>* s0 s"
    using assms(4) by (metis relpowp_imp_rtranclp)
  have free0: "fd_free s0"
    using assms(1,2) fpc_starts_not_held by (auto simp: fd_start_def fd_free_def)
  have free: "fd_free s"
    using reach by (induction rule: rtranclp_induct) (use free0 in \<open>auto intro: fd_step_free\<close>)
  have "fpc_rank pc \<le> 5" for pc :: "'a fpc"
    by (cases pc) simp_all
  then have "(\<Sum>t\<in>?T. fpc_rank (fs_threads s0 t)) \<le> 5 * card ?T"
    using sum_bounded_above [of ?T "\<lambda>t. fpc_rank (fs_threads s0 t)" 5] by simp
  moreover have "n + (\<Sum>t\<in>?T. fpc_rank (fs_threads s t)) \<le> (\<Sum>t\<in>?T. fpc_rank (fs_threads s0 t))"
    using fd_steps_rank [OF assms(4,3)] by simp
  ultimately show ?thesis
    using fd_free_progress [OF free fd_reach_counted [OF reach assms(1)]] by auto
qed

lemma FakeDecrypter_calls_end_witness:
  "\<exists>n s. (fd_step ^^ n) (demo_fd 1 [DCall ''a'' None]) s \<and> n \<le> 5 \<and> fpc_ended (fs_threads s 0)"
proof -
  let ?start = "demo_fd 1 [DCall ''a'' None]"
  let ?s = "fd_run [0, 0, 0, 0, 0] ?start"
  have threads: "{t. fs_threads ?start t \<noteq> FNone} = {0}"
    by (auto simp: demo_fd_def)
  have start: "fd_start ?start" "\<And>t. fs_threads ?start t \<noteq> ICall" "finite {t. fs_threads ?start t \<noteq> FNone}"
    by (simp_all add: threads) (simp_all add: fd_start_def demo_fd_simps FakeDecrypter_DecryptNameCallCount_def FakeDecrypter_Invocations_def)
  obtain n where n: "(fd_step ^^ n) ?start ?s"
    using fd_run_reach rtranclp_imp_relpowp by metis
  have "fpc_ended (fs_threads ?s 0)"
    by (simp add: demo_fd_simps)
  then show ?thesis
    using FakeDecrypter_calls_end [OF start n, THEN conjunct1] n unfolding threads by fastforce
qed

section \<open>Two faults of the generated code\<close>

text \<open>
  A call holds the mutex of its method when it waits for the mutex of the invocations, while
  \<^verbatim>\<open>Invocations\<close> holds the latter when it waits for the former.
\<close>

definition fd_deadlocked :: "nat \<Rightarrow> nat \<Rightarrow> 'w fstate \<Rightarrow> bool" where
  "fd_deadlocked t t' s \<longleftrightarrow> fs_locked s \<and> 0 < fs_inv_readers s \<and> fpc_records (fs_threads s t) \<and> fs_threads s t' = IHeld"

lemma fd_step_deadlocked:
  assumes "fd_step s s'" and "fd_deadlocked t t' s" and inv: "fd_counted s"
  shows "fd_deadlocked t t' s'"
proof -
  have own: "u = t" if "fpc_locks (fs_threads s u)" for u
  proof -
    have "fpc_locks (fs_threads s t)"
      using assms(2) by (cases "fs_threads s t") (simp_all add: fd_deadlocked_def)
    then show ?thesis
      using inv that by (auto simp: fd_counted_def dest: counted_byD(5))
  qed
  show ?thesis
    using assms(1)
  proof cases
    case (step_DecryptName u)
    then show ?thesis
      using assms(2) own [of u] by (cases "fs_threads s u") (auto simp: fd_deadlocked_def DecryptName_next_def Let_def split: if_splits prod.splits option.splits)
  next
    case (step_Invocations u)
    then show ?thesis
      using assms(2) by (cases "fs_threads s u") (auto simp: fd_deadlocked_def Invocations_next_def)
  next
    case (step_other u)
    then show ?thesis
      using assms(2) by (simp add: fd_deadlocked_def other_next_def)
  qed
qed

text \<open>
  C40: a call and \<^verbatim>\<open>Invocations\<close> can block each other for good: whatever else the threads do, from a new
  double with a thread about to call and another about to ask for the invocations, a state can be reached
  from which neither of the two ever ends.
\<close>

theorem FakeDecrypter_deadlock:
  assumes "fd_start s0" and "fs_threads s0 t = DCall a b" and "fs_threads s0 t' = ICall"
  shows "\<exists>s. fd_step\<^sup>*\<^sup>* s0 s \<and>
    (\<forall>s'. fd_step\<^sup>*\<^sup>* s s' \<longrightarrow> \<not> fpc_ended (fs_threads s' t) \<and> \<not> fpc_ended (fs_threads s' t'))"
proof -
  let ?s = "fd_run [t, t, t'] s0"
  have "t \<noteq> t'"
    using assms(2,3) by auto
  then have dead: "fd_deadlocked t t' ?s"
    using assms by (simp add: fd_start_def fd_deadlocked_def DecryptName_next_def Invocations_next_def Let_def split: prod.splits)
  have "fd_deadlocked t t' s' \<and> fd_counted s'" if "fd_step\<^sup>*\<^sup>* ?s s'" for s'
    using that
  proof (induction rule: rtranclp_induct)
    case base
    then show ?case
      using dead fd_reach_counted [OF fd_run_reach assms(1)] by blast
  next
    case (step s1 s2)
    then show ?case
      using fd_step_deadlocked fd_step_counted by blast
  qed
  moreover have "\<not> fpc_ended (fs_threads s' t) \<and> \<not> fpc_ended (fs_threads s' t')" if "fd_deadlocked t t' s'" for s'
    using that by (cases "fs_threads s' t") (simp_all add: fd_deadlocked_def)
  ultimately show ?thesis
    using fd_run_reach by blast
qed

theorem FakeDecrypter_deadlock_witness:
  "\<exists>s. fd_step\<^sup>*\<^sup>* (demo_fd 2 [DCall ''a'' None, ICall]) s \<and>
    (\<forall>s'. fd_step\<^sup>*\<^sup>* s s' \<longrightarrow> \<not> fpc_ended (fs_threads s' 0) \<and> \<not> fpc_ended (fs_threads s' 1))"
  by (rule FakeDecrypter_deadlock [of _ _ "''a''" None])
     (simp_all add: fd_start_def demo_fd_simps FakeDecrypter_DecryptNameCallCount_def FakeDecrypter_Invocations_def less_Suc_eq numeral_2_eq_2)

text \<open>A set-up between the test of the stub and its call makes the call one of a nil function.\<close>

lemma FakeDecrypter_stub_race:
  assumes "fd_start s0" and "fm_Stub (fd_decryptName (fs_fake s0)) = Some stub"
    and "fs_threads s0 t = DCall a b" and "fs_threads s0 t' = OReturns r e"
  shows "\<exists>s. fd_step\<^sup>*\<^sup>* s0 s \<and> fs_threads s t = DPanic a b 0"
proof -
  have "t \<noteq> t'"
    using assms(3,4) by auto
  then have "fs_threads (fd_run [t, t, t, t, t', t] s0) t = DPanic a b 0"
    using assms by (simp add: fd_start_def DecryptName_next_def Invocations_next_def other_next_def Let_def fake_record_def fake_CallCount_def
        FakeDecrypter_DecryptNameCallCount_def FakeDecrypter_recordInvocation_def FakeDecrypter_DecryptNameReturns_def fake_Returns_def)
  then show ?thesis
    using fd_run_reach by blast
qed

end
