(* ===== verification/SharedPools.thy ===== *)
theory SharedPools
  imports FileDecrypt
begin

text \<open>
  Concurrent calls of \<^verbatim>\<open>decryptFile\<close> share one content encrypter: its pools of slices, and the
  ciphertext, which is the array in the requester's cache that every reader of a file gets. Here byte arrays lie at
  addresses of a common memory, the pools of \<^verbatim>\<open>contentenc/bpool.go\<close> hold addresses, and
  \<^verbatim>\<open>decryptFile\<close>, \<^verbatim>\<open>DecryptBlocks\<close> and \<^verbatim>\<open>DecryptBlock\<close> are the steps of a thread: each access to a pool
  and each write to an array is one. The main result is that the calls do not disturb each other: every
  call ends with the result of the sequential \<open>decryptFile\<close>, the bytes it has handed out keep this value whatever the other
  calls do afterwards, and the cached ciphertext is never written.
\<close>

section \<open>The plaintext of a run of blocks\<close>

text \<open>What \<open>DecryptBlock\<close> and \<open>DecryptBlocks_loop\<close> compute, without pools and capacities.\<close>

definition block_plain :: "prims \<Rightarrow> CryptoCore \<Rightarrow> bytes \<Rightarrow> u64 \<Rightarrow> bytes \<Rightarrow> goerr + bytes" where
  "block_plain P cc fileID k c =
     (if c = replicate 4128 0 then Inr (replicate 4096 0)
      else if length c < 16 then Inl (Errorf ''Block is too short'' [])
      else if take 16 c = replicate 16 0 then Inl (Errorf ''all-zero nonce'' [])
      else case AEAD_Open P (AEADCipher cc) (take 16 c) (drop 16 c) (block_ad k (Some fileID)) of
        Inr plain \<Rightarrow> Inr plain
      | Inl (Err e) \<Rightarrow> Inl e
      | Inl _ \<Rightarrow> Inl IoEOF)"

text \<open>The first error, or what is known so far followed by the rest.\<close>

definition prepend :: "bytes \<Rightarrow> goerr + bytes \<Rightarrow> goerr + bytes" where
  "prepend b r = map_sum id (\<lambda>q. b @ q) r"

function run_plain :: "prims \<Rightarrow> CryptoCore \<Rightarrow> bytes \<Rightarrow> u64 \<Rightarrow> bytes \<Rightarrow> goerr + bytes" where
  "run_plain P cc fileID k c =
     (if c = [] then Inr []
      else case block_plain P cc fileID k (take 4128 c) of
        Inl e \<Rightarrow> Inl e
      | Inr p \<Rightarrow> prepend p (run_plain P cc fileID (k + 1) (drop 4128 c)))"
  by pat_completeness auto
termination
  by (relation "measure (\<lambda>(P, cc, fileID, k, c). length c)") auto

declare run_plain.simps [simp del]

lemma prepend_simps [simp]: "prepend b (Inl e) = Inl e" "prepend b (Inr q) = Inr (b @ q)" "prepend [] r = r"
  by (simp_all add: prepend_def) (cases r; simp)

lemma prepend_prepend [simp]: "prepend a (prepend b r) = prepend (a @ b) r"
  by (cases r) simp_all

lemma tree_enc_fields:
  assumes "tree_enc cc be"
  shows "enc_ok cc be" "cryptoCore be = Some cc" "IVLen cc = 16" "unat (plainBS be) = 4096" "unat (cipherBS be) = 4128"
    "allZeroBlock be = replicate 4128 0" "allZeroNonce be = replicate 16 0" "\<not> forceDecode be" "sliceLen (PReqPool be) = 135168"
    "sliceLen (pBlockPool be) = 4096"
  using tree_enc_sizes [OF assms] assms by (auto simp: tree_enc_def enc_ok_def pools_ok_def)

lemma block_plain_length:
  assumes "core_aead P cc" "IVLen cc = 16" "block_plain P cc fileID k c = Inr p" "length c \<le> 4128"
  shows "length p \<le> 4096"
proof (cases "c = replicate 4128 0")
  case True
  then have "p = replicate 4096 0"
    using assms(3) by (simp add: block_plain_def)
  then show ?thesis
    by (simp only: length_replicate)
next
  case False
  then have len: "length (take 16 c) = IVLen cc"
    and opened: "AEAD_Open P (AEADCipher cc) (take 16 c) (drop 16 c) (block_ad k (Some fileID)) = Inr p"
    using assms(2,3) by (auto simp: block_plain_def split: if_splits sum.splits fault.splits)
  then have "length (drop 16 c) = length p + AuthTagLen"
    by (metis aead.openE [OF assms(1) len] sum.inject(2) sum.distinct(1))
  then show ?thesis
    using assms(4) by (simp add: AuthTagLen_def)
qed

lemma DecryptBlock_plain:
  assumes be: "tree_enc cc be" and cipher: "core_aead P cc" and fid: "fid_ok (Some fileID)"
    and c: "0 < length (sdata c)" "length (sdata c) \<le> 4128"
  obtains s err be' where "DecryptBlock P be c k (Some fileID) = Inr (s, err, be')" "tree_enc cc be'"
    "block_plain P cc fileID k (sdata c) = (case err of Some e \<Rightarrow> Inl e | None \<Rightarrow> Inr (sdata s))"
    "err = None \<Longrightarrow> scap s = 4096"
proof -
  note f = tree_enc_fields [OF be]
  obtain s err be' where d: "DecryptBlock P be c k (Some fileID) = Inr (s, err, be')"
    "err = None \<Longrightarrow> scap s = unat (plainBS be)" "enc_ok cc be'" "same_params be be'"
    using DecryptBlock_total [OF f(1) cipher fid c(1), of k] c(2) f(5) by metis
  obtain pool where pool: "bPool_Get (pBlockPool be) = Inr (unat (plainBS be), pool)"
    using f(1) by (rule pBlockPool_Get)
  have "block_plain P cc fileID k (sdata c) = (case err of Some e \<Rightarrow> Inl e | None \<Rightarrow> Inr (sdata s))"
    using d(1) c(1) f(2-7) pool concatAD_ok [OF fid, of k]
    by (auto simp: DecryptBlock_def block_plain_def Let_def make_slice_def split: if_splits sum.splits fault.splits)
  then show thesis
    using that d f(4) tree_enc_same_params [OF be d(4,3)] by simp
qed

lemma DecryptBlocks_loop_plain:
  assumes "tree_enc cc be" "core_aead P cc" "fid_ok (Some fileID)"
  shows "\<exists>out err be'. DecryptBlocks_loop P be cBuf k (Some fileID) pBuf None = Inr (out, err, be') \<and>
      prepend (sdata pBuf) (run_plain P cc fileID k (sdata cBuf)) = (case err of Some e \<Rightarrow> Inl e | None \<Rightarrow> Inr (sdata out))"
  using assms(1)
proof (induction "length (sdata cBuf)" arbitrary: be cBuf k pBuf rule: less_induct)
  case less
  note f = tree_enc_fields [OF less.prems] and n = enc_ok_cipherBS [OF tree_enc_fields(1) [OF less.prems]]
  note unfold = DecryptBlocks_loop.simps [of P be cBuf k "Some fileID" pBuf None]
    run_plain.simps [of P cc fileID k "sdata cBuf"]
  show ?case
  proof (cases "sdata cBuf = []")
    case True
    then show ?thesis
      unfolding unfold by simp
  next
    case False
    let ?c = "cBuf\<lparr>sdata := take 4128 (sdata cBuf)\<rparr>"
    let ?rest = "\<lparr>sdata = drop 4128 (sdata cBuf), scap = scap cBuf - 4128\<rparr>"
    have "0 < length (sdata ?c)" "length (sdata ?c) \<le> 4128"
      using False by simp_all
    then obtain s err be1 where d: "DecryptBlock P be ?c k (Some fileID) = Inr (s, err, be1)" "tree_enc cc be1"
      "block_plain P cc fileID k (sdata ?c) = (case err of Some e \<Rightarrow> Inl e | None \<Rightarrow> Inr (sdata s))"
      "err = None \<Longrightarrow> scap s = 4096"
      using DecryptBlock_plain [OF less.prems assms(2,3), of ?c k] by blast
    show ?thesis
    proof (cases err)
      case (Some e)
      then show ?thesis
        unfolding unfold using False n d f(5,8) by (simp add: Let_def)
    next
      case None
      have "scap s = unat (plainBS be1)"
        using d(4) None tree_enc_fields(4) [OF d(2)] by simp
      with tree_enc_fields(1) [OF d(2)] obtain pool where pool: "bPool_Put (pBlockPool be1) s = Inr pool"
        "enc_ok cc (be1\<lparr>pBlockPool := pool\<rparr>)" "same_params be1 (be1\<lparr>pBlockPool := pool\<rparr>)"
        by (rule pBlockPool_Put)
      have te: "tree_enc cc (be1\<lparr>pBlockPool := pool\<rparr>)"
        using d(2) pool(3,2) by (rule tree_enc_same_params)
      have "length (sdata ?rest) < length (sdata cBuf)"
        using False by simp
      then obtain out err' be' where r:
        "DecryptBlocks_loop P (be1\<lparr>pBlockPool := pool\<rparr>) ?rest (k + 1) (Some fileID) (buffer_Write pBuf (sdata s)) None
           = Inr (out, err', be')"
        "prepend (sdata (buffer_Write pBuf (sdata s))) (run_plain P cc fileID (k + 1) (sdata ?rest)) =
           (case err' of Some e \<Rightarrow> Inl e | None \<Rightarrow> Inr (sdata out))"
        using less.hyps [OF _ te, of ?rest "k + 1" "buffer_Write pBuf (sdata s)"] by blast
      then show ?thesis
        unfolding unfold using False n d(1,3) None pool(1) f(5) by (simp add: Let_def)
    qed
  qed
qed

text \<open>The result of the sequential \<open>decryptFile\<close>, in terms of \<open>run_plain\<close>; it does not depend on the pools.\<close>

lemma decryptFile_plain:
  assumes be: "tree_enc cc be" and cipher: "core_aead P cc" and len: "18 < length (sdata f)" "length (sdata f) < 2 ^ 62"
    and n: "CipherSizeToPlainSize be (word_of_nat (length (sdata f))) = Inr n" "n \<noteq> 0"
    and h: "ParseHeader (take 18 (sdata f)) = Inr h"
  shows "\<exists>be'. decryptFile P be f = Inr (run_plain P cc (hID h) 0 (drop 18 (sdata f)), be')"
    and "run_plain P cc (hID h) 0 (drop 18 (sdata f)) = Inr plain \<Longrightarrow> length plain = unat n"
proof -
  let ?c = "\<lparr>sdata = drop 18 (sdata f), scap = scap f - 18\<rparr>"
  note fid = ParseHeader_fid [OF h]
  obtain out err be' be'' where d: "DecryptBlocks P be ?c 0 (Some (hID h)) = Inr (out, err, be')"
    "decryptFile P be f = Inr (case err of Some e \<Rightarrow> Inl e | None \<Rightarrow> Inr (sdata out), be'')"
    "err = None \<longrightarrow> length (sdata out) = unat n"
    using decryptFile_result [OF be cipher len n h] by metis
  obtain pool where pool: "DecryptBlocks P be ?c 0 (Some (hID h)) =
      DecryptBlocks_loop P (be\<lparr>PReqPool := pool\<rparr>) ?c 0 (Some (hID h)) \<lparr>sdata = [], scap = sliceLen (PReqPool be)\<rparr> None"
    "enc_ok cc (be\<lparr>PReqPool := pool\<rparr>)" "same_params be (be\<lparr>PReqPool := pool\<rparr>)"
    using DecryptBlocks_unfold [OF tree_enc_fields(1) [OF be]] by metis
  have "tree_enc cc (be\<lparr>PReqPool := pool\<rparr>)"
    using be pool(3,2) by (rule tree_enc_same_params)
  from DecryptBlocks_loop_plain [OF this cipher fid, of ?c 0 "\<lparr>sdata = [], scap = sliceLen (PReqPool be)\<rparr>"]
  have run: "run_plain P cc (hID h) 0 (drop 18 (sdata f)) = (case err of Some e \<Rightarrow> Inl e | None \<Rightarrow> Inr (sdata out))"
    using d(1) unfolding pool(1) by auto
  show "\<exists>be'. decryptFile P be f = Inr (run_plain P cc (hID h) 0 (drop 18 (sdata f)), be')"
    using d(2) unfolding run by blast
  show "length plain = unat n" if "run_plain P cc (hID h) 0 (drop 18 (sdata f)) = Inr plain"
    using that d(3) unfolding run by (cases err) simp_all
qed

section \<open>The shared memory\<close>

text \<open>
  Arrays at addresses, the next unused address, and the arrays in the pools. The content of an array
  is as long as its capacity.
\<close>

datatype pool_id = BlockPool | ReqPool

record shared =
  sh_mem :: "nat \<Rightarrow> bytes"
  sh_next :: nat
  sh_pool :: "pool_id \<Rightarrow> nat list"

definition pool_size :: "ContentEnc \<Rightarrow> pool_id \<Rightarrow> nat" where
  "pool_size be i = (case i of BlockPool \<Rightarrow> sliceLen (pBlockPool be) | ReqPool \<Rightarrow> sliceLen (PReqPool be))"

text \<open>A new array with the given content.\<close>

definition sh_make :: "bytes \<Rightarrow> shared \<Rightarrow> shared" where
  "sh_make bs m = m\<lparr>sh_mem := (sh_mem m)(sh_next m := bs), sh_next := Suc (sh_next m)\<rparr>"

definition sh_write :: "nat \<Rightarrow> bytes \<Rightarrow> shared \<Rightarrow> shared" where
  "sh_write a bs m = m\<lparr>sh_mem := (sh_mem m)(a := bs)\<rparr>"

text \<open>
  \<^verbatim>\<open>sync.Pool\<close> hands out any of its slices, or calls \<^verbatim>\<open>New\<close>, which it may do also while it has some; it may forget
  slices at any time.
\<close>

inductive sh_Get :: "ContentEnc \<Rightarrow> pool_id \<Rightarrow> shared \<Rightarrow> nat \<Rightarrow> shared \<Rightarrow> bool" for be i m where
  get_pooled: "a \<in> set (sh_pool m i) \<Longrightarrow> sh_Get be i m a (m\<lparr>sh_pool := (sh_pool m)(i := remove1 a (sh_pool m i))\<rparr>)"
| get_new: "sh_Get be i m (sh_next m) (sh_make (replicate (pool_size be i) 0) m)"

definition sh_Put :: "pool_id \<Rightarrow> nat \<Rightarrow> shared \<Rightarrow> shared" where
  "sh_Put i a m = m\<lparr>sh_pool := (sh_pool m)(i := a # sh_pool m i)\<rparr>"

text \<open>\<^verbatim>\<open>buffer_Write\<close> on a slice at an address: in place, or in a larger array.\<close>

definition sh_append :: "nat \<times> nat \<Rightarrow> bytes \<Rightarrow> shared \<Rightarrow> (nat \<times> nat) \<times> shared" where
  "sh_append buf bs m =
     (case buf of (a, n) \<Rightarrow>
        if n + length bs \<le> length (sh_mem m a) then ((a, n + length bs), sh_write a (copy_at (sh_mem m a) n bs) m)
        else ((sh_next m, n + length bs),
              sh_make (take n (sh_mem m a) @ bs @ replicate (2 * length (sh_mem m a) - n) 0) m))"

definition sh_bytes :: "shared \<Rightarrow> nat \<times> nat \<Rightarrow> bytes" where
  "sh_bytes m buf = (case buf of (a, n) \<Rightarrow> take n (sh_mem m a))"

section \<open>A call of decryptFile\<close>

text \<open>
  What a call keeps while it decrypts: the file's array, how much of it has been decrypted, the number of the next
  block, the file ID, the size to announce, and the request buffer.
\<close>

record dframe =
  df_file :: nat
  df_off :: nat
  df_no :: u64
  df_id :: bytes
  df_size :: u64
  df_buf :: "nat \<times> nat"

datatype dpc =
    SNone
  | SStart nat
  | SReq dframe
  | SLoop dframe
  | SGet dframe
  | SOpen dframe nat
  | SWrite dframe "nat \<times> nat"
  | SPut dframe nat
  | SEnd u64 "nat \<times> nat"
  | SCopy "nat \<times> nat" "nat \<times> nat"
  | SBack nat "nat \<times> nat"
  | SDone "goerr + nat \<times> nat"
  | SFail fault

text \<open>The first part of \<^verbatim>\<open>decryptFile\<close>, which only reads the file.\<close>

definition file_start :: "ContentEnc \<Rightarrow> nat \<Rightarrow> bytes \<Rightarrow> dpc" where
  "file_start be fa fileBytes =
     (case CipherSizeToPlainSize be (word_of_nat (length fileBytes)) of
        Inl f \<Rightarrow> SFail f
      | Inr plainLength \<Rightarrow>
      case readFileID fileBytes of
        Inl (Err e) \<Rightarrow> SDone (Inl e)
      | Inl f \<Rightarrow> SFail f
      | Inr fileID \<Rightarrow>
      case ExplodePlainRange be 0 plainLength of
        Inl f \<Rightarrow> SFail f
      | Inr [] \<Rightarrow> SFail (Panic IndexOutOfRange)
      | Inr (b0 # bs) \<Rightarrow>
      case JointCiphertextRange b0 (b0 # bs) of
        Inl f \<Rightarrow> SFail f
      | Inr (alignedOffset, _) \<Rightarrow>
      if unat alignedOffset > length fileBytes then SFail (Panic SliceOutOfRange)
      else SReq \<lparr>df_file = fa, df_off = unat alignedOffset, df_no = BlockNo b0, df_id = fileID, df_size = plainLength,
                 df_buf = (0, 0)\<rparr>)"

text \<open>
  The start of an iteration of \<^verbatim>\<open>DecryptBlocks\<close> and of \<^verbatim>\<open>DecryptBlock\<close>, up to the access to the block pool; a hole in
  the file is a new array of zeros. As in \<open>DecryptBlocks_loop\<close>, a block size of 0 would give the empty block
  back to the pool forever.
\<close>

definition cur_block :: "ContentEnc \<Rightarrow> shared \<Rightarrow> dframe \<Rightarrow> bytes" where
  "cur_block be m fr = take (unat (cipherBS be)) (drop (df_off fr) (sh_mem m (df_file fr)))"

definition block_start :: "ContentEnc \<Rightarrow> dframe \<Rightarrow> shared \<Rightarrow> dpc \<times> shared" where
  "block_start be fr m =
     (let c = cur_block be m fr in
      if drop (df_off fr) (sh_mem m (df_file fr)) = [] then (SEnd (df_size fr) (df_buf fr), m)
      else if sint (cipherBS be) < 0 then (SFail (Panic SliceOutOfRange), m)
      else if c = []
      then (SFail (if length (sh_mem m (df_file fr)) - df_off fr = pool_size be BlockPool then Hang
                   else Panic (LogPanic ''wrong len=%d, want=%d'')), m)
      else if c = allZeroBlock be
      then (SWrite fr (sh_next m, unat (plainBS be)), sh_make (replicate (unat (plainBS be)) 0) m)
      else case cryptoCore be of
        None \<Rightarrow> (SFail (Panic NilDeref), m)
      | Some cc \<Rightarrow>
          if length c < IVLen cc then (SDone (Inl (Errorf ''Block is too short'' [])), m)
          else if take (IVLen cc) c = allZeroNonce be then (SDone (Inl (Errorf ''all-zero nonce'' [])), m)
          else (SGet fr, m))"

text \<open>
  The cipher opens a block into the array it is given, if that is large enough. When it fails the array is
  dropped; with \<open>forceDecode\<close> an authentication failure would be passed over, and the pool refuses the nil slice of the
  block.
\<close>

definition block_open :: "prims \<Rightarrow> ContentEnc \<Rightarrow> dframe \<Rightarrow> nat \<Rightarrow> shared \<Rightarrow> dpc \<times> shared" where
  "block_open P be fr pa m =
     (let c = cur_block be m fr in
      case cryptoCore be of
        None \<Rightarrow> (SFail (Panic NilDeref), m)
      | Some cc \<Rightarrow>
      case concatAD (df_no fr) (Some (df_id fr)) of
        Inl f \<Rightarrow> (SFail f, m)
      | Inr aData \<Rightarrow>
      case AEAD_Open P (AEADCipher cc) (take (IVLen cc) c) (drop (IVLen cc) c) aData of
        Inl (Err e) \<Rightarrow>
          (if forceDecode be \<and> e = ErrAuth then SFail (Panic (LogPanic ''wrong len=%d, want=%d'')) else SDone (Inl e), m)
      | Inl f \<Rightarrow> (SFail f, m)
      | Inr plain \<Rightarrow>
          if length plain \<le> length (sh_mem m pa)
          then (SWrite fr (pa, length plain), sh_write pa (copy_at (sh_mem m pa) 0 plain) m)
          else (SWrite fr (sh_next m, length plain), sh_make plain m))"

text \<open>The test of a slice that goes back to its pool.\<close>

definition put_back :: "ContentEnc \<Rightarrow> pool_id \<Rightarrow> nat \<Rightarrow> dpc \<Rightarrow> shared \<Rightarrow> dpc \<times> shared" where
  "put_back be i a pc m =
     (if length (sh_mem m a) \<noteq> pool_size be i then (SFail (Panic (LogPanic ''wrong len=%d, want=%d'')), m)
      else (pc, sh_Put i a m))"

definition next_block :: "ContentEnc \<Rightarrow> dframe \<Rightarrow> dframe" where
  "next_block be fr = fr\<lparr>df_off := df_off fr + unat (cipherBS be), df_no := df_no fr + 1\<rparr>"

definition big_enough :: "shared \<Rightarrow> nat \<Rightarrow> bool" where
  "big_enough m a \<longleftrightarrow> length (sh_mem m a) > unat (MAX_KERNEL_WRITE + DefaultBS)"

inductive call_step :: "prims \<Rightarrow> ContentEnc \<Rightarrow> dpc \<Rightarrow> shared \<Rightarrow> dpc \<Rightarrow> shared \<Rightarrow> bool" for P be where
  call_start: "call_step P be (SStart fa) m (file_start be fa (sh_mem m fa)) m"
| call_req: "sh_Get be ReqPool m a m' \<Longrightarrow> length (sh_mem m' a) = pool_size be ReqPool \<Longrightarrow>
    call_step P be (SReq fr) m (SLoop (fr\<lparr>df_buf := (a, 0)\<rparr>)) m'"
| call_req_panic: "sh_Get be ReqPool m a m' \<Longrightarrow> length (sh_mem m' a) \<noteq> pool_size be ReqPool \<Longrightarrow>
    call_step P be (SReq fr) m (SFail (Panic (LogPanic ''wrong len=%d, want=%d''))) m'"
| call_block: "block_start be fr m = (pc, m') \<Longrightarrow> call_step P be (SLoop fr) m pc m'"
| call_get: "sh_Get be BlockPool m a m' \<Longrightarrow> length (sh_mem m' a) = pool_size be BlockPool \<Longrightarrow>
    call_step P be (SGet fr) m (SOpen fr a) m'"
| call_get_panic: "sh_Get be BlockPool m a m' \<Longrightarrow> length (sh_mem m' a) \<noteq> pool_size be BlockPool \<Longrightarrow>
    call_step P be (SGet fr) m (SFail (Panic (LogPanic ''wrong len=%d, want=%d''))) m'"
| call_open: "block_open P be fr pa m = (pc, m') \<Longrightarrow> call_step P be (SOpen fr pa) m pc m'"
| call_write: "sh_append (df_buf fr) (sh_bytes m p) m = (buf, m') \<Longrightarrow>
    call_step P be (SWrite fr p) m (SPut (fr\<lparr>df_buf := buf\<rparr>) (fst p)) m'"
| call_put: "put_back be BlockPool pa (SLoop (next_block be fr)) m = (pc, m') \<Longrightarrow> call_step P be (SPut fr pa) m pc m'"
| call_return: "big_enough m (fst buf) \<Longrightarrow> call_step P be (SEnd n buf) m (SDone (Inr buf)) m"
| call_make: "\<not> big_enough m (fst buf) \<Longrightarrow>
    call_step P be (SEnd n buf) m (SCopy buf (sh_next m, unat n)) (sh_make (replicate (unat n) 0) m)"
| call_copy: "call_step P be (SCopy buf out) m (SBack (fst buf) out)
    (sh_write (fst out) (copy_at (sh_mem m (fst out)) 0 (sh_bytes m buf)) m)"
| call_back: "put_back be ReqPool a (SDone (Inr out)) m = (pc, m') \<Longrightarrow> call_step P be (SBack a out) m pc m'"

text \<open>Calls at the same time, and the pools' forgetting.\<close>

type_synonym dsys = "(nat \<Rightarrow> dpc) \<times> shared"

inductive dec_step :: "prims \<Rightarrow> ContentEnc \<Rightarrow> nat option \<Rightarrow> dsys \<Rightarrow> dsys \<Rightarrow> bool" for P be where
  dec_call: "call_step P be (th t) m pc m' \<Longrightarrow> dec_step P be (Some t) (th, m) (th(t := pc), m')"
| dec_forget: "a \<in> set (sh_pool m i) \<Longrightarrow>
    dec_step P be None (th, m) (th, m\<lparr>sh_pool := (sh_pool m)(i := remove1 a (sh_pool m i))\<rparr>)"

text \<open>A run, with the calls that took the steps.\<close>

inductive dec_run :: "prims \<Rightarrow> ContentEnc \<Rightarrow> dsys \<Rightarrow> nat option list \<Rightarrow> dsys \<Rightarrow> bool" for P be s where
  dec_refl: "dec_run P be s [] s"
| dec_snoc: "dec_run P be s ls s' \<Longrightarrow> dec_step P be l s' s'' \<Longrightarrow> dec_run P be s (ls @ [l]) s''"

section \<open>Every array has one owner\<close>

fun owned :: "dpc \<Rightarrow> nat list" where
  "owned (SLoop fr) = [fst (df_buf fr)]"
| "owned (SGet fr) = [fst (df_buf fr)]"
| "owned (SOpen fr pa) = [fst (df_buf fr), pa]"
| "owned (SWrite fr p) = [fst (df_buf fr), fst p]"
| "owned (SPut fr pa) = [fst (df_buf fr), pa]"
| "owned (SEnd n buf) = [fst buf]"
| "owned (SCopy buf out) = [fst buf, fst out]"
| "owned (SBack a out) = [a, fst out]"
| "owned (SDone (Inr out)) = [fst out]"
| "owned _ = []"

definition pool_arrays :: "shared \<Rightarrow> nat list" where
  "pool_arrays m = sh_pool m BlockPool @ sh_pool m ReqPool"

definition separated :: "nat set \<Rightarrow> dsys \<Rightarrow> bool" where
  "separated F s \<longleftrightarrow> (case s of (th, m) \<Rightarrow>
     (\<forall>t. distinct (owned (th t) @ pool_arrays m)) \<and>
     (\<forall>t t'. t \<noteq> t' \<longrightarrow> set (owned (th t)) \<inter> set (owned (th t')) = {}) \<and>
     (\<forall>t. \<forall>a \<in> set (owned (th t)). a < sh_next m \<and> a \<notin> F) \<and>
     (\<forall>a \<in> set (pool_arrays m). a < sh_next m \<and> a \<notin> F) \<and> (\<forall>a \<in> F. a < sh_next m))"

text \<open>A call only writes to arrays that it owns, takes them from the pools or makes them new.\<close>

definition call_frame :: "dpc \<Rightarrow> shared \<Rightarrow> dpc \<Rightarrow> shared \<Rightarrow> bool" where
  "call_frame pc m pc' m' \<longleftrightarrow>
     sh_next m \<le> sh_next m' \<and>
     (\<forall>a < sh_next m. a \<notin> set (owned pc) \<longrightarrow> sh_mem m' a = sh_mem m a) \<and>
     (distinct (owned pc @ pool_arrays m) \<longrightarrow> (\<forall>a \<in> set (owned pc @ pool_arrays m). a < sh_next m) \<longrightarrow>
       distinct (owned pc' @ pool_arrays m')) \<and>
     set (owned pc' @ pool_arrays m') \<subseteq> set (owned pc @ pool_arrays m) \<union> {sh_next m..<sh_next m'}"

lemma sh_simps [simp]:
  "sh_mem (sh_make bs m) = (sh_mem m)(sh_next m := bs)" "sh_next (sh_make bs m) = Suc (sh_next m)" "sh_pool (sh_make bs m) = sh_pool m"
  "sh_mem (sh_write a bs m) = (sh_mem m)(a := bs)" "sh_next (sh_write a bs m) = sh_next m" "sh_pool (sh_write a bs m) = sh_pool m"
  "sh_mem (sh_Put i a m) = sh_mem m" "sh_next (sh_Put i a m) = sh_next m"
  "pool_arrays (sh_make bs m) = pool_arrays m" "pool_arrays (sh_write a bs m) = pool_arrays m"
  by (simp_all add: sh_make_def sh_write_def sh_Put_def pool_arrays_def)

lemma pool_arrays_Put:
  "set (pool_arrays (sh_Put i a m)) = insert a (set (pool_arrays m))"
  "distinct (pool_arrays (sh_Put i a m)) \<longleftrightarrow> a \<notin> set (pool_arrays m) \<and> distinct (pool_arrays m)"
  by (cases i; auto simp: pool_arrays_def sh_Put_def)+

abbreviation sh_remove :: "pool_id \<Rightarrow> nat \<Rightarrow> shared \<Rightarrow> shared" where
  "sh_remove i a m \<equiv> m\<lparr>sh_pool := (sh_pool m)(i := remove1 a (sh_pool m i))\<rparr>"

lemma pool_arrays_remove:
  assumes "a \<in> set (sh_pool m i)"
  shows "a \<in> set (pool_arrays m)" "set (pool_arrays (sh_remove i a m)) \<subseteq> set (pool_arrays m)"
    and "distinct (pool_arrays m) \<Longrightarrow> distinct (a # pool_arrays (sh_remove i a m))"
  using assms by (cases i; auto simp: pool_arrays_def dest: set_remove1_subset [THEN subsetD])+

lemma sh_Get_frame:
  assumes "sh_Get be i m a m'"
  shows "sh_next m \<le> sh_next m'" and "b < sh_next m \<Longrightarrow> sh_mem m' b = sh_mem m b"
    and "set (a # pool_arrays m') \<subseteq> set (pool_arrays m) \<union> {sh_next m..<sh_next m'}"
    and "distinct (pool_arrays m) \<Longrightarrow> \<forall>b \<in> set (pool_arrays m). b < sh_next m \<Longrightarrow> distinct (a # pool_arrays m')"
proof -
  have "sh_next m \<le> sh_next m' \<and> (b < sh_next m \<longrightarrow> sh_mem m' b = sh_mem m b) \<and>
    set (a # pool_arrays m') \<subseteq> set (pool_arrays m) \<union> {sh_next m..<sh_next m'} \<and>
    (distinct (pool_arrays m) \<longrightarrow> (\<forall>b \<in> set (pool_arrays m). b < sh_next m) \<longrightarrow> distinct (a # pool_arrays m'))"
    using assms
  proof cases
    case get_pooled
    then show ?thesis
      using pool_arrays_remove [OF get_pooled(2)] by auto
  next
    case get_new
    then show ?thesis
      by auto
  qed
  then show "sh_next m \<le> sh_next m'" "b < sh_next m \<Longrightarrow> sh_mem m' b = sh_mem m b"
    "set (a # pool_arrays m') \<subseteq> set (pool_arrays m) \<union> {sh_next m..<sh_next m'}"
    "distinct (pool_arrays m) \<Longrightarrow> \<forall>b \<in> set (pool_arrays m). b < sh_next m \<Longrightarrow> distinct (a # pool_arrays m')"
    by blast+
qed

text \<open>Taking an array from a pool, and what a call may do with an array it owns.\<close>

lemma call_frame_get:
  assumes "sh_Get be i m a m'" and "owned pc' = owned pc @ [a] \<or> owned pc' = []"
  shows "call_frame pc m pc' m'"
proof -
  note G = sh_Get_frame [OF assms(1)]
  have "distinct (owned pc' @ pool_arrays m')"
    if d: "distinct (owned pc @ pool_arrays m)" and below: "\<forall>b \<in> set (owned pc @ pool_arrays m). b < sh_next m"
  proof -
    have one: "distinct (a # pool_arrays m')"
      using G(4) d below by simp
    have "b \<notin> set (a # pool_arrays m')" if "b \<in> set (owned pc)" for b
      using G(3) d below that by (metis Un_iff atLeastLessThan_iff disjoint_iff distinct_append not_le set_append subsetD)
    then have "set (owned pc) \<inter> set (a # pool_arrays m') = {}"
      by blast
    then show ?thesis
      using assms(2) one d by auto
  qed
  moreover have "set (owned pc' @ pool_arrays m') \<subseteq> set (owned pc @ pool_arrays m) \<union> {sh_next m..<sh_next m'}"
    using G(3) assms(2) by auto
  ultimately show ?thesis
    using G(1,2) unfolding call_frame_def by blast
qed

lemma call_frame_same: "set (owned pc') \<subseteq> set (owned pc) \<Longrightarrow> (distinct (owned pc) \<Longrightarrow> distinct (owned pc')) \<Longrightarrow> call_frame pc m pc' m"
  by (auto simp: call_frame_def)

lemma call_frame_write:
  "owned pc' = owned pc \<Longrightarrow> a \<in> set (owned pc) \<Longrightarrow> call_frame pc m pc' (sh_write a bs m)"
  by (auto simp: call_frame_def)

lemma call_frame_make:
  "owned pc' = owned pc @ [sh_next m] \<Longrightarrow> call_frame pc m pc' (sh_make bs m)"
  by (auto simp: call_frame_def)

lemma call_frame_put:
  assumes "put_back be i a q m = (pc', m')" and "owned pc = xs @ [a] @ ys" and "owned q = xs @ ys"
  shows "call_frame pc m pc' m'"
  using assms by (auto simp: put_back_def call_frame_def pool_arrays_Put split: if_splits)

lemma call_frame_step:
  assumes "call_step P be pc m pc' m'"
  shows "call_frame pc m pc' m'"
  using assms
proof cases
  case (call_start fa)
  have "owned (file_start be fa (sh_mem m fa)) = []"
    by (simp add: file_start_def split: sum.splits fault.splits list.splits prod.splits)
  then show ?thesis
    using call_start by (simp add: call_frame_same)
next
  case (call_block fr)
  then show ?thesis
    by (auto simp: block_start_def Let_def intro!: call_frame_make call_frame_same split: if_splits option.splits)
next
  case (call_open fr pa)
  show ?thesis
  proof (cases "\<exists>plain. pc' = SWrite fr (sh_next m, plain)")
    case True
    then show ?thesis
      using call_open by (auto simp: block_open_def Let_def call_frame_def split: option.splits sum.splits fault.splits if_splits)
  next
    case False
    then show ?thesis
      using call_open by (auto simp: block_open_def Let_def intro!: call_frame_write call_frame_same
          split: option.splits sum.splits fault.splits if_splits)
  qed
next
  case (call_write fr p buf)
  then show ?thesis
    by (auto simp: sh_append_def call_frame_def split: prod.splits if_splits)
next
  case (call_put pa fr)
  then show ?thesis
    by (intro call_frame_put [where xs = "[fst (df_buf fr)]" and ys = "[]"]) (auto simp: next_block_def)
next
  case (call_back a out)
  then show ?thesis
    by (intro call_frame_put [where xs = "[]" and ys = "[fst out]"]) auto
next
  case (call_copy buf out)
  then show ?thesis
    by (auto intro!: call_frame_write)
qed (auto intro!: call_frame_get call_frame_make call_frame_same)

text \<open>A step of one call keeps the owners of all arrays apart, and does not write to what is not its own.\<close>

lemma separated_pcs:
  assumes "separated F (th, m)"
  shows "distinct (owned (th t) @ pool_arrays m)" and "t \<noteq> t' \<Longrightarrow> set (owned (th t)) \<inter> set (owned (th t')) = {}"
    and "a \<in> set (owned (th t) @ pool_arrays m) \<Longrightarrow> a < sh_next m \<and> a \<notin> F" and "a \<in> F \<Longrightarrow> a < sh_next m"
  using assms by (auto simp: separated_def)

lemma separatedI:
  assumes "\<And>t. distinct (owned (th t) @ pool_arrays m)"
    and "\<And>t t'. t \<noteq> t' \<Longrightarrow> set (owned (th t)) \<inter> set (owned (th t')) = {}"
    and "\<And>a t. a \<in> set (owned (th t) @ pool_arrays m) \<Longrightarrow> a < sh_next m \<and> a \<notin> F"
    and "\<And>a. a \<in> F \<Longrightarrow> a < sh_next m"
  shows "separated F (th, m)"
proof -
  have "a < sh_next m \<and> a \<notin> F" if "a \<in> set (owned (th t))" for a t
    using assms(3) [of a t] that by simp
  moreover have "a < sh_next m \<and> a \<notin> F" if "a \<in> set (pool_arrays m)" for a
    using assms(3) [of a] that by simp
  ultimately show ?thesis
    using assms(1,2,4) unfolding separated_def prod.case by blast
qed

lemma separated_step:
  assumes sep: "separated F (th, m)" and step: "call_frame (th t) m pc m'"
  shows "separated F (th(t := pc), m')"
proof -
  note S = separated_pcs [OF sep]
  have next_le: "sh_next m \<le> sh_next m'"
    and distinct: "distinct (owned pc @ pool_arrays m')"
    and new: "set (owned pc @ pool_arrays m') \<subseteq> set (owned (th t) @ pool_arrays m) \<union> {sh_next m..<sh_next m'}"
    using step S(1,3) unfolding call_frame_def by blast+
  have old: "a \<notin> set (owned pc @ pool_arrays m')" if "t' \<noteq> t" "a \<in> set (owned (th t'))" for t' a
  proof -
    have "a \<notin> set (owned (th t) @ pool_arrays m)"
      using S(1) [of t'] S(2) [OF that(1)] that(2) by auto
    then show ?thesis
      using new S(3) [of a t'] that(2) by auto
  qed
  have keep: "a < sh_next m' \<and> a \<notin> F" if "a \<in> set (owned pc @ pool_arrays m')" for a
    using new that S(3) [of a t] S(4) [of a] next_le by fastforce
  have "distinct (owned ((th(t := pc)) t') @ pool_arrays m')" for t'
    using distinct old [of t'] S(1) [of t'] by (cases "t' = t") auto
  moreover have "set (owned ((th(t := pc)) t1)) \<inter> set (owned ((th(t := pc)) t2)) = {}" if "t1 \<noteq> t2" for t1 t2
  proof -
    have "set (owned pc) \<inter> set (owned (th t')) = {}" if "t' \<noteq> t" for t'
      using old [OF that] by auto
    then show ?thesis
      using that S(2) [OF that] by (cases "t1 = t"; cases "t2 = t") (simp_all add: Int_commute)
  qed
  moreover have "a < sh_next m' \<and> a \<notin> F" if "a \<in> set (owned ((th(t := pc)) t'))" for a t'
    using that keep [of a] S(3) [of a t'] next_le by (cases "t' = t") auto
  moreover have "a < sh_next m'" if "a \<in> F" for a
    using S(4) [OF that] next_le by simp
  ultimately show ?thesis
    using keep by (auto simp: separated_def)
qed

lemma separated_forget:
  assumes "separated F (th, m)" and "a \<in> set (sh_pool m i)"
  shows "separated F (th, sh_remove i a m)"
proof (rule separatedI)
  note S = separated_pcs [OF assms(1)] and R = pool_arrays_remove [OF assms(2)]
  show "distinct (owned (th t) @ pool_arrays (sh_remove i a m))" for t
    using S(1) [of t] R(2,3) by auto
  show "set (owned (th t)) \<inter> set (owned (th t')) = {}" if "t \<noteq> t'" for t t'
    using S(2) [OF that] .
  show "b < sh_next (sh_remove i a m) \<and> b \<notin> F" if "b \<in> set (owned (th t) @ pool_arrays (sh_remove i a m))" for b t
    using S(3) [of b t] R(2) that by auto
  show "b < sh_next (sh_remove i a m)" if "b \<in> F" for b
    using S(4) [OF that] by simp
qed

section \<open>Every call computes the sequential result\<close>

text \<open>What the sequential \<open>decryptFile\<close> returns; it is the same for all states of the pools.\<close>

definition file_result :: "prims \<Rightarrow> ContentEnc \<Rightarrow> bytes \<Rightarrow> (goerr + bytes) result" where
  "file_result P be f = map_sum id fst (decryptFile P be \<lparr>sdata = f, scap = length f\<rparr>)"

text \<open>The invariant of a call on a file with content \<open>f\<close> at \<open>fa\<close>.\<close>

definition buf_ok :: "shared \<Rightarrow> nat \<times> nat \<Rightarrow> bool" where
  "buf_ok m buf \<longleftrightarrow> snd buf \<le> length (sh_mem m (fst buf)) \<and> 135168 \<le> length (sh_mem m (fst buf))"

definition frame_at :: "prims \<Rightarrow> CryptoCore \<Rightarrow> nat \<Rightarrow> bytes \<Rightarrow> dframe \<Rightarrow> shared \<Rightarrow> u64 \<Rightarrow> nat \<Rightarrow> goerr + bytes \<Rightarrow> bool" where
  "frame_at P cc fa f fr m k off r \<longleftrightarrow>
     df_file fr = fa \<and> fid_ok (Some (df_id fr)) \<and> buf_ok m (df_buf fr) \<and>
     r = prepend (sh_bytes m (df_buf fr)) (run_plain P cc (df_id fr) k (drop off f)) \<and>
     (\<forall>q. r = Inr q \<longrightarrow> length q = unat (df_size fr))"

definition sealed_ahead :: "bytes \<Rightarrow> dframe \<Rightarrow> bool" where
  "sealed_ahead f fr \<longleftrightarrow> (let c = take 4128 (drop (df_off fr) f) in
     c \<noteq> [] \<and> c \<noteq> replicate 4128 0 \<and> 16 \<le> length c \<and> take 16 c \<noteq> replicate 16 0)"

fun call_ok :: "prims \<Rightarrow> CryptoCore \<Rightarrow> nat \<Rightarrow> bytes \<Rightarrow> (goerr + bytes) result \<Rightarrow> shared \<Rightarrow> dpc \<Rightarrow> bool" where
  "call_ok P cc fa f R m SNone = False"
| "call_ok P cc fa f R m (SStart a) = (a = fa)"
| "call_ok P cc fa f R m (SReq fr) =
     (\<exists>r. R = Inr r \<and> df_file fr = fa \<and> fid_ok (Some (df_id fr)) \<and> r = run_plain P cc (df_id fr) (df_no fr) (drop (df_off fr) f) \<and>
       (\<forall>q. r = Inr q \<longrightarrow> length q = unat (df_size fr)))"
| "call_ok P cc fa f R m (SLoop fr) = (\<exists>r. R = Inr r \<and> frame_at P cc fa f fr m (df_no fr) (df_off fr) r)"
| "call_ok P cc fa f R m (SGet fr) =
     (\<exists>r. R = Inr r \<and> frame_at P cc fa f fr m (df_no fr) (df_off fr) r \<and> sealed_ahead f fr)"
| "call_ok P cc fa f R m (SOpen fr pa) =
     (\<exists>r. R = Inr r \<and> frame_at P cc fa f fr m (df_no fr) (df_off fr) r \<and> sealed_ahead f fr \<and> length (sh_mem m pa) = 4096)"
| "call_ok P cc fa f R m (SWrite fr p) =
     (\<exists>r. R = Inr r \<and> frame_at P cc fa f fr m (df_no fr) (df_off fr) r \<and> drop (df_off fr) f \<noteq> [] \<and>
       block_plain P cc (df_id fr) (df_no fr) (take 4128 (drop (df_off fr) f)) = Inr (sh_bytes m p) \<and>
       length (sh_mem m (fst p)) = 4096)"
| "call_ok P cc fa f R m (SPut fr pa) =
     (\<exists>r. R = Inr r \<and> frame_at P cc fa f fr m (df_no fr + 1) (df_off fr + 4128) r \<and> drop (df_off fr) f \<noteq> [] \<and>
       length (sh_mem m pa) = 4096)"
| "call_ok P cc fa f R m (SEnd n buf) =
     (R = Inr (Inr (sh_bytes m buf)) \<and> buf_ok m buf \<and> length (sh_bytes m buf) = unat n)"
| "call_ok P cc fa f R m (SCopy buf out) =
     (R = Inr (Inr (sh_bytes m buf)) \<and> length (sh_mem m (fst buf)) = 135168 \<and>
       length (sh_mem m (fst out)) = length (sh_bytes m buf) \<and> snd out = length (sh_bytes m buf))"
| "call_ok P cc fa f R m (SBack a out) = (R = Inr (Inr (sh_bytes m out)) \<and> length (sh_mem m a) = 135168)"
| "call_ok P cc fa f R m (SDone (Inl e)) = (R = Inr (Inl e))"
| "call_ok P cc fa f R m (SDone (Inr out)) = (R = Inr (Inr (sh_bytes m out)))"
| "call_ok P cc fa f R m (SFail x) = (R = Inl x)"

text \<open>It only depends on the arrays that the call owns.\<close>

lemma call_ok_frame:
  assumes "\<And>a. a \<in> set (owned pc) \<Longrightarrow> sh_mem m' a = sh_mem m a"
  shows "call_ok P cc fa f R m' pc = call_ok P cc fa f R m pc"
proof -
  have "sh_bytes m' p = sh_bytes m p \<and> buf_ok m' p = buf_ok m p" if "fst p \<in> set (owned pc)" for p
    using assms [OF that] by (cases p) (simp add: sh_bytes_def buf_ok_def)
  moreover have "frame_at P cc fa f fr m' = frame_at P cc fa f fr m" if "fst (df_buf fr) \<in> set (owned pc)" for fr
    using assms [OF that] by (cases "df_buf fr") (simp add: fun_eq_iff frame_at_def sh_bytes_def buf_ok_def)
  ultimately show ?thesis
    using assms by (cases "(P, cc, fa, f, R, m, pc)" rule: call_ok.cases) simp_all
qed

definition pools_sized :: "shared \<Rightarrow> bool" where
  "pools_sized m \<longleftrightarrow> (\<forall>a \<in> set (sh_pool m BlockPool). length (sh_mem m a) = 4096) \<and>
     (\<forall>a \<in> set (sh_pool m ReqPool). length (sh_mem m a) = 135168)"

lemma tree_enc_pool_size: "tree_enc cc be \<Longrightarrow> pool_size be i = (case i of BlockPool \<Rightarrow> 4096 | ReqPool \<Rightarrow> 135168)"
  by (cases i) (simp_all add: pool_size_def tree_enc_fields)

lemma file_start_ok:
  assumes be: "tree_enc cc be" and cipher: "core_aead P cc" and len: "length f < 2 ^ 62"
  shows "call_ok P cc fa f (file_result P be f) m (file_start be fa f)"
proof (cases "18 < length f")
  case False
  have "unat (word_of_nat (length f) :: u64) = length f"
    using len by (intro unat_u64_of_nat) simp
  then obtain n where "CipherSizeToPlainSize be (word_of_nat (length f)) = Inr n"
    using False CipherSizeToPlainSize_short by simp
  then show ?thesis
    using False by (simp add: file_start_def file_result_def decryptFile_def readFileID_def)
next
  case True
  have sl: "sdata \<lparr>sdata = f, scap = length f\<rparr> = f"
    by simp
  obtain n where n: "CipherSizeToPlainSize be (word_of_nat (length f)) = Inr n"
    using CipherSizeToPlainSize_body [OF be True len] by blast
  consider (bad) e where "ParseHeader (take 18 f) = Inl (Err e)" | (empty) h where "ParseHeader (take 18 f) = Inr h" "n = 0"
    | (ok) h where "ParseHeader (take 18 f) = Inr h" "n \<noteq> 0"
    using ParseHeader_faults [of "take 18 f"] by blast
  then show ?thesis
  proof cases
    case bad
    then show ?thesis
      using True n by (simp add: file_start_def file_result_def decryptFile_def readFileID_def)
  next
    case empty
    then show ?thesis
      using True n by (simp add: file_start_def file_result_def decryptFile_def readFileID_def ExplodePlainRange.simps)
  next
    case ok
    obtain b bs where b: "ExplodePlainRange be 0 n = Inr (b # bs)" "BlockNo b = 0" "fs b = be"
      using be ok(2) by (rule first_block)
    obtain l where l: "JointCiphertextRange b (b # bs) = Inr (18, l)"
      using b by (simp add: JointCiphertextRange_def BlockNoToCipherOff_def Let_def)
    have start: "file_start be fa f = SReq \<lparr>df_file = fa, df_off = 18, df_no = 0, df_id = hID h, df_size = n, df_buf = (0, 0)\<rparr>"
      using True n ok(1) b l by (simp add: file_start_def readFileID_def)
    let ?f = "\<lparr>sdata = f, scap = length f\<rparr>"
    have prems: "18 < length (sdata ?f)" "length (sdata ?f) < 2 ^ 62"
      "CipherSizeToPlainSize be (word_of_nat (length (sdata ?f))) = Inr n" "n \<noteq> 0" "ParseHeader (take 18 (sdata ?f)) = Inr h"
      using True len n ok by simp_all
    note plain = decryptFile_plain [OF be cipher prems, unfolded sl]
    have "file_result P be f = Inr (run_plain P cc (hID h) 0 (drop 18 f))"
      using plain(1) by (auto simp: file_result_def)
    moreover have "\<forall>q. run_plain P cc (hID h) 0 (drop 18 f) = Inr q \<longrightarrow> length q = unat n"
      using plain(2) by blast
    ultimately show ?thesis
      using ParseHeader_fid [OF ok(1)] unfolding start by simp
  qed
qed

lemma take_copy_at: "n + length src \<le> length dst \<Longrightarrow> take (n + length src) (copy_at dst n src) = take n dst @ src"
  by (simp add: copy_at_def Let_def)

lemma sh_append_ok:
  assumes "sh_append buf bs m = (buf', m')" and "buf_ok m buf"
  shows "sh_bytes m' buf' = sh_bytes m buf @ bs" and "buf_ok m' buf'"
  using assms
  by (auto simp: sh_append_def sh_bytes_def buf_ok_def take_copy_at min_def split: prod.splits if_splits)

lemma sh_Get_sized:
  assumes "tree_enc cc be" and "pools_sized m" and "sh_Get be i m a m'"
  shows "length (sh_mem m' a) = pool_size be i"
  using assms(3)
proof cases
  case get_pooled
  then show ?thesis
    using assms(2) tree_enc_pool_size [OF assms(1), of i] by (cases i) (auto simp: pools_sized_def)
qed simp

lemma frame_at_frame:
  "sh_mem m' (fst (df_buf fr)) = sh_mem m (fst (df_buf fr)) \<Longrightarrow> frame_at P cc fa f fr m' k off r = frame_at P cc fa f fr m k off r"
  by (cases "df_buf fr") (simp add: frame_at_def buf_ok_def sh_bytes_def)

lemma frame_at_next:
  "sh_mem m' = sh_mem m \<Longrightarrow> frame_at P cc fa f (next_block be fr) m' k off r = frame_at P cc fa f fr m k off r"
  by (simp add: frame_at_def next_block_def buf_ok_def sh_bytes_def)

lemma run_plain_step:
  "drop off f \<noteq> [] \<Longrightarrow> run_plain P cc i k (drop off f) =
    (case block_plain P cc i k (take 4128 (drop off f)) of Inl e \<Rightarrow> Inl e | Inr p \<Rightarrow> prepend p (run_plain P cc i (k + 1) (drop (off + 4128) f)))"
  by (subst run_plain.simps) (simp add: add.commute cong: sum.case_cong)

lemma block_start_ok:
  assumes be: "tree_enc cc be" and start: "block_start be fr m = (pc', m')"
    and frame: "frame_at P cc fa f fr m (df_no fr) (df_off fr) r" and content: "sh_mem m fa = f"
    and own: "fst (df_buf fr) < sh_next m"
  shows "call_ok P cc fa f (Inr r) m' pc'"
proof -
  define c where "c = take 4128 (drop (df_off fr) f)"
  have nil: "drop (df_off fr) f = [] \<longleftrightarrow> c = []"
    by (simp add: c_def)
  have sealed: "sealed_ahead f fr \<longleftrightarrow> c \<noteq> [] \<and> c \<noteq> replicate 4128 0 \<and> 16 \<le> length c \<and> take 16 c \<noteq> replicate 16 0"
    by (simp add: sealed_ahead_def c_def Let_def)
  note fields = tree_enc_fields [OF be]
  have c: "cur_block be m fr = c"
    using frame content fields(5) by (simp add: cur_block_def frame_at_def c_def)
  have rest: "drop (df_off fr) (sh_mem m (df_file fr)) = [] \<longleftrightarrow> c = []"
    using frame content nil by (simp add: frame_at_def)
  note signed = enc_ok_cipherBS(1) [OF fields(1)]
  consider (none) "drop (df_off fr) f = []" | (hole) "drop (df_off fr) f \<noteq> []" "c = replicate 4128 0"
    | (bad) e where "drop (df_off fr) f \<noteq> []" "c \<noteq> replicate 4128 0" "block_plain P cc (df_id fr) (df_no fr) c = Inl e"
        "block_start be fr m = (SDone (Inl e), m)"
    | (good) "sealed_ahead f fr" "block_start be fr m = (SGet fr, m)"
    using fields(2,3,6,7) signed unfolding block_start_def c rest block_plain_def sealed nil Let_def
    by (cases "length c < 16"; cases "take 16 c = replicate 16 0") auto
  then show ?thesis
  proof cases
    case none
    then have "block_start be fr m = (SEnd (df_size fr) (df_buf fr), m)"
      using nil rest by (simp add: block_start_def c)
    then show ?thesis
      using none start frame by (auto simp: frame_at_def run_plain.simps)
  next
    case hole
    have "block_start be fr m = (SWrite fr (sh_next m, 4096), sh_make (replicate 4096 0) m)"
      using hole fields(4,6) nil rest signed by (simp add: block_start_def c)
    moreover have "block_plain P cc (df_id fr) (df_no fr) c = Inr (replicate 4096 0)"
      using hole(2) by (simp add: block_plain_def)
    ultimately show ?thesis
      using hole(1) start frame own frame_at_frame [of m' fr m P cc fa f] by (auto simp: sh_bytes_def c_def)
  next
    case bad
    then show ?thesis
      using start frame by (auto simp: frame_at_def run_plain_step c_def)
  next
    case good
    then show ?thesis
      using start frame by auto
  qed
qed

lemma block_open_ok:
  assumes be: "tree_enc cc be" and cipher: "core_aead P cc" and start: "block_open P be fr pa m = (pc', m')"
    and frame: "frame_at P cc fa f fr m (df_no fr) (df_off fr) r" and content: "sh_mem m fa = f"
    and own: "fst (df_buf fr) \<noteq> pa" and ahead: "sealed_ahead f fr" "length (sh_mem m pa) = 4096"
  shows "call_ok P cc fa f (Inr r) m' pc'"
proof -
  define c where "c = take 4128 (drop (df_off fr) f)"
  have nil: "drop (df_off fr) f = [] \<longleftrightarrow> c = []"
    by (simp add: c_def)
  have sealed: "sealed_ahead f fr \<longleftrightarrow> c \<noteq> [] \<and> c \<noteq> replicate 4128 0 \<and> 16 \<le> length c \<and> take 16 c \<noteq> replicate 16 0"
    by (simp add: sealed_ahead_def c_def Let_def)
  note fields = tree_enc_fields [OF be]
  have c: "cur_block be m fr = c"
    using frame content fields(5) by (simp add: cur_block_def frame_at_def c_def)
  have nonempty: "drop (df_off fr) f \<noteq> []"
    using ahead(1) nil by (simp add: sealed)
  have plain: "block_plain P cc (df_id fr) (df_no fr) c =
      (case AEAD_Open P (AEADCipher cc) (take 16 c) (drop 16 c) (block_ad (df_no fr) (Some (df_id fr))) of
        Inr plain \<Rightarrow> Inr plain | Inl (Err e) \<Rightarrow> Inl e | Inl _ \<Rightarrow> Inl IoEOF)"
    using ahead(1) by (simp add: block_plain_def sealed)
  have ad: "concatAD (df_no fr) (Some (df_id fr)) = Inr (block_ad (df_no fr) (Some (df_id fr)))"
    using frame by (intro concatAD_ok) (simp add: frame_at_def)
  have len: "length (take 16 c) = IVLen cc"
    using ahead(1) fields(3) by (simp add: sealed min_def)
  note opened = block_open_def [of P be fr pa m, unfolded c fields(2,3) Let_def option.case ad sum.case]
  consider (ok) pt where "AEAD_Open P (AEADCipher cc) (take 16 c) (drop 16 c) (block_ad (df_no fr) (Some (df_id fr))) = Inr pt"
    | (err) e where "AEAD_Open P (AEADCipher cc) (take 16 c) (drop 16 c) (block_ad (df_no fr) (Some (df_id fr))) = Inl (Err e)"
    using aead.openE [OF cipher len] by metis
  then show ?thesis
  proof cases
    case (ok pt)
    then have pt: "block_plain P cc (df_id fr) (df_no fr) c = Inr pt"
      using plain by simp
    then have short: "length pt \<le> 4096"
      using block_plain_length [OF cipher fields(3)] by (simp add: c_def)
    then have "pc' = SWrite fr (pa, length pt)" "m' = sh_write pa (copy_at (sh_mem m pa) 0 pt) m"
      using start opened ok(1) ahead(2) fields(3) by simp_all
    moreover have "take (length pt) (copy_at (sh_mem m pa) 0 pt) = pt"
      using take_copy_at [of 0 pt "sh_mem m pa"] short ahead(2) by simp
    ultimately show ?thesis
      using frame nonempty pt own ahead(2) frame_at_frame [of m' fr m P cc fa f] by (simp add: sh_bytes_def c_def)
  next
    case (err e)
    then have opened_err: "pc' = SDone (Inl e)" and "block_plain P cc (df_id fr) (df_no fr) c = Inl e"
      using start opened plain fields(3,8) by simp_all
    then have "run_plain P cc (df_id fr) (df_no fr) (drop (df_off fr) f) = Inl e"
      using run_plain_step [OF nonempty, of P cc "df_id fr" "df_no fr"] unfolding c_def [symmetric] by simp
    then show ?thesis
      using frame by (simp add: frame_at_def opened_err)
  qed
qed

lemma call_step_ok:
  assumes be: "tree_enc cc be" and cipher: "core_aead P cc" and len: "length f < 2 ^ 62"
    and step: "call_step P be pc m pc' m'" and ok: "call_ok P cc fa f (file_result P be f) m pc"
    and content: "sh_mem m fa = f" and own: "distinct (owned pc)" "\<And>a. a \<in> set (owned pc) \<Longrightarrow> a < sh_next m"
    and sized: "pools_sized m"
  shows "call_ok P cc fa f (file_result P be f) m' pc'"
  using step
proof cases
  case (call_start a)
  then show ?thesis
    using ok content file_start_ok [OF be cipher len] by simp
next
  case (call_req a fr)
  have "length (sh_mem m' a) = 135168"
    using call_req(4) tree_enc_pool_size [OF be, of ReqPool] by simp
  then show ?thesis
    using ok call_req(1,2) by (auto simp: frame_at_def buf_ok_def sh_bytes_def)
next
  case (call_req_panic a fr)
  then show ?thesis
    using sh_Get_sized [OF be sized] by blast
next
  case (call_block fr)
  then show ?thesis
    using ok own(2) block_start_ok [OF be call_block(2) _ content] by auto
next
  case (call_get a fr)
  have "length (sh_mem m' a) = 4096"
    using call_get(4) tree_enc_pool_size [OF be, of BlockPool] by simp
  moreover have "sh_mem m' (fst (df_buf fr)) = sh_mem m (fst (df_buf fr))"
    using own(2) call_get(1) by (intro sh_Get_frame(2) [OF call_get(3)]) simp
  ultimately show ?thesis
    using ok call_get(1,2) frame_at_frame [of m' fr m P cc fa f] by simp
next
  case (call_get_panic a fr)
  then show ?thesis
    using sh_Get_sized [OF be sized] by blast
next
  case (call_open fr pa)
  then show ?thesis
    using ok own(1) block_open_ok [OF be cipher call_open(2) _ content] by auto
next
  case (call_write fr p buf)
  obtain r where r: "file_result P be f = Inr r" "frame_at P cc fa f fr m (df_no fr) (df_off fr) r" "drop (df_off fr) f \<noteq> []"
    "block_plain P cc (df_id fr) (df_no fr) (take 4128 (drop (df_off fr) f)) = Inr (sh_bytes m p)" "length (sh_mem m (fst p)) = 4096"
    using ok call_write(1) by auto
  have buf: "sh_bytes m' buf = sh_bytes m (df_buf fr) @ sh_bytes m p" "buf_ok m' buf"
    using sh_append_ok [OF call_write(3)] r(2) by (simp_all add: frame_at_def)
  have "fst p < sh_next m" "fst p \<noteq> fst (df_buf fr)"
    using own call_write(1) by auto
  then have "sh_mem m' (fst p) = sh_mem m (fst p)"
    using call_write(3) by (auto simp: sh_append_def split: prod.splits if_splits)
  moreover have "run_plain P cc (df_id fr) (df_no fr) (drop (df_off fr) f) =
      prepend (sh_bytes m p) (run_plain P cc (df_id fr) (df_no fr + 1) (drop (df_off fr + 4128) f))"
    unfolding run_plain_step [OF r(3)] r(4) by simp
  then have "frame_at P cc fa f (fr\<lparr>df_buf := buf\<rparr>) m' (df_no fr + 1) (df_off fr + 4128) r"
    using r(2) buf by (simp add: frame_at_def)
  ultimately show ?thesis
    using r(1,3,5) call_write(2) by simp
next
  case (call_put pa fr)
  obtain r where r: "file_result P be f = Inr r" "frame_at P cc fa f fr m (df_no fr + 1) (df_off fr + 4128) r" "length (sh_mem m pa) = 4096"
    using ok call_put(1) by auto
  have post: "pc' = SLoop (next_block be fr)" "m' = sh_Put BlockPool pa m"
    using call_put(2) r(3) tree_enc_pool_size [OF be, of BlockPool] by (simp_all add: put_back_def)
  have "frame_at P cc fa f (next_block be fr) m' (df_no fr + 1) (df_off fr + 4128) r"
    using r(2) frame_at_next [of m' m] by (simp add: post(2))
  then show ?thesis
    using r(1) tree_enc_fields(5) [OF be] unfolding post(1) by (simp add: next_block_def)
next
  case (call_return buf n)
  then show ?thesis
    using ok by (cases buf) simp
next
  case (call_make buf n)
  have "length (sh_mem m (fst buf)) = 135168"
    using ok call_make by (simp add: buf_ok_def big_enough_def MAX_KERNEL_WRITE_def DefaultBS_def)
  then show ?thesis
    using ok call_make own(2) by (cases buf) (auto simp: sh_bytes_def)
next
  case (call_copy buf out)
  have "take (snd out) (copy_at (sh_mem m (fst out)) 0 (sh_bytes m buf)) = sh_bytes m buf"
    using take_copy_at [of 0 "sh_bytes m buf" "sh_mem m (fst out)"] ok call_copy(1) by simp
  then show ?thesis
    using ok call_copy own(1) by (cases out) (auto simp: sh_bytes_def)
next
  case (call_back a out)
  have "pc' = SDone (Inr out)" "m' = sh_Put ReqPool a m"
    using call_back ok tree_enc_pool_size [OF be, of ReqPool] by (simp_all add: put_back_def)
  then show ?thesis
    using ok call_back(1) by (cases out) (simp add: sh_bytes_def)
qed

text \<open>The arrays in the pools keep their sizes.\<close>

lemma pools_sized_step:
  assumes be: "tree_enc cc be" and step: "call_step P be pc m pc' m'" and sized: "pools_sized m"
    and own: "distinct (owned pc @ pool_arrays m)" "\<And>a. a \<in> set (owned pc @ pool_arrays m) \<Longrightarrow> a < sh_next m"
  shows "pools_sized m'"
proof -
  have keep: "sh_mem m' a = sh_mem m a" if "a \<in> set (pool_arrays m)" for a
    using call_frame_step [OF step] own that by (auto simp: call_frame_def)
  have "(a \<in> set (sh_pool m' i) \<longrightarrow> a \<in> set (sh_pool m i)) \<or> length (sh_mem m' a) = pool_size be i" for a i
    using step
    by cases (auto simp: block_start_def block_open_def sh_append_def put_back_def sh_Put_def Let_def elim!: sh_Get.cases
      split: if_splits option.splits sum.splits fault.splits prod.splits dest: set_remove1_subset [THEN subsetD])
  then show ?thesis
    using sized keep tree_enc_pool_size [OF be] unfolding pools_sized_def pool_arrays_def
    by (metis (no_types, lifting) Un_iff pool_id.case set_append)
qed

text \<open>A call is never blocked, and each of its steps brings it closer to its end.\<close>

fun call_ended :: "dpc \<Rightarrow> bool" where
  "call_ended SNone = True"
| "call_ended (SDone r) = True"
| "call_ended (SFail x) = True"
| "call_ended _ = False"

fun call_rank :: "nat \<Rightarrow> dpc \<Rightarrow> nat" where
  "call_rank n (SStart fa) = 5 * n + 7"
| "call_rank n (SReq fr) = 5 * (n - df_off fr) + 6"
| "call_rank n (SLoop fr) = 5 * (n - df_off fr) + 5"
| "call_rank n (SGet fr) = 5 * (n - df_off fr) + 4"
| "call_rank n (SOpen fr pa) = 5 * (n - df_off fr) + 3"
| "call_rank n (SWrite fr p) = 5 * (n - df_off fr) + 2"
| "call_rank n (SPut fr pa) = 5 * (n - df_off fr) + 1"
| "call_rank n (SEnd k buf) = 3"
| "call_rank n (SCopy buf out) = 2"
| "call_rank n (SBack a out) = 1"
| "call_rank n pc = 0"

lemma call_step_enabled: "\<not> call_ended pc \<Longrightarrow> \<exists>pc' m'. call_step P be pc m pc' m'"
proof (cases pc)
  case (SReq fr)
  then show ?thesis
    using call_req [OF get_new] call_req_panic [OF get_new] by blast
next
  case (SGet fr)
  then show ?thesis
    using call_get [OF get_new] call_get_panic [OF get_new] by blast
next
  case (SEnd n buf)
  then show ?thesis
    using call_return call_make by blast
next
  case (SWrite fr p)
  then show ?thesis
    using call_write by (metis surj_pair)
next
  case (SLoop fr)
  then show ?thesis
    using call_block by (metis surj_pair)
next
  case (SOpen fr pa)
  then show ?thesis
    using call_open by (metis surj_pair)
next
  case (SPut fr pa)
  then show ?thesis
    using call_put by (metis surj_pair)
next
  case (SBack a out)
  then show ?thesis
    using call_back by (metis surj_pair)
qed (auto intro: call_start call_copy)

lemma call_step_rank:
  assumes step: "call_step P be pc m pc' m'" and be: "tree_enc cc be"
    and ok: "call_ok P cc fa f R m pc" and content: "sh_mem m fa = f"
  shows "call_rank (length f) pc' < call_rank (length f) pc"
  using step
proof cases
  case (call_start a)
  then show ?thesis
    using ok content by (auto simp: file_start_def split: sum.splits fault.splits list.splits)
next
  case (call_put pa fr)
  then show ?thesis
    using ok tree_enc_fields(5) [OF be] by (auto simp: put_back_def next_block_def split: if_splits)
next
  case (call_block fr)
  then show ?thesis
    by (auto simp: block_start_def Let_def split: if_splits option.splits)
next
  case (call_open fr pa)
  then show ?thesis
    by (auto simp: block_open_def Let_def split: if_splits option.splits sum.splits fault.splits)
next
  case (call_back a out)
  then show ?thesis
    by (auto simp: put_back_def split: if_splits)
qed simp_all

section \<open>Runs\<close>

text \<open>The start: some calls, each on one of the cached files, on any state of the pools.\<close>

definition dec_start :: "nat set \<Rightarrow> dsys \<Rightarrow> bool" where
  "dec_start F s \<longleftrightarrow> separated F s \<and> pools_sized (snd s) \<and> (\<forall>a \<in> F. length (sh_mem (snd s) a) < 2 ^ 62) \<and>
     (\<forall>t. fst s t = SNone \<or> (\<exists>fa \<in> F. fst s t = SStart fa))"

definition dec_inv :: "prims \<Rightarrow> CryptoCore \<Rightarrow> ContentEnc \<Rightarrow> nat set \<Rightarrow> dsys \<Rightarrow> dsys \<Rightarrow> bool" where
  "dec_inv P cc be F s0 s \<longleftrightarrow> separated F s \<and> pools_sized (snd s) \<and> (\<forall>a \<in> F. sh_mem (snd s) a = sh_mem (snd s0) a) \<and>
     (\<forall>t. (fst s0 t = SNone \<and> fst s t = SNone) \<or>
       (\<exists>fa \<in> F. fst s0 t = SStart fa \<and>
         call_ok P cc fa (sh_mem (snd s0) fa) (file_result P be (sh_mem (snd s0) fa)) (snd s) (fst s t)))"

lemma dec_start_inv: "dec_start F s0 \<Longrightarrow> dec_inv P cc be F s0 s0"
  unfolding dec_start_def dec_inv_def by (metis call_ok.simps(2))

lemma dec_step_inv:
  assumes be: "tree_enc cc be" and cipher: "core_aead P cc" and start: "dec_start F s0"
    and step: "dec_step P be l s s'" and inv: "dec_inv P cc be F s0 s"
  shows "dec_inv P cc be F s0 s'"
  using step
proof cases
  case (dec_call th t m pc m')
  have sep: "separated F (th, m)" and sized: "pools_sized m" and files: "\<And>a. a \<in> F \<Longrightarrow> sh_mem m a = sh_mem (snd s0) a"
    and ok: "\<And>u. (fst s0 u = SNone \<and> th u = SNone) \<or> (\<exists>fa \<in> F. fst s0 u = SStart fa \<and>
        call_ok P cc fa (sh_mem (snd s0) fa) (file_result P be (sh_mem (snd s0) fa)) m (th u))"
    using inv unfolding dec_inv_def dec_call(2) by simp_all
  note S = separated_pcs [OF sep] and frame = call_frame_step [OF dec_call(4)]
  have keep: "sh_mem m' a = sh_mem m a" if "a < sh_next m" "a \<notin> set (owned (th t))" for a
    using frame that unfolding call_frame_def by blast
  have "sh_mem m' a = sh_mem (snd s0) a" if "a \<in> F" for a
    using keep [of a] S(3) [of a t] S(4) [OF that] files [OF that] that by auto
  moreover have "(fst s0 u = SNone \<and> (th(t := pc)) u = SNone) \<or> (\<exists>fa \<in> F. fst s0 u = SStart fa \<and>
      call_ok P cc fa (sh_mem (snd s0) fa) (file_result P be (sh_mem (snd s0) fa)) m' ((th(t := pc)) u))" for u
  proof (cases "u = t")
    case True
    have "th t \<noteq> SNone"
      using dec_call(4) by (auto elim: call_step.cases)
    then obtain fa where fa: "fst s0 t = SStart fa" "fa \<in> F"
      "call_ok P cc fa (sh_mem (snd s0) fa) (file_result P be (sh_mem (snd s0) fa)) m (th t)"
      using ok [of t] by blast
    have len: "length (sh_mem (snd s0) fa) < 2 ^ 62"
      using start fa(2) by (simp add: dec_start_def)
    have "call_ok P cc fa (sh_mem (snd s0) fa) (file_result P be (sh_mem (snd s0) fa)) m' pc"
      using call_step_ok [OF be cipher len dec_call(4) fa(3) files [OF fa(2)] _ _ sized] S(1,3) by auto
    then show ?thesis
      using True fa(1,2) by auto
  next
    case False
    have "sh_mem m' a = sh_mem m a" if "a \<in> set (owned (th u))" for a
      using keep [of a] S(2) [OF False] S(3) [of a u] that by auto
    then have "call_ok P cc fa f R m' (th u) = call_ok P cc fa f R m (th u)" for fa f R
      by (rule call_ok_frame)
    then show ?thesis
      using False ok [of u] by simp
  qed
  moreover have "pools_sized m'"
    using pools_sized_step [OF be dec_call(4) sized] S(1,3) by blast
  ultimately show ?thesis
    using separated_step [OF sep frame] unfolding dec_inv_def dec_call(3) by simp
next
  case (dec_forget a m i th)
  have "pools_sized (sh_remove i a m)"
    using inv unfolding dec_inv_def dec_forget(2) pools_sized_def
    by (cases i) (auto dest: set_remove1_subset [THEN subsetD])
  moreover have "call_ok P cc fa f R (sh_remove i a m) pc = call_ok P cc fa f R m pc" for fa f R pc
    by (rule call_ok_frame) simp
  ultimately show ?thesis
    using inv separated_forget [of F th m a i] dec_forget(4) unfolding dec_inv_def dec_forget(2,3) by simp
qed

lemma dec_run_inv:
  assumes "dec_run P be s0 ls s" and "tree_enc cc be" and "core_aead P cc" and "dec_start F s0"
  shows "dec_inv P cc be F s0 s"
  using assms by (induction rule: dec_run.induct) (auto intro: dec_start_inv dec_step_inv)

text \<open>A call in a run from the start: what it works on, and its next step.\<close>

lemma dec_run_call:
  assumes "dec_run P be s0 ls (th, m)" and "tree_enc cc be" and "core_aead P cc" and "dec_start F s0" and "fst s0 t = SStart fa"
  shows "fa \<in> F" and "sh_mem m fa = sh_mem (snd s0) fa" and "length (sh_mem (snd s0) fa) < 2 ^ 62"
    and "call_ok P cc fa (sh_mem (snd s0) fa) (file_result P be (sh_mem (snd s0) fa)) m (th t)"
proof -
  have "fst s0 t \<noteq> SNone"
    using assms(5) by simp
  then obtain fa' where "fa' \<in> F" "fst s0 t = SStart fa'" "sh_mem m fa' = sh_mem (snd s0) fa'"
    "call_ok P cc fa' (sh_mem (snd s0) fa') (file_result P be (sh_mem (snd s0) fa')) m (th t)"
    using dec_run_inv [OF assms(1-4)] unfolding dec_inv_def fst_conv snd_conv by blast
  moreover from this have "length (sh_mem (snd s0) fa') < 2 ^ 62"
    using assms(4) by (simp add: dec_start_def)
  ultimately show "fa \<in> F" "sh_mem m fa = sh_mem (snd s0) fa" "length (sh_mem (snd s0) fa) < 2 ^ 62"
    "call_ok P cc fa (sh_mem (snd s0) fa) (file_result P be (sh_mem (snd s0) fa)) m (th t)"
    using assms(5) by simp_all
qed

lemma dec_run_count:
  assumes "dec_run P be s0 ls s" and "tree_enc cc be" and "core_aead P cc" and "dec_start F s0" and "fst s0 t = SStart fa"
  shows "count_list ls (Some t) + call_rank (length (sh_mem (snd s0) fa)) (fst s t) \<le> 5 * length (sh_mem (snd s0) fa) + 7"
  using assms(1)
proof (induction rule: dec_run.induct)
  case (dec_snoc ls s l s')
  show ?case
    using dec_snoc(2)
  proof cases
    case (dec_call th u m pc m')
    have run: "dec_run P be s0 ls (th, m)"
      using dec_snoc(1) dec_call(2) by simp
    note C = dec_run_call [OF run assms(2-5)]
    show ?thesis
    proof (cases "u = t")
      case True
      then have "call_rank (length (sh_mem (snd s0) fa)) pc < call_rank (length (sh_mem (snd s0) fa)) (th t)"
        using call_step_rank [OF _ assms(2) C(4,2)] dec_call(4) by blast
      then show ?thesis
        using dec_snoc.IH dec_call True by simp
    qed (use dec_snoc.IH dec_call in simp)
  next
    case (dec_forget a m i th)
    then show ?thesis
      using dec_snoc.IH by simp
  qed
qed (use assms(5) in simp)

lemma dec_run_finish:
  assumes "dec_run P be s0 ls s" and "tree_enc cc be" and "core_aead P cc" and "dec_start F s0" and "fst s0 t = SStart fa"
  shows "\<exists>ls' s'. dec_run P be s0 ls' s' \<and> call_ended (fst s' t)"
  using assms(1)
proof (induction "call_rank (length (sh_mem (snd s0) fa)) (fst s t)" arbitrary: ls s rule: less_induct)
  case less
  show ?case
  proof (cases "call_ended (fst s t)")
    case True
    then show ?thesis
      using less.prems by blast
  next
    case False
    obtain th m where s: "s = (th, m)"
      by (cases s)
    then obtain pc m' where step: "call_step P be (th t) m pc m'"
      using False call_step_enabled by fastforce
    have run: "dec_run P be s0 (ls @ [Some t]) (th(t := pc), m')"
      using less.prems unfolding s by (rule dec_snoc [OF _ dec_call]) (rule step)
    have "call_rank (length (sh_mem (snd s0) fa)) pc < call_rank (length (sh_mem (snd s0) fa)) (th t)"
      using call_step_rank [OF step assms(2)] dec_run_call [OF less.prems [unfolded s] assms(2-5)] by blast
    then show ?thesis
      using less.hyps [OF _ run] unfolding s by simp
  qed
qed

text \<open>The sequential result does not depend on the pools or on the capacity of the file's slice.\<close>

lemma CipherSizeToPlainSize_tree:
  assumes "tree_enc cc be" and "tree_enc cc be'"
  shows "CipherSizeToPlainSize be' = CipherSizeToPlainSize be"
proof -
  have "plainBS be' = plainBS be" "cipherBS be' = cipherBS be"
    using assms tree_enc_fields(5) [OF assms(1)] tree_enc_fields(5) [OF assms(2)] by (simp_all add: tree_enc_def word_unat_eq_iff)
  then show ?thesis
    by (simp add: fun_eq_iff CipherSizeToPlainSize_def CipherOffToBlockNo_def BlockOverhead_def)
qed

lemma decryptFile_pools:
  assumes be: "tree_enc cc be" and be': "tree_enc cc be'" and cipher: "core_aead P cc" and len: "length f < 2 ^ 62"
  shows "map_sum id fst (decryptFile P be' \<lparr>sdata = f, scap = cap\<rparr>) = file_result P be f"
proof (cases "18 < length f")
  case False
  have "unat (word_of_nat (length f) :: u64) = length f"
    using len by (intro unat_u64_of_nat) simp
  then have "\<exists>n. CipherSizeToPlainSize b (word_of_nat (length f)) = Inr n" for b
    using False CipherSizeToPlainSize_short by simp
  then obtain n n' where "CipherSizeToPlainSize be (word_of_nat (length f)) = Inr n" "CipherSizeToPlainSize be' (word_of_nat (length f)) = Inr n'"
    by meson
  then show ?thesis
    using False by (simp add: file_result_def decryptFile_def readFileID_def)
next
  case True
  obtain n where n: "CipherSizeToPlainSize be (word_of_nat (length f)) = Inr n"
    using CipherSizeToPlainSize_body [OF be True len] by blast
  then have n': "CipherSizeToPlainSize be' (word_of_nat (length f)) = Inr n"
    using CipherSizeToPlainSize_tree [OF be be'] by simp
  consider (bad) e where "ParseHeader (take 18 f) = Inl (Err e)" | (empty) h where "ParseHeader (take 18 f) = Inr h" "n = 0"
    | (ok) h where "ParseHeader (take 18 f) = Inr h" "n \<noteq> 0"
    using ParseHeader_faults [of "take 18 f"] by blast
  then show ?thesis
  proof cases
    case bad
    then show ?thesis
      using True n n' by (simp add: file_result_def decryptFile_def readFileID_def)
  next
    case empty
    then show ?thesis
      using True n n' by (simp add: file_result_def decryptFile_def readFileID_def ExplodePlainRange.simps)
  next
    case ok
    have "map_sum id fst (decryptFile P b \<lparr>sdata = f, scap = c\<rparr>) = Inr (run_plain P cc (hID h) 0 (drop 18 f))"
      if b: "tree_enc cc b" "CipherSizeToPlainSize b (word_of_nat (length f)) = Inr n" for b c
    proof -
      let ?f = "\<lparr>sdata = f, scap = c\<rparr>"
      have "18 < length (sdata ?f)" "length (sdata ?f) < 2 ^ 62"
        "CipherSizeToPlainSize b (word_of_nat (length (sdata ?f))) = Inr n" "n \<noteq> 0" "ParseHeader (take 18 (sdata ?f)) = Inr h"
        using True len b(2) ok by simp_all
      from decryptFile_plain(1) [OF b(1) cipher this] show ?thesis
        by auto
    qed
    then show ?thesis
      using be be' n n' by (simp add: file_result_def)
  qed
qed

text \<open>
  C5: calls of \<^verbatim>\<open>decryptFile\<close> that run at the same time, on the same or on different files, do not disturb
  each other, although they share the slice pools and the cached ciphertext: whatever the interleaving and
  whichever slices the pools hand out or forget, a call that has ended has the result of the sequential
  method, error or panic included; the slice it returned still holds the plaintext, whatever the others have done since,
  and no other call has returned the same array; the cached file is unchanged. A call is never blocked and ends after at most
  five of its own steps for each byte of the file and seven more.
\<close>

theorem concurrent_decryptFile:
  assumes "tree_enc cc be" and "core_aead P cc" and "dec_start F (th0, m0)" and "dec_run P be (th0, m0) ls (th, m)"
    and "th0 t = SStart fa" and "tree_enc cc be'"
  shows "(\<forall>out. th t = SDone (Inr out) \<longrightarrow>
        (\<exists>be''. decryptFile P be' \<lparr>sdata = sh_mem m0 fa, scap = cap\<rparr> = Inr (Inr (sh_bytes m out), be'')) \<and>
        (\<forall>u out'. u \<noteq> t \<longrightarrow> th u = SDone (Inr out') \<longrightarrow> fst out' \<noteq> fst out)) \<and>
    (\<forall>e. th t = SDone (Inl e) \<longrightarrow> (\<exists>be''. decryptFile P be' \<lparr>sdata = sh_mem m0 fa, scap = cap\<rparr> = Inr (Inl e, be''))) \<and>
    (\<forall>x. th t = SFail x \<longrightarrow> decryptFile P be' \<lparr>sdata = sh_mem m0 fa, scap = cap\<rparr> = Inl x) \<and>
    sh_mem m fa = sh_mem m0 fa \<and>
    count_list ls (Some t) \<le> 5 * length (sh_mem m0 fa) + 7 \<and>
    ((\<exists>r. th t = SDone r) \<or> (\<exists>x. th t = SFail x) \<or> (\<exists>pc m'. call_step P be (th t) m pc m'))"
proof -
  let ?r = "decryptFile P be' \<lparr>sdata = sh_mem m0 fa, scap = cap\<rparr>"
  have start: "fst (th0, m0) t = SStart fa"
    using assms(5) by simp
  note C = dec_run_call [OF assms(4,1-3) start, unfolded snd_conv]
  have result: "map_sum id fst ?r = file_result P be (sh_mem m0 fa)"
    using assms(1,6,2) C(3) by (rule decryptFile_pools)
  have sep: "separated F (th, m)"
    using dec_run_inv [OF assms(4,1-3)] by (simp add: dec_inv_def)
  have "fst out' \<noteq> fst out" if "u \<noteq> t" "th t = SDone (Inr out)" "th u = SDone (Inr out')" for u out out'
    using separated_pcs(2) [OF sep that(1)] that(2,3) by auto
  moreover have "\<exists>be''. ?r = Inr (Inr (sh_bytes m out), be'')" if "th t = SDone (Inr out)" for out
    using result C(4) that by (cases ?r) auto
  moreover have "\<exists>be''. ?r = Inr (Inl e, be'')" if "th t = SDone (Inl e)" for e
    using result C(4) that by (cases ?r) auto
  moreover have "?r = Inl x" if "th t = SFail x" for x
    using result C(4) that by (cases ?r) auto
  moreover have "count_list ls (Some t) \<le> 5 * length (sh_mem m0 fa) + 7"
    using dec_run_count [OF assms(4,1-3) start] by simp
  moreover have "(\<exists>r. th t = SDone r) \<or> (\<exists>x. th t = SFail x) \<or> (\<exists>pc m'. call_step P be (th t) m pc m')"
    using C(4) call_step_enabled [of "th t" P be m] by (cases "th t") auto
  ultimately show ?thesis
    using C(2) by blast
qed

text \<open>Two calls on one cached file, with empty pools.\<close>

definition two_calls :: "bytes \<Rightarrow> dsys" where
  "two_calls f = ((\<lambda>t. if t < 2 then SStart 0 else SNone), \<lparr>sh_mem = (\<lambda>_. f), sh_next = 1, sh_pool = (\<lambda>_. [])\<rparr>)"

lemma dec_start_two_calls: "length f < 2 ^ 62 \<Longrightarrow> dec_start {0} (two_calls f)"
  by (simp add: dec_start_def two_calls_def separated_def pool_arrays_def pools_sized_def)

theorem concurrent_decryptFile_witness:
  "\<exists>f ls th m out. dec_run demo_prims (file_enc demo_core) (two_calls f) ls (th, m) \<and>
     th 1 = SDone (Inr out) \<and> sh_bytes m out = [1, 2, 3]"
proof -
  obtain hdr h xs where hdr: "ParseHeader hdr = Inr h" "length hdr = 18" "sealed_run demo_prims demo_core (Some (hID h)) 0 [[1, 2, 3]] xs"
    by (rule demo_sealed [OF core_aead_demo core_aead_file])
  let ?f = "hdr @ concat xs"
  obtain be2 where d: "decryptFile demo_prims (file_enc demo_core) \<lparr>sdata = ?f, scap = 0\<rparr> = Inr (Inr [1, 2, 3], be2)"
    using decryptFile_sealed [OF core_aead_file core_aead_demo hdr(1,2) _ _ hdr(3), of 0] by (auto simp: file_enc_def)
  have len: "length ?f < 2 ^ 62"
    using sealed_run_length [OF hdr(3)] hdr(2) by (simp add: demo_core_def AuthTagLen_def)
  note start = dec_start_two_calls [OF len]
  have t: "fst (two_calls ?f) 1 = SStart 0"
    by (simp add: two_calls_def)
  obtain ls th m where run: "dec_run demo_prims (file_enc demo_core) (two_calls ?f) ls (th, m)" and ended: "call_ended (th 1)"
    using dec_run_finish [OF dec_refl core_aead_file core_aead_demo start t] by fastforce
  obtain th0 m0 where s0: "two_calls ?f = (th0, m0)" "sh_mem m0 0 = ?f" "th0 1 = SStart 0"
    by (simp add: two_calls_def)
  note result = concurrent_decryptFile [OF core_aead_file core_aead_demo start [unfolded s0(1)] run [unfolded s0(1)] s0(3) core_aead_file,
      where cap = 0, unfolded s0(2)]
  have "th 1 \<noteq> SNone"
    using dec_run_call(4) [OF run core_aead_file core_aead_demo start t] by auto
  then have ends: "(\<exists>r. th 1 = SDone r) \<or> (\<exists>x. th 1 = SFail x)"
    using ended by (cases "th 1") simp_all
  note parts = result [unfolded d, THEN conjunct1] result [unfolded d, THEN conjunct2, THEN conjunct1]
    result [unfolded d, THEN conjunct2, THEN conjunct2, THEN conjunct1]
  have "th 1 \<noteq> SDone (Inl e)" "th 1 \<noteq> SFail x" for e x
    using parts(2,3) by auto
  then obtain out where out: "th 1 = SDone (Inr out)"
    using ends by (metis sum.exhaust)
  have "sh_bytes m out = [1, 2, 3]"
    using parts(1) [rule_format, OF out] by simp
  then show ?thesis
    using run out by blast
qed

end
