(* ===== verification/Spec2Isabelle.thy ===== *)
theory Spec2Isabelle
  imports Provided Tlog FakesConc SharedPools
begin

text \<open>
  gocryptsftp serves the plaintext of a gocryptfs directory tree that lies encrypted on a remote
  SFTP server. This development models the program in \<^verbatim>\<open>src/\<close> and proves what makes it correct.

  \<^bold>\<open>The program.\<close> \<^verbatim>\<open>main.go\<close> reads its configuration (\<^verbatim>\<open>config\<close>), opens a pool of connections to
  the remote server (\<^verbatim>\<open>backend\<close>), and sets up the SFTP callbacks (\<^verbatim>\<open>handlers\<close>) on a file tree
  (\<^verbatim>\<open>filetree\<close>). The tree unlocks \<^verbatim>\<open>gocryptfs.conf\<close> (\<^verbatim>\<open>gocrypt/configfile\<close>), finds the encrypted path
  of a plaintext path with the help of a directory cache, fetches files, listings and decrypted
  names through a pool of request workers with caches (\<^verbatim>\<open>requester\<close>), and decrypts contents
  (\<^verbatim>\<open>gocrypt/contentenc\<close>, \<^verbatim>\<open>gocrypt/cryptocore\<close>) and names (\<^verbatim>\<open>gocrypt/nametransform\<close>).

  \<^bold>\<open>Conventions.\<close> A Go function that may fail returns a \<open>result\<close>: an error, a panic, the end of the
  process or a call that never returns are values of type \<open>fault\<close> (\<open>Gc_Prelude\<close>). Machine integers
  whose wrap-around matters are words. State is passed explicitly; concurrency is a step
  relation. Code that is not in the repository is an argument: the ciphers and key derivations are the record
  \<open>prims\<close>, whose documented behaviour is the locale \<open>crypto_lib\<close> with its parts \<open>aead\<close> and \<open>siv_lib\<close>; EME,
  SHA-256, SipHash, JSON, PEM, the SSH and SFTP libraries and the operating system are arguments of the
  definitions that use them. Example instances in the theories show that the assumptions can hold.

  \<^bold>\<open>Theories.\<close>
  \<^item> \<open>Gc_Prelude\<close>: types, errors, strings and byte slices, big-endian integers, and the locales
    \<open>codec\<close>, \<open>strict_codec\<close> and \<open>codec_chain\<close> for encoder/decoder pairs. \<open>Paths\<close>: \<^verbatim>\<open>path/filepath\<close>.
  \<^item> \<open>Pad16\<close>, \<open>Base64url\<close>, \<open>NameTransform\<close>: \<^verbatim>\<open>gocrypt/nametransform\<close>. Names round-trip; a decrypted
    name is never a path; an encrypted one never looks like a reserved name.
  \<^item> \<open>Exitcodes\<close>, \<open>CryptoCore\<close>: \<^verbatim>\<open>gocrypt/exitcodes\<close>, \<^verbatim>\<open>siv_aead\<close>, \<^verbatim>\<open>stupidgcm\<close>, \<^verbatim>\<open>cryptocore\<close>. The random
    prefetcher never hands out a byte twice.
  \<^item> \<open>ByteSlices\<close>, \<open>FileHeader\<close>, \<open>ContentEnc\<close>, \<open>ContentBlocks\<close>, \<open>FileDecrypt\<close>: \<^verbatim>\<open>gocrypt/contentenc\<close> and
    \<^verbatim>\<open>filetree/decrypt.go\<close>, with slice capacities, pools, and the goroutines of \<^verbatim>\<open>EncryptBlocks\<close> as
    arbitrary interleavings. Sizes, ranges, headers, blocks and whole files round-trip; arbitrary input
    never panics, except for one kind of truncated file.
  \<^item> \<open>SharedPools\<close>: concurrent calls of \<^verbatim>\<open>decryptFile\<close>, with byte arrays at addresses of a shared memory, pools of addresses
    and one step for each access to a pool and each write to an array. Every array has one owner; every call
    gets the sequential result (\<open>run_plain\<close> is what the loops compute without pools) in an array of its own.
  \<^item> \<open>ConfigFile\<close>: \<^verbatim>\<open>gocrypt/configfile\<close>. Created configurations unlock, the master key round-trips,
    the file is replaced atomically.
  \<^item> \<open>FastCache\<close>: \<^verbatim>\<open>filetree/fastcache.go\<close>, a doubly linked list on an explicit heap. It refines a map
    that may forget (locale \<open>forgetful_map\<close>), and it is not the LRU cache its comments promise.
  \<^item> \<open>SyncCache\<close>, \<open>Requester\<close>: \<^verbatim>\<open>requester\<close>. \<open>run_step\<close> is one access of a call or a worker to shared state;
    the functions \<open>try_next\<close>, \<open>ticket_next\<close>, \<open>hold_next\<close>, \<open>break_next\<close> and \<open>look_next\<close> are the
    branches of \<^verbatim>\<open>makeRequest\<close> and \<^verbatim>\<open>performRequestAndCache\<close>. \<open>RequesterInv\<close>: lock ownership, requests in
    flight, no lost wakeup. \<open>RequesterLive\<close>: no deadlock, and the bound \<open>run_bound\<close> on the number of
    steps, quadratic in the number of calls, because a broadcast may wake every call.
    \<open>RequesterReplies\<close>: every reply is the backend's answer to the same request. \<open>RequesterStop\<close>:
    \<^verbatim>\<open>Stop\<close>, after which at most \<open>stop_bound\<close> steps drain the queue and end the workers.
  \<^item> \<open>FileTree\<close>, \<open>FileTreeSpec\<close>: \<^verbatim>\<open>filetree/filetree.go\<close>. The cached lookup equals a walk from the root
    (\<open>walk\<close>); files read back as their plaintext; listings are exact; for every server
    behaviour the methods return, unless the name decrypter panics, as EME does on an initialization vector that
    does not have 16 bytes. \<open>yields\<close> and \<open>returns\<close> are specifications of stateful methods.
    \<open>serves\<close> says that the requester and the server answer from an unchanging store and the decrypter
    panics where \<open>st_panics\<close> says; \<open>calm\<close> says that it does not on the names of reachable directories.
  \<^item> \<open>Backend\<close>: \<^verbatim>\<open>backend\<close>. No two concurrent calls share a connection and none is lost; every call gets the answer
    to its own request from the network, a parameter (\<open>network\<close>) of four relations.
  \<^item> \<open>Handlers\<close>, \<open>Config\<close>, \<open>Server\<close>, \<open>ServedTree\<close>: \<^verbatim>\<open>handlers\<close>, \<^verbatim>\<open>config\<close>, \<^verbatim>\<open>main.go\<close> with its accept
    loop and the goroutines of the channels (\<open>server_step\<close>; a panic in one ends the process), and sessions of requests on the tree, one after the other. \<open>Tlog\<close>: \<^verbatim>\<open>gocrypt/tlog\<close>.
  \<^item> \<open>TreeProg\<close>: the tree's methods and the callbacks of \<^verbatim>\<open>handlers/decrypt.go\<close> again, as programs (\<open>tprog\<close>) that
    stop at each access to shared state; run alone (\<open>exec\<close>) they are the methods (\<open>exec_op_prog\<close>, \<open>callback\<close>). \<open>TreeWp\<close>: a weakest
    precondition for them that holds whatever other requests do to the cache and the pools, and the
    postcondition \<open>op_post\<close> of each callback.
  \<^item> \<open>TreeSystem\<close>: the server at work. \<open>sys_step\<close> interleaves any number of callbacks, one access at a time,
    with the calls and workers of \<open>Requester\<close>; \<open>sys_env\<close> adds new requests, timeouts and cleared caches.
    \<open>served_by\<close> says of the world that the backend's answers without error are those of a store \<open>S\<close>, that
    the names in a directory decrypt to different names, and that the initialization vectors of the
    directories have different SipHash values: the requester tells them apart only by these hashes.
    A panic, in a callback or of the decrypter in a worker (\<open>worker_panics\<close>), ends the system; \<open>name_panic\<close> says
    that the decrypter panics on an entry of a reachable directory. \<open>sys_inv\<close> is the invariant. \<open>TreeSystemLive\<close>: progress, and a well-founded order on the
    system's states. \<open>TreeSystemAlone\<close>: one callback through the queue, the workers and the caches.
    \<open>Concurrent\<close>: listings, that every request ends, and that the sequential methods are among the
    behaviours.
  \<^item> \<open>Vault\<close>: the abstract specification, a plaintext tree (\<open>ptree\<close>), and \<open>presents\<close>, which says that a store
    holds it in the format of gocryptfs. Lookups, contents, sizes and listings follow the tree, except that an empty file is listed but
    is an error to read. A tree in this format is calm (\<open>presents_calm\<close>); a directory with a damaged initialization vector
    ends the server. Files with long names are hidden.
  \<^item> \<open>Provided\<close>: the system over the calls of \<open>Backend\<close>. \<open>over_network\<close> says that the relation between requests and
    answers is what the calls of a provider return, \<open>net_truthful\<close> that the server sends what a store holds; together
    they give what \<open>served_by\<close> asks of the backend.
  \<^item> \<open>Fakes\<close>, \<open>FakesConc\<close>: the doubles of the unit tests (\<^verbatim>\<open>requester/requesterfakes\<close>,
    \<^verbatim>\<open>config/fake_password_reader.go\<close>), alone and under concurrent calls: they count calls and give the results
    that were set up, and can deadlock with \<^verbatim>\<open>Invocations\<close>.
  \<^item> This theory joins them: from the start of the server to the plaintext tree that its clients see, for
    one request after another (\<open>server_presents_tree\<close>) and for concurrent ones (\<open>concurrent_presents_tree\<close>).

  \<^bold>\<open>Fuel.\<close> \<open>findPath\<close> gives its recursion a depth of the length of the path, which suffices for every
  absolute path because each call drops a component; a relative path exhausts every depth, since the Go
  code does not return for it. \<open>list_pages\<close> needs one page more than there are entries. All other
  functions are total without fuel.

  \<^bold>\<open>Not modelled.\<close> In the system of concurrent requests \<^verbatim>\<open>decryptFile\<close> is one step: its calls only share the pools
  and the cached ciphertext, and \<open>SharedPools\<close> shows that they then do not disturb each other. A store does not change while it is
  served. The steps of the connections are not interleaved with those of the system: a call of the system gets
  any result that some run of the provider returns for it, which includes what the pool that they share can give. Command line flags and log output of \<^verbatim>\<open>main.go\<close>,
  \<^verbatim>\<open>ScryptKDF.LogN\<close> (a floating-point logarithm that is only displayed) and the tools are left out.
\<close>

section \<open>From the start of the server to the plaintext of a file\<close>

text \<open>
  The program as a whole: once the server has started, after any number of requests of any kind
  that it has survived, a client that gets a regular file of the served tree receives its
  plaintext: the file is found under the decrypted names of its path, and its bytes are a header
  and the sealed blocks of the plaintext under the key that the start unlocked.
\<close>

lemma served_file_is_plaintext:
  assumes "crypto_lib P" and "main_init M P unmarshal A T configPath lfs u w = Inr (cfg, t, lfs', w')"
    and "serves A (\<lambda>_. True) S" and "small_files S"
    and "\<forall>r \<in> set rs. is_abs (req_Filepath (op_request r))" and "session P A rs t w' = Inr (t1, w1)"
    and "is_abs (req_Filepath req)" and "path_comps (req_Filepath req) = cs @ [c]"
    and "walk S (FileRoot (Remote cfg)) cs = Inr d" and "entry S d c = Inr i" and "\<not> fi_isdir i"
    and "st_ReadFile S (Join [d, fi_name i]) = Inr f" and "sdata f = hdr @ concat xs"
    and "ParseHeader hdr = Inr h" and "length hdr = 18" and "sealed_run P (ft_cCore t) (Some (hID h)) 0 ps xs"
    and "well_blocked 4096 ps" and "ps \<noteq> []" and "length (concat ps) + 32 * length ps + 18 < 2 ^ 62"
    and "calm S (FileRoot (Remote cfg))"
  shows "\<exists>t2 w2. decrypt_Fileread P A req t1 w1 = Inr (Inr (concat ps), t2, w2)"
proof -
  have t: "tree_inv S (\<lambda>_. True) (FileRoot (Remote cfg)) (ft_cCore t) t w'" and cc: "core_aead P (ft_cCore t)"
    using main_init_tree [OF assms(1,2)] by auto
  have t1: "tree_inv S (\<lambda>_. True) (FileRoot (Remote cfg)) (ft_cCore t) t1 w1"
    using assms(5) t assms(6) by (rule session_inv [OF assms(3,20) cc assms(4)])
  obtain cap where f: "f = \<lparr>sdata = hdr @ concat xs, scap = cap\<rparr>"
    using assms(13) by (cases f) simp
  have "\<exists>be''. decryptFile P be' f = Inr (Inr (concat ps), be'') \<and> tree_enc (ft_cCore t) be''" if "tree_enc (ft_cCore t) be'" for be'
  proof -
    have "unat (plainBS be') = 4096"
      using that by (simp add: tree_enc_def)
    then show ?thesis
      unfolding f by (intro decryptFile_sealed [OF that cc assms(14,15) _ assms(18,16,19)]) (use assms(17) in simp)
  qed
  from yieldsD [OF yields_ReadFile [OF assms(3,20,7-12) this] t1] show ?thesis
    unfolding decrypt_Fileread_def by blast
qed

lemma served_file_is_plaintext_witness:
  "\<exists>cf f t t2 w2. main_init demo_main demo_prims (\<lambda>_. Inr cf) (demo_remote f) demo_tmp ''conf'' Map.empty () () =
       Inr (demo_cfg, t, Map.empty, ()) \<and>
     decrypt_Fileread demo_prims (demo_remote f) \<lparr>req_Method = ''Get'', req_Filepath = ''/x/../f'', req_Target = []\<rparr> t () =
       Inr (Inr [1, 2, 3], t2, w2)"
proof -
  obtain cf t where start: "\<And>f. main_init demo_main demo_prims (\<lambda>_. Inr cf) (demo_remote f) demo_tmp ''conf'' Map.empty () () =
      Inr (demo_cfg, t, Map.empty, ())" and enc: "tree_enc (ft_cCore t) (ft_cEnc t)"
    using demo_starts by blast
  have "core_aead demo_prims (ft_cCore t)"
    using main_init_tree [OF demo_lib.crypto_lib_axioms start] by blast
  from this enc obtain hdr h xs where sealed: "ParseHeader hdr = Inr h" "length hdr = 18"
    "sealed_run demo_prims (ft_cCore t) (Some (hID h)) 0 [[1, 2, 3]] xs"
    by (rule demo_sealed)
  let ?f = "\<lparr>sdata = hdr @ concat xs, scap = 0\<rparr>"
  let ?put = "\<lparr>req_Method = ''Put'', req_Filepath = ''/y'', req_Target = []\<rparr>"
  let ?get = "\<lparr>req_Method = ''Get'', req_Filepath = ''/x/../f'', req_Target = []\<rparr>"
  have "length (concat xs) = 35"
    using sealed_run_length [OF sealed(3)] enc by (simp add: tree_enc_def AuthTagLen_def)
  then have small: "small_files (demo_store ?f)"
    using sealed(2) by (auto simp: small_files_def demo_store_def make_slice_def split: if_splits)
  have "session demo_prims (demo_remote ?f) [OpPut ?put] t () = Inr (t, ())"
    by (simp add: decrypt_Filewrite_def terr_def)
  moreover have "\<forall>r \<in> set [OpPut ?put]. is_abs (req_Filepath (op_request r))"
    by (simp add: is_abs_def)
  ultimately have "\<exists>t2 w2. decrypt_Fileread demo_prims (demo_remote ?f) ?get t () = Inr (Inr (concat [[1, 2, 3]]), t2, w2)"
    by (intro served_file_is_plaintext [OF demo_lib.crypto_lib_axioms start demo_remote_serves small _ _ _ _ _ demo_entry, where
          f = ?f and cs = "[]" and hdr = hdr and xs = xs and h = h and ps = "[[1, 2, 3]]" and rs = "[OpPut ?put]"])
      (simp_all add: demo_paths sealed demo_cfg_def demo_file_def demo_Join demo_calm, simp_all add: demo_store_def)
  then show ?thesis
    using start by auto
qed

section \<open>The server presents the plaintext tree\<close>

text \<open>
  C1: the server implements its abstract specification, up to empty files, as long as the requester answers
  every call from what the remote directory holds (for what happens when calls fail or time out, see C3 and C2): when
  that directory holds a tree of files and folders in the format of gocryptfs, with every name stored directly and not
  under a hash (C38) and every file a header with blocks that are sealed or holes, under the keys that the start
  unlocked, then after any requests that the server has survived a
  client gets exactly the plaintext of every file of the tree that is not empty by its plaintext path, an error
  for every empty file, and an error for every other path; and a listing shows exactly the entries of
  the folder at the path, in the server's order, with their names, kinds and file sizes, empty files
  included, and is an error where there is no folder.
\<close>

theorem server_presents_tree:
  assumes "crypto_lib P" and "main_init M P unmarshal A T configPath lfs u w = Inr (cfg, t, lfs', w')"
    and "serves A (\<lambda>_. True) S" and "small_files S" and "decrypts_by S (ft_nTransform t)"
    and "presents S (ft_nTransform t) P (ft_cCore t) (FileRoot (Remote cfg)) (Folder es)"
    and "\<forall>r \<in> set rs. is_abs (req_Filepath (op_request r))" and "session P A rs t w' = Inr (t1, w1)"
    and "is_abs (req_Filepath req)" and "req_Method lreq = ''List''" and "is_abs (req_Filepath lreq)"
    and "panics_by S (ft_nTransform t)"
  shows "(case tree_get (Folder es) (req_Filepath req) of
      Some b \<Rightarrow> if b = [] then \<exists>e t2 w2. decrypt_Fileread P A req t1 w1 = Inr (Inl e, t2, w2)
        else \<exists>t2 w2. decrypt_Fileread P A req t1 w1 = Inr (Inr b, t2, w2)
    | None \<Rightarrow> \<exists>e t2 w2. decrypt_Fileread P A req t1 w1 = Inr (Inl e, t2, w2)) \<and>
    (case tree_list (Folder es) (req_Filepath lreq) of
      Some es' \<Rightarrow> \<exists>l t2 w2. decrypt_Filelist A lreq t1 w1 = Inr (Inr (Some l), t2, w2) \<and> list_all2 shows_entry es' l
    | None \<Rightarrow> \<exists>e t2 w2. decrypt_Filelist A lreq t1 w1 = Inr (Inl e, t2, w2))"
proof -
  have t: "tree_inv S (\<lambda>_. True) (FileRoot (Remote cfg)) (ft_cCore t) t w'" and cc: "core_aead P (ft_cCore t)"
    using main_init_tree [OF assms(1,2)] by auto
  have names: "names_by S (ft_nTransform t)"
    using assms(5) main_init_names [OF assms(1,2)] by (simp add: names_by_def)
  note calm = presents_calm [OF names assms(12,6)]
  have t1: "tree_inv S (\<lambda>_. True) (FileRoot (Remote cfg)) (ft_cCore t) t1 w1"
    using assms(7) t assms(8) by (rule session_inv [OF assms(3) calm cc assms(4)])
  then have enc: "tree_enc (ft_cCore t) (ft_cEnc t1)"
    by (auto simp: tree_inv_def tree_ok_def)
  note run = yieldsD [where J = "tree_inv S (\<lambda>_. True) (FileRoot (Remote cfg)) (ft_cCore t)", OF _ t1]
  show ?thesis
  proof (rule conjI)
    show "case tree_get (Folder es) (req_Filepath req) of
        Some b \<Rightarrow> if b = [] then \<exists>e t2 w2. decrypt_Fileread P A req t1 w1 = Inr (Inl e, t2, w2)
          else \<exists>t2 w2. decrypt_Fileread P A req t1 w1 = Inr (Inr b, t2, w2)
      | None \<Rightarrow> \<exists>e t2 w2. decrypt_Fileread P A req t1 w1 = Inr (Inl e, t2, w2)"
      using yields_get [OF assms(3) calm cc names assms(6,9)] run
      unfolding decrypt_Fileread_def by (fastforce split: option.splits if_splits)
    show "case tree_list (Folder es) (req_Filepath lreq) of
        Some es' \<Rightarrow> \<exists>l t2 w2. decrypt_Filelist A lreq t1 w1 = Inr (Inr (Some l), t2, w2) \<and> list_all2 shows_entry es' l
      | None \<Rightarrow> \<exists>e t2 w2. decrypt_Filelist A lreq t1 w1 = Inr (Inl e, t2, w2)"
      using yields_list [OF assms(3) calm cc names assms(6,11) enc] run
      by (fastforce simp: decrypt_Filelist_def assms(10) tbind_def tret_def split: option.splits)
  qed
qed

text \<open>A file of three bytes, and an empty one.\<close>

theorem server_presents_tree_witness:
  "\<exists>A cf t l t2 w2 t3 w3. main_init demo_main demo_prims (\<lambda>_. Inr cf) A demo_tmp ''conf'' Map.empty () () =
       Inr (demo_cfg, t, Map.empty, ()) \<and>
     decrypt_Fileread demo_prims A \<lparr>req_Method = ''Get'', req_Filepath = ''/x/../f'', req_Target = []\<rparr> t () =
       Inr (Inr [1, 2, 3], t2, w2) \<and>
     decrypt_Filelist A \<lparr>req_Method = ''List'', req_Filepath = ''/'', req_Target = []\<rparr> t () = Inr (Inr (Some l), t3, w3) \<and>
     list_all2 shows_entry [(''f'', File [1, 2, 3])] l \<and>
     (\<exists>A e l t2 w2 t3 w3. decrypt_Fileread demo_prims A \<lparr>req_Method = ''Get'', req_Filepath = ''/x/../f'', req_Target = []\<rparr> t () =
         Inr (Inl e, t2, w2) \<and>
       decrypt_Filelist A \<lparr>req_Method = ''List'', req_Filepath = ''/'', req_Target = []\<rparr> t () = Inr (Inr (Some l), t3, w3) \<and>
       list_all2 shows_entry [(''f'', File [])] l)"
proof -
  obtain cf t c f where v: "demo_vault cf t c f"
    using demo_vault_exists by blast
  let ?S = "\<lambda>f. vault_store (ft_nTransform t) c f"
  let ?A = "\<lambda>f. (store_access (?S f))\<lparr>fs_ReadFile := (\<lambda>p w. (Inr [1], w))\<rparr>"
  let ?get = "\<lparr>req_Method = ''Get'', req_Filepath = ''/x/../f'', req_Target = []\<rparr>"
  let ?list = "\<lparr>req_Method = ''List'', req_Filepath = ''/'', req_Target = []\<rparr>"
  have init: "main_init demo_main demo_prims (\<lambda>_. Inr cf) (?A g) demo_tmp ''conf'' Map.empty () () = Inr (demo_cfg, t, Map.empty, ())" for g
    by (rule demo_vault_start [OF v]) simp
  have serves: "serves (?A g) (\<lambda>_. True) (?S g)" for g
    by (simp add: serves_def store_access_def split: option.split)
  have none: "session demo_prims (?A g) [] t () = Inr (t, ())" for g
    by simp
  have tl: "tree_list (Folder [(''f'', File b)]) ''/'' = Some [(''f'', File b)]" for b
    by (simp add: tree_list_def demo_paths)
  have empty: "small_files (?S nil_slice)"
    by (rule vault_small) (simp add: nil_slice_def)
  have "(\<exists>t2 w2. decrypt_Fileread demo_prims (?A f) ?get t () = Inr (Inr [1, 2, 3], t2, w2)) \<and>
      (\<exists>l t3 w3. decrypt_Filelist (?A f) ?list t () = Inr (Inr (Some l), t3, w3) \<and> list_all2 shows_entry [(''f'', File [1, 2, 3])] l)"
    using server_presents_tree [OF demo_lib.crypto_lib_axioms init serves vault_small [OF demo_vaultD(7) [OF v]] vault_decrypts
        demo_vault_presents [OF v] _ none, of ?get ?list] vault_get [of "[1, 2, 3]"] tl vault_panics by (simp add: is_abs_def)
  moreover have "(\<exists>e t2 w2. decrypt_Fileread demo_prims (?A nil_slice) ?get t () = Inr (Inl e, t2, w2)) \<and>
      (\<exists>l t3 w3. decrypt_Filelist (?A nil_slice) ?list t () = Inr (Inr (Some l), t3, w3) \<and> list_all2 shows_entry [(''f'', File [])] l)"
    using server_presents_tree [OF demo_lib.crypto_lib_axioms init serves empty vault_decrypts
        demo_vault_presents_empty [OF v] _ none, of ?get ?list] vault_get [of "[]"] tl vault_panics by (simp add: is_abs_def)
  ultimately show ?thesis
    using init by blast
qed

text \<open>What a callback that has returned in the system of concurrent requests has returned.\<close>

lemma done_presents_tree:
  assumes "crypto_lib (y_prims Y)" and "main_init M (y_prims Y) unmarshal A T configPath lfs u w = Inr (cfg, t, lfs', w')"
    and "served_by Y S" and "small_files S" and "decrypts_by S (ft_nTransform t)"
    and "presents S (ft_nTransform t) (y_prims Y) (ft_cCore t) (FileRoot (Remote cfg)) (Folder es)"
    and "reached Y timers t y" and "y_threads y j = TDone (Inr v)"
  shows "(\<forall>req. y_ops Y j = OpGet req \<longrightarrow> (\<exists>b. v = VFile b \<and> tree_get (Folder es) (req_Filepath req) = Some b)) \<and>
    (\<forall>req. y_ops Y j = OpList req \<and> req_Method req = ''List'' \<longrightarrow> (\<exists>es' l l'. v = VList (Some l') \<and>
       tree_list (Folder es) (req_Filepath req) = Some es' \<and> list_all2 shows_entry es' l \<and> subseq l' l))"
proof -
  have "tree_inv S (\<lambda>_. True) (FileRoot (Remote cfg)) (ft_cCore t) t w'" and cc: "core_aead (y_prims Y) (ft_cCore t)"
    using main_init_tree [OF assms(1,2)] by auto
  then have t: "tree_inv S (\<lambda>_. True) (FileRoot (Remote cfg)) (ft_cCore t) t ()" and enc: "tree_enc (ft_cCore t) (ft_cEnc t)"
    and ok: "sys_ok Y S (ft_cCore t)"
    using assms(3,4) by (simp_all add: tree_inv_def tree_ok_def sys_ok_def)
  have names: "names_by S (ft_nTransform t)"
    using assms(5) main_init_names [OF assms(1,2)] by (simp add: names_by_def)
  note got_file_tree [OF _ cc names assms(6)] got_listing_tree [OF _ cc names assms(6) enc]
  then show ?thesis
    using thread_done [OF ok t assms(7,8)] by fastforce
qed

text \<open>
  C3: the same while any number of requests run at the same time, however callbacks, calls and workers
  interleave, and whatever times out, fails or is cleared from the caches: what a client gets, if it
  does not get an error, is the plaintext of the file at its path, and a listing is a part, in
  order, of the entries of the folder at its path.
\<close>

theorem concurrent_presents_tree:
  assumes "crypto_lib (y_prims Y)" and "main_init M (y_prims Y) unmarshal A T configPath lfs u w = Inr (cfg, t, lfs', w')"
    and "served_by Y S" and "small_files S" and "decrypts_by S (ft_nTransform t)"
    and "presents S (ft_nTransform t) (y_prims Y) (ft_cCore t) (FileRoot (Remote cfg)) (Folder es)"
    and "reached Y timers t y" and "y_threads y j = TDone (Inr v)"
  shows "(\<forall>req. y_ops Y j = OpGet req \<longrightarrow> (\<exists>b. v = VFile b \<and> tree_get (Folder es) (req_Filepath req) = Some b)) \<and>
    (\<forall>req. y_ops Y j = OpList req \<and> req_Method req = ''List'' \<longrightarrow> (\<exists>es' l l'. v = VList (Some l') \<and>
       tree_list (Folder es) (req_Filepath req) = Some es' \<and> list_all2 shows_entry es' l \<and> subseq l' l))"
  using assms by (rule done_presents_tree)

theorem concurrent_presents_tree_witness:
  "\<exists>Y cf t y. main_init demo_main demo_prims (\<lambda>_. Inr cf) (demo_remote nil_slice) demo_tmp ''conf'' Map.empty () () =
       Inr (demo_cfg, t, Map.empty, ()) \<and>
     reached Y False t y \<and> y_threads y 0 = TDone (Inr (VFile [1, 2, 3])) \<and>
     tree_get (Folder [(''f'', File [1, 2, 3])]) ''/x/../f'' = Some [1, 2, 3]"
proof -
  obtain cf t c f where v: "demo_vault cf t c f"
    using demo_vault_exists by blast
  let ?S = "vault_store (ft_nTransform t) c f" and ?T = "Folder [(''f'', File [1, 2, 3])]"
  let ?Y = "store_env demo_prims ?S (lone_hash f) 1 (\<lambda>_. lone_get)"
  have init: "main_init demo_main demo_prims (\<lambda>_. Inr cf) (demo_remote nil_slice) demo_tmp ''conf'' Map.empty () () =
      Inr (demo_cfg, t, Map.empty, ())"
    by (rule demo_vault_start [OF v]) (simp add: demo_remote_def)
  obtain y where y: "reached ?Y False t y" "y_threads y 0 = TDone (Inr (VFile [1, 2, 3]))"
    by (rule vault_gets [OF demo_vaultD(2,1,3-7) [OF v]])
  have "tree_get ?T ''/x/../f'' = Some [1, 2, 3]"
    using concurrent_presents_tree [where Y = ?Y, unfolded store_env_simps, OF demo_lib.crypto_lib_axioms init
        vault_served(1) [OF demo_vaultD(6,3) [OF v]] vault_small [OF demo_vaultD(7) [OF v]] vault_decrypts demo_vault_presents [OF v] y]
    by simp
  then show ?thesis
    using init y by blast
qed

text \<open>
  C2: the same down to the network: the backend is the pool of connections, with any number of calls that
  dial, use, check, return and close them at the same time. When the server's answers without error are
  what its directory holds, a client gets the plaintext of the file at its path and a part, in order, of the folder at its path,
  or an error, however callbacks, calls, workers and connections interleave and whatever fails; and if the network
  answers and nothing times out, every run of the requests is finite and ends with all of them returned, or with the
  panic of \<^verbatim>\<open>decryptFile\<close> on a truncated file.
\<close>

theorem network_presents_tree:
  assumes "crypto_lib (y_prims Y)" and "main_init M (y_prims Y) unmarshal A T configPath lfs u w = Inr (cfg, t, lfs', w')"
    and "over_network N S Y" and "net_truthful N S" and "call_supply Y S" and "ivs_hashed_apart Y S" and "names_unique S"
    and "small_files S" and "decrypts_by S (ft_nTransform t)"
    and "presents S (ft_nTransform t) (y_prims Y) (ft_cCore t) (FileRoot (Remote cfg)) (Folder es)"
    and "reached Y timers t y" and "panics_by S (ft_nTransform t)"
  shows "(\<forall>j v req. y_threads y j = TDone (Inr v) \<and> y_ops Y j = OpGet req \<longrightarrow>
      (\<exists>b. v = VFile b \<and> tree_get (Folder es) (req_Filepath req) = Some b)) \<and>
    (\<forall>j v req. y_threads y j = TDone (Inr v) \<and> y_ops Y j = OpList req \<and> req_Method req = ''List'' \<longrightarrow>
      (\<exists>es' l l'. v = VList (Some l') \<and> tree_list (Folder es) (req_Filepath req) = Some es' \<and>
         list_all2 shows_entry es' l \<and> subseq l' l)) \<and>
    (net_total N \<and> 1 \<le> env_workers (y_requester Y) \<and> \<not> timers \<longrightarrow>
      (\<nexists>run. run 0 = y \<and> (\<forall>n. sys_step Y (run n) (run (Suc n)))) \<and>
      (\<forall>y'. (sys_step Y)\<^sup>*\<^sup>* y y' \<and> (\<nexists>y''. sys_step Y y' y'') \<longrightarrow>
        (\<forall>j. y_threads y' j = TNone \<or> (\<exists>r. y_threads y' j = TDone r)) \<or>
        (y_crash y' = Some (Panic IndexOutOfRange) \<and> stub_file S)))"
proof -
  have served: "served_by Y S"
    using over_network_truthful [OF assms(3,4)] assms(5-7) by (simp add: served_by_def)
  have names: "names_by S (ft_nTransform t)"
    using assms(9) main_init_names [OF assms(1,2)] by (simp add: names_by_def)
  note done_presents_tree [OF assms(1,2) served assms(8-11)]
  moreover have "(\<nexists>run. run 0 = y \<and> (\<forall>n. sys_step Y (run n) (run (Suc n)))) \<and>
      (\<forall>y'. (sys_step Y)\<^sup>*\<^sup>* y y' \<and> (\<nexists>y''. sys_step Y y' y'') \<longrightarrow>
        (\<forall>j. y_threads y' j = TNone \<or> (\<exists>r. y_threads y' j = TDone r)) \<or>
        (y_crash y' = Some (Panic IndexOutOfRange) \<and> stub_file S))"
    if live: "net_total N" "1 \<le> env_workers (y_requester Y)" "\<not> timers"
  proof -
    have "tree_inv S (\<lambda>_. True) (FileRoot (Remote cfg)) (ft_cCore t) t w'" and cc: "core_aead (y_prims Y) (ft_cCore t)"
      using main_init_tree [OF assms(1,2)] by auto
    then have ok: "sys_ok Y S (ft_cCore t)" and t: "tree_inv S (\<lambda>_. True) (FileRoot (Remote cfg)) (ft_cCore t) t ()"
      using served assms(8) by (simp_all add: tree_inv_def tree_ok_def sys_ok_def)
    have "reached Y False t y"
      using assms(11) live(3) by simp
    from requests_end [OF ok t this live(2) over_network_answers [OF assms(3) live(1)]] show ?thesis
      using calm_no_panic [OF presents_calm [OF names assms(12,10)]] by simp
  qed
  ultimately show ?thesis
    by blast
qed

theorem network_presents_tree_witness:
  "\<exists>Y S cf t y. over_network (store_net S) S Y \<and>
     main_init demo_main demo_prims (\<lambda>_. Inr cf) (demo_remote nil_slice) demo_tmp ''conf'' Map.empty () () = Inr (demo_cfg, t, Map.empty, ()) \<and>
     reached Y False t y \<and> y_threads y 0 = TDone (Inr (VFile [1, 2, 3])) \<and>
     tree_get (Folder [(''f'', File [1, 2, 3])]) ''/x/../f'' = Some [1, 2, 3] \<and>
     (\<nexists>run. run 0 = y \<and> (\<forall>n. sys_step Y (run n) (run (Suc n))))"
proof -
  obtain cf t c f where v: "demo_vault cf t c f"
    using demo_vault_exists by blast
  let ?S = "vault_store (ft_nTransform t) c f" and ?T = "Folder [(''f'', File [1, 2, 3])]"
  let ?Y = "net_env demo_prims ?S (lone_hash f) 1 (\<lambda>_. lone_get)"
  have init: "main_init demo_main demo_prims (\<lambda>_. Inr cf) (demo_remote nil_slice) demo_tmp ''conf'' Map.empty () () =
      Inr (demo_cfg, t, Map.empty, ())"
    by (rule demo_vault_start [OF v]) (simp add: demo_remote_def)
  obtain y where y: "reached ?Y False t y" "y_threads y 0 = TDone (Inr (VFile [1, 2, 3]))"
    by (rule net_vault_gets [OF demo_vaultD(2,1,3-7) [OF v]])
  have served: "served_by ?Y ?S"
    by (rule net_env_served [OF vault_served(1) [OF demo_vaultD(6,3) [OF v]]])
  then have parts: "call_supply ?Y ?S" "ivs_hashed_apart ?Y ?S" "names_unique ?S"
    by (simp_all add: served_by_def)
  note result = network_presents_tree [where Y = ?Y, unfolded net_env_simps, OF demo_lib.crypto_lib_axioms init net_env_over
      store_net_truthful parts vault_small [OF demo_vaultD(7) [OF v]] vault_decrypts demo_vault_presents [OF v] y(1) vault_panics]
  have "tree_get ?T ''/x/../f'' = Some [1, 2, 3]"
    using result [THEN conjunct1, rule_format, of 0 "VFile [1, 2, 3]"] y(2) by simp
  moreover have "\<nexists>run. run 0 = y \<and> (\<forall>n. sys_step ?Y (run n) (run (Suc n)))"
    using result store_net_total [of ?S] by simp
  ultimately show ?thesis
    using init y net_env_over by blast
qed

end
